(* ===== verification/Prelude.thy ===== *)
theory Prelude
  imports Main "HOL-Library.Word"
begin

text \<open>
  Shared vocabulary of the development: the machine's integer types, the faults
  a kernel operation can end in, the error monad in which fallible operations are
  written, and the generic facts on lists, words and little-endian memory that the
  component theories use.
\<close>

unbundle bit_operations_syntax

section \<open>Machine integers\<close>

type_synonym u8 = "8 word"
type_synonym u16 = "16 word"
type_synonym u32 = "32 word"

named_theorems fault_simps \<open>how the error monad computes\<close>
named_theorems mem_simps \<open>reading back what was written to memory\<close>
named_theorems frame_simps \<open>what an operation leaves alone\<close>
named_theorems geometry \<open>bounds on indices taken from machine words\<close>

section \<open>Faults and the error monad\<close>

text \<open>
  What a C program on bare metal can run into: a page fault (the handler in idt.c
  prints the fault and halts), an access outside a C array (the behaviour is then
  undefined), a division by zero (exception 0, handled like a page fault), a loop that is
  still running when its fuel is used up, and the wait for the reset that reboots the machine.
\<close>

datatype kfault = PageFault u32 | OutOfArray nat | DivideError | StillRunning | Reset

type_synonym 'a res = "kfault + 'a"

definition bindE :: "'e + 'a \<Rightarrow> ('a \<Rightarrow> 'e + 'b) \<Rightarrow> 'e + 'b" where
  "bindE r f = (case r of Inl e \<Rightarrow> Inl e | Inr x \<Rightarrow> f x)"

lemma bindE_Inl [simp, fault_simps]: "bindE (Inl e) f = Inl e"
  by (simp add: bindE_def)

lemma bindE_Inr [simp, fault_simps]: "bindE (Inr x) f = f x"
  by (simp add: bindE_def)

lemma bindE_eq_Inr [fault_simps]: "bindE r f = Inr y \<longleftrightarrow> (\<exists>x. r = Inr x \<and> f x = Inr y)"
  by (cases r) auto

lemma bindE_eq_Inl [fault_simps]:
  "bindE r f = Inl e \<longleftrightarrow> r = Inl e \<or> (\<exists>x. r = Inr x \<and> f x = Inl e)"
  by (cases r) auto

lemma bindE_cong [fundef_cong]:
  "r = r' \<Longrightarrow> (\<And>x. r' = Inr x \<Longrightarrow> f x = f' x) \<Longrightarrow> bindE r f = bindE r' f'"
  by (cases r') auto

lemma bindE_assoc: "bindE (bindE r f) g = bindE r (\<lambda>x. bindE (f x) g)"
  by (cases r) auto

text \<open>A counted C loop over the values of its index, in the error monad.\<close>

fun foldE :: "('a \<Rightarrow> 's \<Rightarrow> 'e + 's) \<Rightarrow> 'a list \<Rightarrow> 's \<Rightarrow> 'e + 's" where
  "foldE f [] s = Inr s"
| "foldE f (x # xs) s = bindE (f x s) (foldE f xs)"

lemma foldE_append: "foldE f (xs @ ys) s = bindE (foldE f xs s) (foldE f ys)"
proof (induction xs arbitrary: s)
  case (Cons x xs)
  then show ?case by (cases "f x s") auto
qed simp

lemma foldE_map: "foldE f (map g xs) s = foldE (\<lambda>x. f (g x)) xs s"
proof (induction xs arbitrary: s)
  case (Cons x xs)
  then show ?case by (cases "f (g x) s") auto
qed simp

lemma foldE_cong [fundef_cong]:
  "xs = ys \<Longrightarrow> s = t \<Longrightarrow> (\<And>x u. x \<in> set ys \<Longrightarrow> f x u = g x u) \<Longrightarrow> foldE f xs s = foldE g ys t"
proof (induction ys arbitrary: xs s t)
  case (Cons y ys)
  then show ?case by (cases "g y t") auto
qed simp

lemma foldE_total:
  "(\<And>x s. x \<in> set xs \<Longrightarrow> f x s = Inr (g x s)) \<Longrightarrow> foldE f xs s = Inr (fold g xs s)"
  by (induction xs arbitrary: s) auto

lemma foldE_invariant:
  assumes "foldE f xs s = Inr s'" "P s" "\<And>x s s'. x \<in> set xs \<Longrightarrow> P s \<Longrightarrow> f x s = Inr s' \<Longrightarrow> P s'"
  shows "P s'"
  using assms by (induction xs arbitrary: s) (auto simp: bindE_eq_Inr)

section \<open>Character data\<close>

text \<open>C strings are byte lists; \<open>bytes\<close> spells a literal.\<close>

definition bytes :: "string \<Rightarrow> u8 list" where
  "bytes s = map of_char s"

text \<open>What a C string function sees of a byte array: everything before the first NUL.\<close>

definition cstr :: "u8 list \<Rightarrow> u8 list" where
  "cstr bs = takeWhile (\<lambda>c. c \<noteq> 0) bs"

lemma cstr_no_nul: "c \<in> set (cstr bs) \<Longrightarrow> c \<noteq> 0"
  by (auto simp: cstr_def dest: set_takeWhileD)

lemma cstr_id: "0 \<notin> set bs \<Longrightarrow> cstr bs = bs"
  by (auto simp: cstr_def takeWhile_eq_all_conv)

lemma bytes_test: "bytes ''abc'' = [97, 98, 99]"
  by (simp add: bytes_def)

section \<open>Bounds of machine words\<close>

lemma u8_bound [geometry]: "unat (x :: u8) < 256"
  using unsigned_less[of x] by simp

lemma u16_bound [geometry]: "unat (x :: u16) < 65536"
  using unsigned_less[of x] by simp

lemma u32_bound [geometry]: "unat (x :: u32) < 4294967296"
  using unsigned_less[of x] by simp

lemma unat_widen [simp]:
  "unat (ucast (a :: u8) :: u32) = unat a" "unat (ucast (b :: u16) :: u32) = unat b" "unat (ucast (a :: u8) :: u16) = unat a"
  using u8_bound[of a] u16_bound[of b] by (simp_all add: unsigned_ucast_eq take_bit_nat_eq_self_iff)

lemma sint_small: "unat (x :: u32) < 2147483648 \<Longrightarrow> sint x = int (unat x)"
proof -
  assume "unat x < 2147483648"
  then have "int (unat x) < 2147483648" by linarith
  then have "uint x < 2147483648" by simp
  then have "signed_take_bit 31 (uint x) = uint x" by (intro signed_take_bit_int_eq_self) (auto intro: order_trans[of _ 0])
  then show ?thesis by (simp add: sint_uint)
qed

section \<open>Little-endian byte memory\<close>

type_synonym mem = "u32 \<Rightarrow> u8"

definition le32 :: "u8 \<Rightarrow> u8 \<Rightarrow> u8 \<Rightarrow> u8 \<Rightarrow> u32" where
  "le32 b0 b1 b2 b3 = ucast b0 OR push_bit 8 (ucast b1) OR push_bit 16 (ucast b2) OR push_bit 24 (ucast b3)"

definition get32 :: "mem \<Rightarrow> u32 \<Rightarrow> u32" where
  "get32 m a = le32 (m a) (m (a + 1)) (m (a + 2)) (m (a + 3))"

definition put32 :: "mem \<Rightarrow> u32 \<Rightarrow> u32 \<Rightarrow> mem" where
  "put32 m a v = m(a := ucast v, a + 1 := ucast (drop_bit 8 v),
     a + 2 := ucast (drop_bit 16 v), a + 3 := ucast (drop_bit 24 v))"

lemma le32_of_bytes:
  "le32 (ucast v) (ucast (drop_bit 8 v)) (ucast (drop_bit 16 v)) (ucast (drop_bit 24 v)) = v"
proof (rule bit_word_eqI)
  fix n :: nat
  assume n: "n < LENGTH(32)"
  consider "n < 8" | "8 \<le> n" "n < 16" | "16 \<le> n" "n < 24" | "24 \<le> n"
    by linarith
  then show "bit (le32 (ucast v) (ucast (drop_bit 8 v)) (ucast (drop_bit 16 v)) (ucast (drop_bit 24 v))) n = bit v n"
    using n by cases (auto simp: le32_def bit_simps)
qed

lemma get32_put32_same [simp, mem_simps]: "get32 (put32 m a v) a = v"
  by (simp add: get32_def put32_def le32_of_bytes)

definition aligned4 :: "u32 \<Rightarrow> bool" where
  "aligned4 a \<longleftrightarrow> unat a mod 4 = 0"

lemma aligned4_unat_add:
  assumes "aligned4 a" "k < 4"
  shows "unat (a + of_nat k) = unat a + k"
proof -
  have "unat a + k < 4294967296"
    using assms u32_bound[of a] unfolding aligned4_def by presburger
  then show ?thesis
    using assms by (simp add: unat_word_ariths unat_of_nat)
qed

lemma aligned4_cells:
  assumes "aligned4 a" "aligned4 b" "a \<noteq> b" "i < 4" "j < 4"
  shows "a + of_nat i \<noteq> b + of_nat j"
proof
  assume "a + of_nat i = b + of_nat j"
  then have "unat a + i = unat b + j"
    using aligned4_unat_add[OF assms(1,4)] aligned4_unat_add[OF assms(2,5)] by metis
  then have "unat a = unat b"
    using assms unfolding aligned4_def by presburger
  then show False using assms(3) by (simp add: word_unat_eq_iff)
qed

lemma get32_put32_other [simp, mem_simps]:
  assumes "aligned4 a" "aligned4 b" "a \<noteq> b"
  shows "get32 (put32 m a v) b = get32 m b"
proof -
  have d: "b + of_nat j \<noteq> a + of_nat i" if "i < 4" "j < 4" for i j
    using aligned4_cells[of b a j i] assms that by auto
  show ?thesis
    unfolding get32_def put32_def
    using d[of 0 0] d[of 0 1] d[of 0 2] d[of 0 3] d[of 1 0] d[of 1 1] d[of 1 2] d[of 1 3]
      d[of 2 0] d[of 2 1] d[of 2 2] d[of 2 3] d[of 3 0] d[of 3 1] d[of 3 2] d[of 3 3]
    by simp
qed

end
