(* ===== verification/Machine.thy ===== *)
theory Machine
  imports Prelude
begin

text \<open>
  The memory of the machine the kernel runs on: byte-addressed physical memory, the two
  control registers that switch paging on, and the documented two-level page walk of a
  32-bit x86 processor (4 KiB pages; supervisor accesses ignore the user and write bits,
  as CR0.WP is clear). Every access of the kernel through a pointer goes through
  \<open>translate\<close>, so a write to an unmapped address is a page fault and a write to a page
  table changes what later accesses see. memset and memcpy of src/src/string.c are the
  byte loops over these accesses.
\<close>

section \<open>Physical memory and address translation\<close>

record machine =
  phys :: mem
  cr0 :: u32
  cr3 :: u32

definition pd_index :: "u32 \<Rightarrow> u32" where
  "pd_index va = drop_bit 22 va"

definition pt_index :: "u32 \<Rightarrow> u32" where
  "pt_index va = drop_bit 12 va AND 0x3FF"

definition page_base :: "u32 \<Rightarrow> u32" where
  "page_base a = a AND 0xFFFFF000"

text \<open>The address of entry \<open>i\<close> of the table in the page of \<open>base\<close>.\<close>

definition entry_addr :: "u32 \<Rightarrow> u32 \<Rightarrow> u32" where
  "entry_addr base i = page_base base + 4 * i"

definition paging_on :: "machine \<Rightarrow> bool" where
  "paging_on m \<longleftrightarrow> cr0 m AND 0x80000000 \<noteq> 0"

definition page_walk :: "mem \<Rightarrow> u32 \<Rightarrow> u32 \<Rightarrow> u32 option" where
  "page_walk p root va =
     (let pde = get32 p (entry_addr root (pd_index va))
      in if pde AND 1 = 0 then None
         else let pte = get32 p (entry_addr pde (pt_index va))
              in if pte AND 1 = 0 then None else Some (page_base pte OR (va AND 0xFFF)))"

definition translate :: "machine \<Rightarrow> u32 \<Rightarrow> u32 res" where
  "translate m va =
     (if paging_on m then
        (case page_walk (phys m) (cr3 m) va of None \<Rightarrow> Inl (PageFault va) | Some pa \<Rightarrow> Inr pa)
      else Inr va)"

section \<open>Accesses through a pointer\<close>

definition ld8 :: "machine \<Rightarrow> u32 \<Rightarrow> u8 res" where
  "ld8 m va = bindE (translate m va) (\<lambda>pa. Inr (phys m pa))"

definition st8 :: "machine \<Rightarrow> u32 \<Rightarrow> u8 \<Rightarrow> machine res" where
  "st8 m va v = bindE (translate m va) (\<lambda>pa. Inr (m\<lparr>phys := (phys m)(pa := v)\<rparr>))"

definition ld32 :: "machine \<Rightarrow> u32 \<Rightarrow> u32 res" where
  "ld32 m va =
     bindE (ld8 m va) (\<lambda>b0. bindE (ld8 m (va + 1)) (\<lambda>b1.
     bindE (ld8 m (va + 2)) (\<lambda>b2. bindE (ld8 m (va + 3)) (\<lambda>b3. Inr (le32 b0 b1 b2 b3)))))"

text \<open>A 32-bit store at an aligned address: its four bytes are in one page.\<close>

definition st32 :: "machine \<Rightarrow> u32 \<Rightarrow> u32 \<Rightarrow> machine res" where
  "st32 m va v = bindE (translate m va) (\<lambda>pa. Inr (m\<lparr>phys := put32 (phys m) pa v\<rparr>))"

fun memset_loop :: "nat \<Rightarrow> machine \<Rightarrow> u32 \<Rightarrow> u8 \<Rightarrow> machine res" where
  "memset_loop 0 m p val = Inr m"
| "memset_loop (Suc n) m p val = bindE (st8 m p val) (\<lambda>m. memset_loop n m (p + 1) val)"

definition memset :: "machine \<Rightarrow> u32 \<Rightarrow> u8 \<Rightarrow> u32 \<Rightarrow> machine res" where
  "memset m dest val n = memset_loop (unat n) m dest val"

fun memcpy_loop :: "nat \<Rightarrow> machine \<Rightarrow> u32 \<Rightarrow> u32 \<Rightarrow> machine res" where
  "memcpy_loop 0 m d s = Inr m"
| "memcpy_loop (Suc n) m d s =
     bindE (ld8 m s) (\<lambda>b. bindE (st8 m d b) (\<lambda>m. memcpy_loop n m (d + 1) (s + 1)))"

definition memcpy :: "machine \<Rightarrow> u32 \<Rightarrow> u32 \<Rightarrow> u32 \<Rightarrow> machine res" where
  "memcpy m dest src n = memcpy_loop (unat n) m dest src"

section \<open>Pages and frames\<close>

definition frame :: "u32 \<Rightarrow> u32" where
  "frame a = drop_bit 12 a"

lemma frame_nat: "unat (frame a) = unat a div 4096"
  by (simp add: frame_def drop_bit_eq_div unat_div)

lemma frame_bound [geometry]: "unat (frame a) < 1048576"
  using u32_bound[of a] by (simp add: frame_nat less_mult_imp_div_less)

lemma page_mask_nat: "unat (a AND 0xFFF :: u32) = unat a mod 4096"
proof -
  have "a AND 0xFFF = take_bit 12 a"
    by (simp add: take_bit_eq_mask mask_eq_exp_minus_1)
  then show ?thesis
    by (simp add: unsigned_take_bit_eq take_bit_eq_mod unat_mod)
qed

lemma page_base_bits: "page_base a = push_bit 12 (frame a)"
proof (rule bit_word_eqI)
  fix n :: nat
  assume "n < LENGTH(32)"
  have m: "(0xFFFFF000 :: u32) = NOT (mask 12)" by (simp add: mask_eq_exp_minus_1)
  show "bit (page_base a) n = bit (push_bit 12 (frame a)) n"
    using \<open>n < LENGTH(32)\<close> unfolding page_base_def m frame_def by (auto simp: bit_simps)
qed

lemma page_base_nat: "unat (page_base a) = unat a div 4096 * 4096"
proof -
  have "unat (page_base a) = unat (frame a) * 4096 mod 2 ^ 32"
    by (simp add: page_base_bits push_bit_eq_mult unat_word_ariths mult.commute)
  moreover have "unat a div 4096 * 4096 < 4294967296"
    using u32_bound[of a] by linarith
  ultimately show ?thesis
    by (simp add: frame_nat)
qed

lemma pd_index_nat: "unat (pd_index va) = unat va div 4096 div 1024"
  by (simp add: pd_index_def drop_bit_eq_div unat_div div_mult2_eq[symmetric])

lemma pt_index_nat: "unat (pt_index va) = unat va div 4096 mod 1024"
proof -
  have "drop_bit 12 va AND 0x3FF = take_bit 10 (drop_bit 12 va)"
    by (simp add: take_bit_eq_mask mask_eq_exp_minus_1)
  then show ?thesis
    by (simp add: pt_index_def unsigned_take_bit_eq take_bit_eq_mod drop_bit_eq_div unat_div unat_mod)
qed

lemma pd_index_bound [geometry]: "unat (pd_index va) < 1024"
  using u32_bound[of va] by (simp add: pd_index_nat)

lemma pt_index_bound [geometry]: "unat (pt_index va) < 1024"
  by (simp add: pt_index_nat)

lemma page_base_or: "page_base x OR (y AND 0xFFF) = page_base x + (y AND 0xFFF)"
proof -
  have m: "(0xFFF :: u32) = mask 12" by (simp add: mask_eq_exp_minus_1)
  show ?thesis
    unfolding m page_base_bits
    by (rule disjunctive_add_eq_or [symmetric], rule bit_word_eqI) (auto simp: bit_simps)
qed

lemma unat_add_small: "unat x + unat y < 4294967296 \<Longrightarrow> unat (x + y :: u32) = unat x + unat y"
  by (simp add: unat_word_ariths)

lemma page_addr_nat: "unat (page_base x + (y AND 0xFFF)) = unat x div 4096 * 4096 + unat y mod 4096"
proof -
  have "unat x div 4096 * 4096 + unat y mod 4096 < 4294967296"
    using frame_bound[of x] mod_less_divisor[of 4096 "unat y"] by (simp add: frame_nat)
  then show ?thesis
    by (simp add: unat_add_small page_base_nat page_mask_nat)
qed

lemma page_split: "page_base a + (a AND 0xFFF) = a"
  by (simp add: word_unat_eq_iff page_addr_nat)

lemma page_base_idem [simp]: "page_base (page_base a) = page_base a"
  by (simp add: word_unat_eq_iff page_base_nat)

lemma frame_page_base [simp]: "frame (page_base a) = frame a"
  by (simp add: word_unat_eq_iff page_base_nat frame_nat)

lemma page_base_eq_iff: "page_base a = page_base b \<longleftrightarrow> frame a = frame b"
  by (auto simp: word_unat_eq_iff page_base_nat frame_nat)

lemma same_page_iff: "frame a = frame b \<longleftrightarrow> pd_index a = pd_index b \<and> pt_index a = pt_index b"
  unfolding word_unat_eq_iff pd_index_nat pt_index_nat frame_nat
  by (metis div_mult_mod_eq)

lemma entry_addr_nat:
  assumes "unat i < 1024"
  shows "unat (entry_addr base i) = unat base div 4096 * 4096 + 4 * unat i"
proof -
  have four: "unat (4 * i) = 4 * unat i"
    using assms by (simp add: unat_word_ariths)
  moreover have "unat base div 4096 * 4096 + 4 * unat i < 4294967296"
    using frame_bound[of base] assms by (simp add: frame_nat)
  ultimately show ?thesis
    by (simp add: entry_addr_def unat_add_small page_base_nat)
qed

lemma entry_addr_props:
  assumes "unat i < 1024"
  shows "aligned4 (entry_addr base i)" "frame (entry_addr base i) = frame base"
  using assms by (simp_all add: aligned4_def entry_addr_nat word_unat_eq_iff frame_nat)

lemma entry_addr_inj:
  assumes "unat i < 1024" "unat j < 1024"
  shows "entry_addr a i = entry_addr b j \<longleftrightarrow> frame a = frame b \<and> i = j"
proof
  assume "entry_addr a i = entry_addr b j"
  then have "unat a div 4096 * 4096 + 4 * unat i = unat b div 4096 * 4096 + 4 * unat j"
    using entry_addr_nat[OF assms(1), of a] entry_addr_nat[OF assms(2), of b] by simp
  from arg_cong[OF this, where f = "\<lambda>x. x div 4096"] arg_cong[OF this, where f = "\<lambda>x. x mod 4096"]
  have "unat a div 4096 = unat b div 4096 \<and> unat i = unat j"
    using assms by simp
  then show "frame a = frame b \<and> i = j"
    by (simp add: word_unat_eq_iff frame_nat)
next
  assume "frame a = frame b \<and> i = j"
  then show "entry_addr a i = entry_addr b j"
    by (simp add: entry_addr_def page_base_eq_iff)
qed

lemma frame_add_small:
  assumes "aligned4 va" "k < 4"
  shows "frame (va + of_nat k) = frame va" "(va + of_nat k) AND 0xFFF = (va AND 0xFFF) + of_nat k"
proof -
  have n: "unat (va + of_nat k) = unat va + k"
    by (rule aligned4_unat_add[OF assms])
  obtain w where w: "unat va = 4 * w"
    using assms(1) by (auto simp: aligned4_def)
  have quot: "(4 * w + k) div 4096 = w div 1024"
    using assms(2) div_mult2_eq[of "4 * w + k" 4 1024] by simp
  show "frame (va + of_nat k) = frame va"
    using quot div_mult2_eq[of "4 * w" 4 1024] by (simp add: word_unat_eq_iff frame_nat n w)
  have "(unat va + k) mod 4096 = unat va mod 4096 + k"
    using assms(2) mod_mult2_eq[of "4 * w + k" 4 1024] mod_mult2_eq[of "4 * w" 4 1024] by (simp add: w)
  moreover have "unat (of_nat k :: u32) = k"
    using assms(2) by (simp add: unat_of_nat)
  ultimately show "(va + of_nat k) AND 0xFFF = (va AND 0xFFF) + of_nat k"
    unfolding word_unat_eq_iff
    using assms(2) by (simp add: page_mask_nat n unat_add_small)
qed

section \<open>What an access sees\<close>

lemma frame_addr [simp]: "frame (page_base x + (y AND 0xFFF)) = frame x"
  by (simp add: word_unat_eq_iff frame_nat page_addr_nat)

lemma page_base_addr [simp]: "page_base (page_base x + (y AND 0xFFF)) = page_base x"
  using frame_addr[of x y] page_base_eq_iff by blast

lemma offset_addr [simp]: "(page_base x + (y AND 0xFFF)) AND 0xFFF = y AND 0xFFF"
  by (simp add: word_unat_eq_iff page_mask_nat page_addr_nat)

lemma page_walk_Some:
  "page_walk p root va = Some pa \<longleftrightarrow>
     (let pde = get32 p (entry_addr root (pd_index va)); pte = get32 p (entry_addr pde (pt_index va))
      in pde AND 1 \<noteq> 0 \<and> pte AND 1 \<noteq> 0 \<and> pa = page_base pte + (va AND 0xFFF))"
  by (auto simp: page_walk_def Let_def page_base_or)

lemma translate_Inr:
  "translate m va = Inr pa \<longleftrightarrow>
     (if paging_on m then page_walk (phys m) (cr3 m) va = Some pa else pa = va)"
  by (auto simp: translate_def split: option.splits)

lemma translate_offset: "translate m va = Inr pa \<Longrightarrow> pa AND 0xFFF = va AND 0xFFF"
  by (auto simp: translate_Inr page_walk_Some Let_def split: if_splits)

lemma translate_same_page:
  assumes "translate m va = Inr pa" "frame va' = frame va"
  shows "translate m va' = Inr (page_base pa + (va' AND 0xFFF))"
proof (cases "paging_on m")
  case True
  then show ?thesis
    using assms by (auto simp: translate_Inr page_walk_Some Let_def same_page_iff)
next
  case False
  then have "pa = va" "page_base va = page_base va'"
    using assms by (auto simp: translate_Inr page_base_eq_iff)
  then show ?thesis
    using False by (simp add: translate_Inr page_split)
qed

lemma translate_aligned:
  assumes "translate m va = Inr pa" "aligned4 va" "k < 4"
  shows "translate m (va + of_nat k) = Inr (pa + of_nat k)"
proof -
  have "translate m (va + of_nat k) = Inr (page_base pa + ((va AND 0xFFF) + of_nat k))"
    using translate_same_page[OF assms(1) frame_add_small(1)[OF assms(2,3)]]
      frame_add_small(2)[OF assms(2,3)] by simp
  moreover have "page_base pa + (va AND 0xFFF) = pa"
    using translate_offset[OF assms(1)] page_split[of pa] by simp
  ultimately show ?thesis by (simp add: add.assoc[symmetric])
qed

lemma ld32_aligned:
  assumes "translate m va = Inr pa" "aligned4 va"
  shows "ld32 m va = Inr (get32 (phys m) pa)"
  using translate_aligned[OF assms, of 1] translate_aligned[OF assms, of 2] translate_aligned[OF assms, of 3]
  by (simp add: ld32_def ld8_def assms(1) get32_def)

lemma st32_ok: "translate m va = Inr pa \<Longrightarrow> st32 m va v = Inr (m\<lparr>phys := put32 (phys m) pa v\<rparr>)"
  by (simp add: st32_def)

section \<open>Frames that hold page tables\<close>

definition table_frames :: "mem \<Rightarrow> u32 \<Rightarrow> u32 set" where
  "table_frames p root = insert (frame root)
     {frame (get32 p (entry_addr root i)) | i. unat i < 1024 \<and> get32 p (entry_addr root i) AND 1 \<noteq> 0}"

lemma get32_frame_cong:
  assumes "aligned4 a" "\<And>x. frame x = frame a \<Longrightarrow> p' x = p x"
  shows "get32 p' a = get32 p a"
proof -
  have "p' (a + of_nat k) = p (a + of_nat k)" if "k < 4" for k
    using assms(2) frame_add_small(1)[OF assms(1) that] by blast
  from this[of 0] this[of 1] this[of 2] this[of 3] show ?thesis
    by (simp add: get32_def)
qed

lemma page_walk_frames:
  assumes "\<And>x. frame x \<in> table_frames p root \<Longrightarrow> p' x = p x"
  shows "page_walk p' root va = page_walk p root va"
proof -
  let ?e = "entry_addr root (pd_index va)"
  have root: "get32 p' ?e = get32 p ?e"
    using assms entry_addr_props[OF pd_index_bound]
    by (intro get32_frame_cong) (auto simp: table_frames_def)
  show ?thesis
  proof (cases "get32 p ?e AND 1 = 0")
    case True
    then show ?thesis by (simp add: page_walk_def root)
  next
    case False
    then have "frame (get32 p ?e) \<in> table_frames p root"
      using pd_index_bound by (auto simp: table_frames_def)
    then have "get32 p' (entry_addr (get32 p ?e) (pt_index va)) = get32 p (entry_addr (get32 p ?e) (pt_index va))"
      using assms entry_addr_props[OF pt_index_bound] by (intro get32_frame_cong) auto
    then show ?thesis by (simp add: page_walk_def root Let_def)
  qed
qed

lemma table_frames_cong:
  assumes "\<And>x. frame x = frame root \<Longrightarrow> p' x = p x"
  shows "table_frames p' root = table_frames p root"
proof -
  have "get32 p' (entry_addr root i) = get32 p (entry_addr root i)" if "unat i < 1024" for i
    using assms entry_addr_props[OF that] by (intro get32_frame_cong) auto
  then show ?thesis by (auto simp: table_frames_def) (metis)+
qed

text \<open>A data access: mapped, and not to a frame that holds a page table.\<close>

definition data_at :: "machine \<Rightarrow> u32 \<Rightarrow> bool" where
  "data_at m va \<longleftrightarrow> (\<exists>pa. translate m va = Inr pa \<and> (paging_on m \<longrightarrow> frame pa \<notin> table_frames (phys m) (cr3 m)))"

definition same_tables :: "machine \<Rightarrow> machine \<Rightarrow> bool" where
  "same_tables m m' \<longleftrightarrow> cr0 m' = cr0 m \<and> cr3 m' = cr3 m \<and>
     (paging_on m \<longrightarrow> (\<forall>x. frame x \<in> table_frames (phys m) (cr3 m) \<longrightarrow> phys m' x = phys m x))"

lemma same_tables_refl [simp]: "same_tables m m"
  by (simp add: same_tables_def)

lemma same_tables_paging_on: "same_tables m m' \<Longrightarrow> paging_on m' = paging_on m"
  by (simp add: same_tables_def paging_on_def)

lemma same_tables_frames:
  "same_tables m m' \<Longrightarrow> paging_on m \<Longrightarrow> table_frames (phys m') (cr3 m') = table_frames (phys m) (cr3 m)"
proof -
  assume st: "same_tables m m'" "paging_on m"
  have "table_frames (phys m') (cr3 m) = table_frames (phys m) (cr3 m)"
    by (rule table_frames_cong) (use st in \<open>auto simp: same_tables_def table_frames_def\<close>)
  then show ?thesis using st by (simp add: same_tables_def)
qed

lemma same_tables_translate: "same_tables m m' \<Longrightarrow> translate m' va = translate m va"
proof -
  assume st: "same_tables m m'"
  have "page_walk (phys m') (cr3 m) va = page_walk (phys m) (cr3 m) va" if "paging_on m"
    by (rule page_walk_frames) (use st that in \<open>auto simp: same_tables_def\<close>)
  then show ?thesis
    using st same_tables_paging_on[OF st] by (simp add: translate_def same_tables_def)
qed

lemma same_tables_trans:
  assumes "same_tables m m1" "same_tables m1 m2"
  shows "same_tables m m2"
  using assms same_tables_frames[OF assms(1)] same_tables_paging_on[OF assms(1)]
  unfolding same_tables_def by simp

lemma same_tables_data_at: "same_tables m m' \<Longrightarrow> data_at m' va = data_at m va"
  using same_tables_translate same_tables_frames same_tables_paging_on by (auto simp: data_at_def)

lemma st8_data:
  assumes "data_at m va"
  obtains pa where "translate m va = Inr pa" "st8 m va v = Inr (m\<lparr>phys := (phys m)(pa := v)\<rparr>)"
    "same_tables m (m\<lparr>phys := (phys m)(pa := v)\<rparr>)"
proof -
  obtain pa where "translate m va = Inr pa" "paging_on m \<longrightarrow> frame pa \<notin> table_frames (phys m) (cr3 m)"
    using assms by (auto simp: data_at_def)
  then show ?thesis
    by (intro that[of pa]) (auto simp: st8_def same_tables_def)
qed

section \<open>Block writes\<close>

lemma memset_loop_ok:
  assumes "\<And>i. i < n \<Longrightarrow> data_at m (p + of_nat i)"
  shows "\<exists>m'. memset_loop n m p v = Inr m' \<and> same_tables m m' \<and>
    (\<forall>a. phys m' a = (if \<exists>i<n. translate m (p + of_nat i) = Inr a then v else phys m a))"
  using assms
proof (induction n arbitrary: m p)
  case 0
  then show ?case by simp
next
  case (Suc n)
  have "data_at m p" using Suc.prems[of 0] by simp
  then obtain pa where pa: "translate m p = Inr pa"
    and st: "st8 m p v = Inr (m\<lparr>phys := (phys m)(pa := v)\<rparr>)"
    and tb: "same_tables m (m\<lparr>phys := (phys m)(pa := v)\<rparr>)"
    by (rule st8_data)
  let ?m1 = "m\<lparr>phys := (phys m)(pa := v)\<rparr>"
  have "data_at ?m1 (p + 1 + of_nat i)" if "i < n" for i
    using Suc.prems[of "Suc i"] that same_tables_data_at[OF tb] by (simp add: add.assoc)
  then obtain m' where m': "memset_loop n ?m1 (p + 1) v = Inr m'" "same_tables ?m1 m'"
    "\<forall>a. phys m' a = (if \<exists>i<n. translate ?m1 (p + 1 + of_nat i) = Inr a then v else phys ?m1 a)"
    using Suc.IH[of ?m1 "p + 1"] by blast
  have split: "(\<exists>i<Suc n. translate m (p + of_nat i) = Inr a) \<longleftrightarrow>
      translate m p = Inr a \<or> (\<exists>i<n. translate m (p + 1 + of_nat i) = Inr a)" for a
    by (auto simp: less_Suc_eq_0_disj add.assoc)
  show ?case
  proof (intro exI conjI allI)
    show "memset_loop (Suc n) m p v = Inr m'"
      using st m'(1) by simp
    show "same_tables m m'"
      using tb m'(2) by (rule same_tables_trans)
    show "phys m' a = (if \<exists>i<Suc n. translate m (p + of_nat i) = Inr a then v else phys m a)" for a
      using m'(3) pa unfolding split same_tables_translate[OF tb] by auto
  qed
qed

end
