(* ===== verification/CString.thy ===== *)
theory CString
  imports Prelude
begin

text \<open>
  The freestanding string routines of src/src/string.c. A \<open>char*\<close> argument is the
  list of the bytes found from the pointer on; the end of the list stands for the
  terminating NUL, so a list may hold a string with or without its NUL. The two block
  routines memset and memcpy work on machine memory and are in the theory Machine.
\<close>

definition cur :: "u8 list \<Rightarrow> u8" where
  "cur s = (case s of [] \<Rightarrow> 0 | c # _ \<Rightarrow> c)"

lemma cur_simps [simp]: "cur [] = 0" "cur (c # cs) = c"
  by (simp_all add: cur_def)

lemma cur_nonzero: "cur s \<noteq> 0 \<longleftrightarrow> (\<exists>c cs. s = c # cs \<and> c \<noteq> 0)"
  by (cases s) auto

function strcmp :: "u8 list \<Rightarrow> u8 list \<Rightarrow> int" where
  "strcmp s1 s2 =
     (if cur s1 \<noteq> 0 \<and> cur s1 = cur s2 then strcmp (tl s1) (tl s2)
      else uint (cur s1) - uint (cur s2))"
  by pat_completeness auto
termination
  by (relation "measure (\<lambda>(s1, s2). length s1)") (auto simp: cur_nonzero)

function strncmp :: "u8 list \<Rightarrow> u8 list \<Rightarrow> int \<Rightarrow> int" where
  "strncmp s1 s2 n =
     (if n > 0 \<and> cur s1 \<noteq> 0 \<and> cur s1 = cur s2 then strncmp (tl s1) (tl s2) (n - 1)
      else if n = 0 then 0
      else uint (cur s1) - uint (cur s2))"
  by pat_completeness auto
termination
  by (relation "measure (\<lambda>(s1, s2, n). length s1)") (auto simp: cur_nonzero)

function strlen_from :: "u8 list \<Rightarrow> int \<Rightarrow> int" where
  "strlen_from s len = (if cur s \<noteq> 0 then strlen_from (tl s) (len + 1) else len)"
  by pat_completeness auto
termination
  by (relation "measure (\<lambda>(s, len). length s)") (auto simp: cur_nonzero)

definition strlen :: "u8 list \<Rightarrow> int" where
  "strlen s = strlen_from s 0"

declare strcmp.simps [simp del] strncmp.simps [simp del] strlen_from.simps [simp del]

section \<open>What the comparisons decide\<close>

lemma cstr_simps [simp]:
  "cstr [] = []"
  "cstr (c # cs) = (if c = 0 then [] else c # cstr cs)"
  by (simp_all add: cstr_def)

lemma cstr_cur: "cstr s = (if cur s \<noteq> 0 then cur s # cstr (tl s) else [])"
  by (cases s) auto

lemma uint_same_iff [simp]: "uint (a :: u8) = uint b \<longleftrightarrow> a = b"
  by (simp add: word_uint_eq_iff)

lemma uint_zero_iff [simp]: "uint (a :: u8) = 0 \<longleftrightarrow> a = 0"
  by (simp add: word_uint_eq_iff)

lemma strcmp_zero_cstr: "strcmp s1 s2 = 0 \<longleftrightarrow> cstr s1 = cstr s2"
proof (induction s1 s2 rule: strcmp.induct)
  case (1 s1 s2)
  show ?case
  proof (cases "cur s1 \<noteq> 0 \<and> cur s1 = cur s2")
    case True
    then show ?thesis
      using "1.IH" by (subst strcmp.simps) (simp add: cstr_cur[of s1] cstr_cur[of s2])
  next
    case False
    then show ?thesis
      by (subst strcmp.simps) (auto simp: cstr_cur[of s1] cstr_cur[of s2])
  qed
qed

lemma strcmp_neg_lexord:
  "strcmp s1 s2 < 0 \<longleftrightarrow> (cstr s1, cstr s2) \<in> lexord {(x, y). x < y}"
proof (induction s1 s2 rule: strcmp.induct)
  case (1 s1 s2)
  show ?case
  proof (cases "cur s1 \<noteq> 0 \<and> cur s1 = cur s2")
    case True
    then show ?thesis
      using "1.IH" by (subst strcmp.simps) (simp add: cstr_cur[of s1] cstr_cur[of s2])
  next
    case False
    then show ?thesis
      by (subst strcmp.simps)
        (auto simp: cstr_cur[of s1] cstr_cur[of s2] word_less_def order_less_le)
  qed
qed

lemma strncmp_zero_take:
  "0 \<le> n \<Longrightarrow> strncmp s1 s2 n = 0 \<longleftrightarrow> take (nat n) (cstr s1) = take (nat n) (cstr s2)"
proof (induction s1 s2 n rule: strncmp.induct)
  case (1 s1 s2 n)
  consider "n = 0" | "n > 0" "cur s1 \<noteq> 0 \<and> cur s1 = cur s2" | "n > 0" "\<not> (cur s1 \<noteq> 0 \<and> cur s1 = cur s2)"
    using "1.prems" by linarith
  then show ?case
  proof cases
    case 1
    then show ?thesis by (simp add: strncmp.simps)
  next
    case 2
    then obtain k where "nat n = Suc k" "nat (n - 1) = k"
      by (auto intro!: that[of "nat (n - 1)"])
    then show ?thesis
      using 2 "1.IH" by (subst strncmp.simps) (simp add: cstr_cur[of s1] cstr_cur[of s2])
  next
    case 3
    then obtain k where "nat n = Suc k"
      by (metis gr0_implies_Suc zero_less_nat_eq)
    then show ?thesis
      using 3 by (subst strncmp.simps) (auto simp: cstr_cur[of s1] cstr_cur[of s2])
  qed
qed

lemma strlen_from_length: "strlen_from s len = len + int (length (cstr s))"
proof (induction s len rule: strlen_from.induct)
  case (1 s len)
  then show ?case
    by (subst strlen_from.simps) (simp add: cstr_cur[of s])
qed

section \<open>Properties\<close>

text \<open>
  Strcmp answers 0 exactly for equal strings (up to the first NUL), and a negative
  number exactly when the first string comes before the second in the order of unsigned
  bytes.
\<close>

theorem strcmp_orders:
  "(strcmp s1 s2 = 0 \<longleftrightarrow> cstr s1 = cstr s2) \<and>
   (strcmp s1 s2 < 0 \<longleftrightarrow> (cstr s1, cstr s2) \<in> lexord {(x, y). x < y})"
  by (simp add: strcmp_zero_cstr strcmp_neg_lexord)

end
