(* ===== verification/Screen.thy ===== *)
theory Screen
  imports CString
begin

text \<open>
  The console of src/src/screen.c: VGA text memory, the software cursor, the mirrored
  debug and serial output and the hardware cursor registers. \<open>video\<close> is the memory seen
  through \<open>video_memory\<close>, indexed by the C index (any \<open>int\<close>), so a write past the 4000
  bytes of the text page is visible in the model. The console is then refined to a
  terminal of 25 rows of 80 cells.
\<close>

section \<open>State and operations\<close>

record screen =
  video :: "int \<Rightarrow> u8"
  cursor_row :: int
  cursor_col :: int
  serial :: "u8 list"
  crtc :: "u8 \<Rightarrow> u8"

definition MAX_ROWS :: int where "MAX_ROWS = 25"
definition MAX_COLS :: int where "MAX_COLS = 80"

definition debug_putc :: "screen \<Rightarrow> u8 \<Rightarrow> screen" where
  "debug_putc s c = s\<lparr>serial := serial s @ [c]\<rparr>"

fun debug_print :: "screen \<Rightarrow> u8 list \<Rightarrow> screen" where
  "debug_print s [] = s"
| "debug_print s (c # cs) = (if c = 0 then s else debug_print (debug_putc s c) cs)"

definition put_cell :: "(int \<Rightarrow> u8) \<Rightarrow> int \<Rightarrow> u8 \<Rightarrow> u8 \<Rightarrow> (int \<Rightarrow> u8)" where
  "put_cell v off c attr = v(off := c, off + 1 := attr)"

definition clear_screen :: "screen \<Rightarrow> screen" where
  "clear_screen s =
     s\<lparr>video := fold (\<lambda>i v. put_cell v (int i * 2) 32 0x0F) [0..<2000] (video s),
       cursor_row := 0, cursor_col := 0\<rparr>"

fun print_at_loop :: "(int \<Rightarrow> u8) \<Rightarrow> int \<Rightarrow> u8 list \<Rightarrow> (int \<Rightarrow> u8)" where
  "print_at_loop v off [] = v"
| "print_at_loop v off (c # cs) = (if c = 0 then v else print_at_loop (put_cell v off c 0x6F) (off + 2) cs)"

definition print_at :: "screen \<Rightarrow> u8 list \<Rightarrow> int \<Rightarrow> int \<Rightarrow> screen" where
  "print_at s msg row col = s\<lparr>video := print_at_loop (video s) ((80 * row + col) * 2) msg\<rparr>"

definition scroll_row :: "(int \<Rightarrow> u8) \<Rightarrow> nat \<Rightarrow> nat \<Rightarrow> (int \<Rightarrow> u8)" where
  "scroll_row v row cols =
     fold (\<lambda>col v. put_cell v (((int row - 1) * 80 + int col) * 2)
              (v ((int row * 80 + int col) * 2)) (v ((int row * 80 + int col) * 2 + 1)))
       [0..<cols] v"

definition scroll_screen :: "screen \<Rightarrow> screen" where
  "scroll_screen s =
     (let v1 = fold (\<lambda>row v. scroll_row v row 80) [1..<25] (video s);
          v2 = fold (\<lambda>col v. put_cell v (((MAX_ROWS - 1) * MAX_COLS + int col) * 2) 32 0x0F) [0..<80] v1
      in s\<lparr>video := v2, cursor_row := MAX_ROWS - 1\<rparr>)"

definition update_cursor :: "screen \<Rightarrow> screen" where
  "update_cursor s =
     (let pos = (word_of_int (cursor_row s * MAX_COLS + cursor_col s) :: u16)
      in s\<lparr>crtc := (crtc s)(0x0F := ucast (pos AND 0xFF), 0x0E := ucast (drop_bit 8 pos AND 0xFF))\<rparr>)"

definition enable_cursor :: "screen \<Rightarrow> u8 \<Rightarrow> u8 \<Rightarrow> screen" where
  "enable_cursor s cursor_start cursor_end =
     (let c1 = (crtc s)(0x0A := (crtc s 0x0A AND 0xC0) OR cursor_start)
      in s\<lparr>crtc := c1(0x0B := (c1 0x0B AND 0xE0) OR cursor_end)\<rparr>)"

definition print_char :: "screen \<Rightarrow> u8 \<Rightarrow> screen" where
  "print_char s c =
     (let s1 =
        (if c = 10 then (debug_putc s 10)\<lparr>cursor_row := cursor_row s + 1, cursor_col := 0\<rparr>
         else if c = 8 then
           (if cursor_col s > 0 then s\<lparr>cursor_col := cursor_col s - 1\<rparr>
            else if cursor_row s > 0 then s\<lparr>cursor_row := cursor_row s - 1, cursor_col := 79\<rparr>
            else s)
         else
           (let off = (cursor_row s * 80 + cursor_col s) * 2;
                s2 = debug_putc (s\<lparr>video := put_cell (video s) off c 0x6F\<rparr>) c
            in if cursor_col s + 1 \<ge> 80
               then s2\<lparr>cursor_col := 0, cursor_row := cursor_row s + 1\<rparr>
               else s2\<lparr>cursor_col := cursor_col s + 1\<rparr>))
      in if cursor_row s1 \<ge> MAX_ROWS then scroll_screen s1 else s1)"

fun print_loop :: "screen \<Rightarrow> u8 list \<Rightarrow> screen" where
  "print_loop s [] = s"
| "print_loop s (c # cs) = (if c = 0 then s else print_loop (print_char s c) cs)"

definition print :: "screen \<Rightarrow> u8 list \<Rightarrow> screen" where
  "print s msg = update_cursor (print_loop s msg)"

definition print_colored_char :: "screen \<Rightarrow> u8 \<Rightarrow> u8 \<Rightarrow> screen" where
  "print_colored_char s color c =
     (let s1 =
        (if c = 10 then s\<lparr>cursor_row := cursor_row s + 1, cursor_col := 0\<rparr>
         else
           (let off = (cursor_row s * 80 + cursor_col s) * 2;
                s2 = s\<lparr>video := put_cell (video s) off c color\<rparr>
            in if cursor_col s + 1 \<ge> MAX_COLS
               then s2\<lparr>cursor_col := 0, cursor_row := cursor_row s + 1\<rparr>
               else s2\<lparr>cursor_col := cursor_col s + 1\<rparr>))
      in if cursor_row s1 \<ge> MAX_ROWS then scroll_screen s1 else s1)"

fun print_colored_loop :: "screen \<Rightarrow> u8 \<Rightarrow> u8 list \<Rightarrow> screen" where
  "print_colored_loop s color [] = s"
| "print_colored_loop s color (c # cs) =
     (if c = 0 then s else print_colored_loop (print_colored_char s color c) color cs)"

definition print_colored :: "screen \<Rightarrow> u8 list \<Rightarrow> u8 \<Rightarrow> screen" where
  "print_colored s message color = update_cursor (print_colored_loop s color message)"

text \<open>
  The digit loop of print_int: \<open>num\<close> is a C \<open>int\<close>, the buffer holds the least significant
  digit first. The negation wraps, as the compiled code does: \<open>-INT_MIN\<close> is \<open>INT_MIN\<close>.
\<close>

function int_digits :: "int \<Rightarrow> u8 list" where
  "int_digits num = (if num > 0 then word_of_int (num mod 10 + 48) # int_digits (num div 10) else [])"
  by pat_completeness auto
termination
  by (relation "measure nat") auto

declare int_digits.simps [simp del]

definition c_int :: "int \<Rightarrow> int" where
  "c_int x = (x + 2 ^ 31) mod 2 ^ 32 - 2 ^ 31"

definition print_int :: "screen \<Rightarrow> int \<Rightarrow> screen" where
  "print_int s num =
     (if num = 0 then print s (bytes ''0'')
      else
        (let s1 = (if num < 0 then print s (bytes ''-'') else s);
             n1 = (if num < 0 then c_int (- num) else num)
         in fold (\<lambda>d s. print s [d, 0]) (rev (int_digits n1)) s1))"

definition hex_chars :: "u8 list" where
  "hex_chars = bytes ''0123456789ABCDEF''"

definition hex_digit :: "u32 \<Rightarrow> nat \<Rightarrow> u8" where
  "hex_digit num i = hex_chars ! unat (drop_bit i num AND 0xF)"

definition print_hex :: "screen \<Rightarrow> u32 \<Rightarrow> screen" where
  "print_hex s num =
     fold (\<lambda>i s. print s [hex_digit num i, 0]) [28, 24, 20, 16, 12, 8, 4, 0] (print s (bytes ''0X''))"

definition print_uint :: "screen \<Rightarrow> u32 \<Rightarrow> screen" where
  "print_uint s w = print_int s (sint w)"

section \<open>The invariant of the cursor\<close>

definition screen_ok :: "screen \<Rightarrow> bool" where
  "screen_ok s \<longleftrightarrow> 0 \<le> cursor_row s \<and> cursor_row s < 25 \<and> 0 \<le> cursor_col s \<and> cursor_col s < 80"

lemmas screen_consts = MAX_ROWS_def MAX_COLS_def

lemma debug_putc_simps [simp]:
  "video (debug_putc s c) = video s" "cursor_row (debug_putc s c) = cursor_row s"
  "cursor_col (debug_putc s c) = cursor_col s" "serial (debug_putc s c) = serial s @ [c]"
  "crtc (debug_putc s c) = crtc s"
  by (simp_all add: debug_putc_def)

lemma scroll_screen_simps [simp]:
  "cursor_row (scroll_screen s) = 24" "cursor_col (scroll_screen s) = cursor_col s"
  "serial (scroll_screen s) = serial s" "crtc (scroll_screen s) = crtc s"
  by (simp_all add: scroll_screen_def Let_def screen_consts)

lemma update_cursor_simps [simp]:
  "cursor_row (update_cursor s) = cursor_row s" "cursor_col (update_cursor s) = cursor_col s"
  "serial (update_cursor s) = serial s" "video (update_cursor s) = video s"
  by (simp_all add: update_cursor_def Let_def)

lemma screen_ok_update_cursor [simp]: "screen_ok (update_cursor s) = screen_ok s"
  by (simp add: screen_ok_def)

lemma screen_ok_print_char: "screen_ok s \<Longrightarrow> screen_ok (print_char s c)"
  by (auto simp: screen_ok_def print_char_def Let_def screen_consts)

lemma screen_ok_print_loop: "screen_ok s \<Longrightarrow> screen_ok (print_loop s cs)"
  by (induction cs arbitrary: s) (auto simp: screen_ok_print_char)

lemma screen_ok_print [intro]: "screen_ok s \<Longrightarrow> screen_ok (print s msg)"
  by (simp add: print_def screen_ok_print_loop)

lemma screen_ok_print_colored_char: "screen_ok s \<Longrightarrow> screen_ok (print_colored_char s a c)"
  by (auto simp: screen_ok_def print_colored_char_def Let_def screen_consts)

lemma screen_ok_print_colored_loop: "screen_ok s \<Longrightarrow> screen_ok (print_colored_loop s a cs)"
  by (induction cs arbitrary: s) (auto simp: screen_ok_print_colored_char)

lemma screen_ok_print_colored [intro]: "screen_ok s \<Longrightarrow> screen_ok (print_colored s msg a)"
  by (simp add: print_colored_def screen_ok_print_colored_loop)

lemma screen_ok_fold_print: "screen_ok s \<Longrightarrow> screen_ok (fold (\<lambda>d s. print s (f d)) ds s)"
  by (induction ds arbitrary: s) auto

lemma screen_ok_print_int [intro]: "screen_ok s \<Longrightarrow> screen_ok (print_int s n)"
  by (auto simp: print_int_def Let_def intro!: screen_ok_fold_print)

lemma screen_ok_print_hex [intro]: "screen_ok s \<Longrightarrow> screen_ok (print_hex s n)"
  unfolding print_hex_def by (intro screen_ok_fold_print screen_ok_print)

section \<open>Scrolling moves every row up by one\<close>

lemma put_cell_apply: "put_cell v off c a o' = (if o' = off + 1 then a else if o' = off then c else v o')"
  by (simp add: put_cell_def)

lemma scroll_row_apply:
  "scroll_row v row n o' =
     (if (int row - 1) * 160 \<le> o' \<and> o' < (int row - 1) * 160 + 2 * int n then v (o' + 160) else v o')"
    if "n \<le> 80"
  using that
proof (induction n arbitrary: o')
  case 0
  then show ?case by (auto simp: scroll_row_def)
next
  case (Suc n)
  have step: "scroll_row v row (Suc n) =
      put_cell (scroll_row v row n) (((int row - 1) * 80 + int n) * 2)
        (scroll_row v row n ((int row * 80 + int n) * 2)) (scroll_row v row n ((int row * 80 + int n) * 2 + 1))"
    by (simp add: scroll_row_def)
  have src: "scroll_row v row n ((int row * 80 + int n) * 2) = v ((int row * 80 + int n) * 2)"
    "scroll_row v row n ((int row * 80 + int n) * 2 + 1) = v ((int row * 80 + int n) * 2 + 1)"
    using Suc by auto
  show ?case
    unfolding step put_cell_apply src using Suc
    by (auto simp: algebra_simps intro: arg_cong[where f = v])
qed

lemma scroll_rows_apply:
  "fold (\<lambda>row v. scroll_row v row 80) [1..<Suc n] v o' =
     (if 0 \<le> o' \<and> o' < 160 * int n then v (o' + 160) else v o')"
proof (induction n arbitrary: o')
  case 0
  then show ?case by auto
next
  case (Suc n)
  define w where "w = fold (\<lambda>row v. scroll_row v row 80) [1..<Suc n] v"
  have IH: "w x = (if 0 \<le> x \<and> x < 160 * int n then v (x + 160) else v x)" for x
    unfolding w_def by (rule Suc.IH)
  have step: "fold (\<lambda>row v. scroll_row v row 80) [1..<Suc (Suc n)] v o' = scroll_row w (Suc n) 80 o'"
    by (simp add: w_def)
  show ?case
    unfolding step by (auto simp: scroll_row_apply IH)
qed

lemma blank_row_apply:
  "fold (\<lambda>col v. put_cell v (base + int col * 2) 32 0x0F) [0..<n] v o' =
     (if base \<le> o' \<and> o' < base + 2 * int n then (if even (o' - base) then 32 else 0x0F) else v o')"
proof (induction n arbitrary: o')
  case 0
  then show ?case by auto
next
  case (Suc n)
  define w where "w = fold (\<lambda>col v. put_cell v (base + int col * 2) 32 0x0F) [0..<n] v"
  have IH: "w x = (if base \<le> x \<and> x < base + 2 * int n then (if even (x - base) then 32 else 0x0F) else v x)" for x
    unfolding w_def by (rule Suc.IH)
  have step: "fold (\<lambda>col v. put_cell v (base + int col * 2) 32 0x0F) [0..<Suc n] v o' =
      put_cell w (base + int n * 2) 32 0x0F o'"
    by (simp add: w_def)
  consider "o' = base + int n * 2" | "o' = base + int n * 2 + 1"
    | "o' < base + 2 * int n" | "base + 2 * int n + 2 \<le> o'"
    by linarith
  then show ?case
    unfolding step by cases (auto simp: put_cell_apply IH)
qed

lemma video_scroll_screen:
  "video (scroll_screen s) o' =
     (if 0 \<le> o' \<and> o' < 3840 then video s (o' + 160)
      else if 3840 \<le> o' \<and> o' < 4000 then (if even o' then 32 else 0x0F)
      else video s o')"
proof -
  have base: "((MAX_ROWS - 1) * MAX_COLS + int col) * 2 = 3840 + int col * 2" for col
    by (simp add: screen_consts)
  have rows: "fold (\<lambda>row v. scroll_row v row 80) [1..<25] (video s) o'' =
      (if 0 \<le> o'' \<and> o'' < 3840 then video s (o'' + 160) else video s o'')" for o''
    using scroll_rows_apply[of 24 "video s" o''] by simp
  show ?thesis
    unfolding scroll_screen_def Let_def base
    by (simp add: blank_row_apply rows del: upt_rec_numeral One_nat_def)
qed

lemma video_clear_screen:
  "video (clear_screen s) o' =
     (if 0 \<le> o' \<and> o' < 4000 then (if even o' then 32 else 0x0F) else video s o')"
  using blank_row_apply[of 0 2000 "video s" o'] by (simp add: clear_screen_def del: upt_rec_numeral)

section \<open>Refinement: a terminal of 25 rows of 80 cells\<close>

text \<open>
  The abstract console: a list of rows of (character, attribute) cells and a cursor. Its
  operations know nothing of byte offsets.
\<close>

type_synonym cell = "u8 \<times> u8"

record terminal =
  rows :: "cell list list"
  trow :: nat
  tcol :: nat

definition blank_row :: "cell list" where
  "blank_row = replicate 80 (32, 0x0F)"

definition term_scroll :: "cell list list \<Rightarrow> cell list list" where
  "term_scroll rs = tl rs @ [blank_row]"

definition term_newline :: "terminal \<Rightarrow> terminal" where
  "term_newline t = (if trow t + 1 < 25 then t\<lparr>trow := trow t + 1\<rparr> else t\<lparr>rows := term_scroll (rows t)\<rparr>)"

definition term_putc :: "u8 \<Rightarrow> terminal \<Rightarrow> terminal" where
  "term_putc c t =
     (if c = 10 then term_newline (t\<lparr>tcol := 0\<rparr>)
      else if c = 8 then
        (if tcol t > 0 then t\<lparr>tcol := tcol t - 1\<rparr>
         else if trow t > 0 then t\<lparr>trow := trow t - 1, tcol := 79\<rparr> else t)
      else
        (let t1 = t\<lparr>rows := (rows t)[trow t := (rows t ! trow t)[tcol t := (c, 0x6F)]]\<rparr>
         in if tcol t + 1 < 80 then t1\<lparr>tcol := tcol t + 1\<rparr> else term_newline (t1\<lparr>tcol := 0\<rparr>)))"

definition cell_at :: "(int \<Rightarrow> u8) \<Rightarrow> nat \<Rightarrow> nat \<Rightarrow> cell" where
  "cell_at v r c = (v ((int r * 80 + int c) * 2), v ((int r * 80 + int c) * 2 + 1))"

definition term_of :: "screen \<Rightarrow> terminal" where
  "term_of s = \<lparr>rows = map (\<lambda>r. map (cell_at (video s) r) [0..<80]) [0..<25],
     trow = nat (cursor_row s), tcol = nat (cursor_col s)\<rparr>"

lemma rows_eqI:
  assumes "length a = 25" "length b = 25" "\<And>r. r < 25 \<Longrightarrow> length (a ! r) = 80 \<and> length (b ! r) = 80"
    "\<And>r c. r < 25 \<Longrightarrow> c < 80 \<Longrightarrow> a ! r ! c = b ! r ! c"
  shows "a = b"
  using assms by (auto intro!: nth_equalityI)

lemma rows_term_of_nth [simp]:
  "length (rows (term_of s)) = 25"
  "r < 25 \<Longrightarrow> length (rows (term_of s) ! r) = 80"
  "r < 25 \<Longrightarrow> c < 80 \<Longrightarrow> rows (term_of s) ! r ! c = cell_at (video s) r c"
  by (simp_all add: term_of_def del: upt_rec_numeral)

lemma rows_scroll: "rows (term_of (scroll_screen s)) = term_scroll (rows (term_of s))"
proof (rule rows_eqI)
  fix r c :: nat
  assume r: "r < 25" and c: "c < 80"
  show "rows (term_of (scroll_screen s)) ! r ! c = term_scroll (rows (term_of s)) ! r ! c"
  proof (cases "r < 24")
    case True
    then have "term_scroll (rows (term_of s)) ! r = rows (term_of s) ! Suc r"
      by (simp add: term_scroll_def nth_append nth_tl)
    moreover have "(int r * 80 + int c) * 2 + 160 = (int (Suc r) * 80 + int c) * 2" by simp
    moreover have "(int r * 80 + int c) * 2 + 1 < 3840" using True c by simp
    ultimately show ?thesis
      using True r c by (simp add: cell_at_def video_scroll_screen add.commute add.left_commute)
  next
    case False
    then have "r = 24" using r by simp
    moreover have "term_scroll (rows (term_of s)) ! 24 = blank_row"
      by (simp add: term_scroll_def nth_append)
    ultimately show ?thesis
      using c by (simp add: cell_at_def video_scroll_screen blank_row_def)
  qed
qed (auto simp: term_scroll_def nth_append nth_tl blank_row_def)

lemma rows_put_cell:
  assumes "r < 25" "c < 80"
  shows "rows (term_of (s\<lparr>video := put_cell (video s) ((int r * 80 + int c) * 2) ch a\<rparr>)) =
    (rows (term_of s))[r := (rows (term_of s) ! r)[c := (ch, a)]]"
proof (rule rows_eqI)
  fix r' c' :: nat
  assume r': "r' < 25" and c': "c' < 80"
  have same: "int r' * 80 + int c' = int r * 80 + int c \<longleftrightarrow> r' = r \<and> c' = c"
  proof
    assume eq: "int r' * 80 + int c' = int r * 80 + int c"
    then have "r' = r"
      using c' assms(2) by (auto dest: arg_cong[where f = "\<lambda>x. x div 80"])
    with eq show "r' = r \<and> c' = c" by simp
  qed simp
  have odd: "(x * 2 = y * 2 + 1) = False" "(y * 2 + 1 = x * 2) = False" for x y :: int
    by presburger+
  have "cell_at (put_cell (video s) ((int r * 80 + int c) * 2) ch a) r' c' =
      (if r' = r \<and> c' = c then (ch, a) else cell_at (video s) r' c')"
    unfolding same[symmetric] by (simp add: cell_at_def put_cell_apply odd)
  then show "rows (term_of (s\<lparr>video := put_cell (video s) ((int r * 80 + int c) * 2) ch a\<rparr>)) ! r' ! c' =
    (rows (term_of s))[r := (rows (term_of s) ! r)[c := (ch, a)]] ! r' ! c'"
    using r' c' assms by (auto simp: nth_list_update)
qed (use assms in \<open>auto simp: nth_list_update\<close>)

lemma term_of_simps [simp]:
  "trow (term_of s) = nat (cursor_row s)" "tcol (term_of s) = nat (cursor_col s)"
  by (simp_all add: term_of_def)

lemma rows_cong: "video s = video t \<Longrightarrow> rows (term_of s) = rows (term_of t)"
  by (simp add: term_of_def)

lemma terminal_eqI: "rows a = rows b \<Longrightarrow> trow a = trow b \<Longrightarrow> tcol a = tcol b \<Longrightarrow> (a :: terminal) = b"
  by simp

lemma term_of_put_cell:
  assumes "screen_ok s"
  shows "rows (term_of (s\<lparr>video := put_cell (video s) ((cursor_row s * 80 + cursor_col s) * 2) ch a\<rparr>)) =
    (rows (term_of s))[nat (cursor_row s) := (rows (term_of s) ! nat (cursor_row s))[nat (cursor_col s) := (ch, a)]]"
  using rows_put_cell[of "nat (cursor_row s)" "nat (cursor_col s)" s ch a] assms
  by (auto simp: screen_ok_def nat_less_iff)

lemma term_of_advance:
  assumes "0 \<le> cursor_row s" "cursor_row s \<le> 25" "term_of s = t\<lparr>trow := Suc (trow t)\<rparr>"
  shows "term_of (if cursor_row s \<ge> MAX_ROWS then scroll_screen s else s) = term_newline t"
proof -
  have "rows (term_of s) = rows t" "nat (cursor_row s) = Suc (trow t)" "nat (cursor_col s) = tcol t"
    using assms(3) term_of_simps[of s] by simp_all
  then show ?thesis
    using assms by (auto simp: term_newline_def MAX_ROWS_def rows_scroll intro!: terminal_eqI)
qed

lemma term_of_print_char: "screen_ok s \<Longrightarrow> term_of (print_char s c) = term_putc c (term_of s)"
proof -
  assume ok: "screen_ok s"
  then have pos: "0 \<le> cursor_row s" "cursor_row s < 25" "0 \<le> cursor_col s" "cursor_col s < 80"
    by (auto simp: screen_ok_def)
  consider "c = 10" | "c = 8" | "c \<noteq> 10" "c \<noteq> 8" by blast
  then show ?thesis
  proof cases
    case 1
    let ?s1 = "(debug_putc s 10)\<lparr>cursor_row := cursor_row s + 1, cursor_col := 0\<rparr>"
    have "term_of ?s1 = ((term_of s)\<lparr>tcol := 0\<rparr>)\<lparr>trow := Suc (trow ((term_of s)\<lparr>tcol := 0\<rparr>))\<rparr>"
      using pos by (intro terminal_eqI) (auto intro: rows_cong)
    then have "term_of (if cursor_row ?s1 \<ge> MAX_ROWS then scroll_screen ?s1 else ?s1) =
        term_newline ((term_of s)\<lparr>tcol := 0\<rparr>)"
      using pos by (intro term_of_advance) auto
    then show ?thesis
      using 1 by (simp add: print_char_def term_putc_def Let_def)
  next
    case 2
    have no_scroll: "\<not> MAX_ROWS \<le> cursor_row s" "\<not> MAX_ROWS \<le> cursor_row s - 1"
      using pos by (auto simp: MAX_ROWS_def)
    show ?thesis
      using 2 pos no_scroll
      by (auto simp: print_char_def term_putc_def nat_diff_distrib intro!: terminal_eqI rows_cong)
  next
    case 3
    let ?off = "(cursor_row s * 80 + cursor_col s) * 2"
    let ?s2 = "debug_putc (s\<lparr>video := put_cell (video s) ?off c 0x6F\<rparr>) c"
    let ?t1 = "(term_of s)\<lparr>rows := (rows (term_of s))[trow (term_of s) :=
      (rows (term_of s) ! trow (term_of s))[tcol (term_of s) := (c, 0x6F)]]\<rparr>"
    have rows2: "rows (term_of ?s2) = rows ?t1"
      using term_of_put_cell[OF ok, of c "0x6F"]
        rows_cong[of ?s2 "s\<lparr>video := put_cell (video s) ?off c 0x6F\<rparr>"] by simp
    show ?thesis
    proof (cases "cursor_col s + 1 \<ge> 80")
      case True
      let ?s3 = "?s2\<lparr>cursor_col := 0, cursor_row := cursor_row s + 1\<rparr>"
      have "rows (term_of ?s3) = rows ?t1"
        using rows2 rows_cong[of ?s3 ?s2] by simp
      then have "term_of ?s3 = (?t1\<lparr>tcol := 0\<rparr>)\<lparr>trow := Suc (trow (?t1\<lparr>tcol := 0\<rparr>))\<rparr>"
        using pos by (intro terminal_eqI) auto
      then have "term_of (if cursor_row ?s3 \<ge> MAX_ROWS then scroll_screen ?s3 else ?s3) =
          term_newline (?t1\<lparr>tcol := 0\<rparr>)"
        using pos by (intro term_of_advance) auto
      then show ?thesis
        using 3 True pos by (simp add: print_char_def term_putc_def Let_def del: distrib_right_numeral)
    next
      case False
      have "rows (term_of (?s2\<lparr>cursor_col := cursor_col s + 1\<rparr>)) = rows ?t1"
        using rows2 rows_cong[of "?s2\<lparr>cursor_col := cursor_col s + 1\<rparr>" ?s2] by simp
      then have "term_of (?s2\<lparr>cursor_col := cursor_col s + 1\<rparr>) = ?t1\<lparr>tcol := tcol (term_of s) + 1\<rparr>"
        using pos by (intro terminal_eqI) auto
      then show ?thesis
        using 3 False pos by (auto simp: print_char_def term_putc_def Let_def MAX_ROWS_def)
    qed
  qed
qed

lemma term_of_print_loop:
  "screen_ok s \<Longrightarrow> term_of (print_loop s msg) = fold term_putc (cstr msg) (term_of s)"
  by (induction msg arbitrary: s) (auto simp: term_of_print_char screen_ok_print_char)

lemma term_of_print:
  "screen_ok s \<Longrightarrow> term_of (print s msg) = fold term_putc (cstr msg) (term_of s)"
proof -
  assume "screen_ok s"
  moreover have "term_of (update_cursor t) = term_of t" for t
    by (intro terminal_eqI) (auto intro: rows_cong)
  ultimately show ?thesis
    by (simp add: print_def term_of_print_loop)
qed

section \<open>The serial transcript\<close>

lemma serial_print_char: "serial (print_char s c) = serial s @ (if c = 8 then [] else [c])"
  by (auto simp: print_char_def Let_def)

lemma serial_print_loop: "serial (print_loop s msg) = serial s @ filter (\<lambda>c. c \<noteq> 8) (cstr msg)"
  by (induction msg arbitrary: s) (auto simp: serial_print_char)

lemma serial_print: "serial (print s msg) = serial s @ filter (\<lambda>c. c \<noteq> 8) (cstr msg)"
  by (simp add: print_def serial_print_loop)

lemma serial_fold_print:
  "(\<And>d. d \<in> set ds \<Longrightarrow> f d \<noteq> 0 \<and> f d \<noteq> 8) \<Longrightarrow>
     serial (fold (\<lambda>d s. print s [f d, 0]) ds s) = serial s @ map f ds"
  by (induction ds arbitrary: s) (auto simp: serial_print)

section \<open>Decimal and hexadecimal numbers\<close>

text \<open>Reading back a decimal numeral, most significant digit first.\<close>

definition decimal_value :: "u8 list \<Rightarrow> int" where
  "decimal_value ds = foldl (\<lambda>n d. 10 * n + (uint d - 48)) 0 ds"

lemma decimal_value_snoc [simp]: "decimal_value (ds @ [d]) = 10 * decimal_value ds + (uint d - 48)"
  by (simp add: decimal_value_def)

lemma uint_digit: "0 \<le> k \<Longrightarrow> k < 10 \<Longrightarrow> uint (word_of_int (k + 48) :: u8) = k + 48"
  by (simp add: uint_word_of_int del: of_int_add)

lemma int_digits_range: "d \<in> set (int_digits n) \<Longrightarrow> 48 \<le> uint d \<and> uint d < 58"
proof (induction n rule: int_digits.induct)
  case (1 n)
  show ?case
  proof (cases "n > 0")
    case True
    then have "d = word_of_int (n mod 10 + 48) \<or> d \<in> set (int_digits (n div 10))"
      using "1.prems" by (subst (asm) int_digits.simps) auto
    then show ?thesis
      using "1.IH"[OF True] uint_digit[of "n mod 10"] by auto
  next
    case False
    then show ?thesis using "1.prems" by (subst (asm) int_digits.simps) simp
  qed
qed

lemma decimal_value_int_digits: "0 \<le> n \<Longrightarrow> decimal_value (rev (int_digits n)) = n"
proof (induction n rule: int_digits.induct)
  case (1 n)
  show ?case
  proof (cases "n > 0")
    case True
    then have "decimal_value (rev (int_digits (n div 10))) = n div 10"
      using "1.IH" by simp
    then show ?thesis
      using True uint_digit[of "n mod 10"] by (subst int_digits.simps) simp
  next
    case False
    then show ?thesis
      using "1.prems" by (subst int_digits.simps) (simp add: decimal_value_def)
  qed
qed

lemma bytes_digit_chars: "bytes ''0'' = [48]" "bytes ''-'' = [45]" "bytes ''0X'' = [48, 88]"
  by (simp_all add: bytes_def)

lemma serial_print_int_digits:
  "serial (fold (\<lambda>d s. print s [d, 0]) (rev (int_digits n)) s) = serial s @ rev (int_digits n)"
proof -
  have "d \<noteq> 0 \<and> d \<noteq> 8" if "d \<in> set (rev (int_digits n))" for d
    using int_digits_range[of d n] that by auto
  then show ?thesis
    using serial_fold_print[of "rev (int_digits n)" "\<lambda>d. d" s] by simp
qed

lemma serial_print_int:
  "serial (print_int s n) = serial s @
     (if n = 0 then [48] else if n > 0 then rev (int_digits n) else 45 # rev (int_digits (c_int (- n))))"
  by (simp add: print_int_def Let_def serial_print_int_digits serial_print bytes_digit_chars)

lemma c_int_id: "- (2 ^ 31) \<le> x \<Longrightarrow> x < 2 ^ 31 \<Longrightarrow> c_int x = x"
  by (simp add: c_int_def)

text \<open>The value of a hexadecimal numeral in the upper-case digits of \<open>hex_chars\<close>.\<close>

definition hex_value :: "u8 \<Rightarrow> u32" where
  "hex_value d = (if d < 58 then ucast d - 48 else ucast d - 55)"

definition hex_word :: "u8 list \<Rightarrow> u32" where
  "hex_word ds = foldl (\<lambda>w d. push_bit 4 w OR hex_value d) 0 ds"

lemma hex_chars_eq: "hex_chars = [48, 49, 50, 51, 52, 53, 54, 55, 56, 57, 65, 66, 67, 68, 69, 70]"
  by (simp add: hex_chars_def bytes_def)

lemma nibble_bound: "unat (w AND 0xF :: u32) < 16"
proof -
  have "w AND 0xF = take_bit 4 w"
    by (simp add: take_bit_eq_mask mask_eq_exp_minus_1)
  then show ?thesis
    using take_bit_nat_less_exp[of 4 "unat w"] by (simp add: unsigned_take_bit_eq)
qed

lemma hex_chars_value:
  assumes "k < 16"
  shows "hex_value (hex_chars ! k) = of_nat k" "hex_chars ! k \<noteq> 0" "hex_chars ! k \<noteq> 8"
proof -
  have "list_all (\<lambda>k. hex_value (hex_chars ! k) = of_nat k \<and> hex_chars ! k \<noteq> 0 \<and> hex_chars ! k \<noteq> 8) [0..<16]"
    by code_simp
  then show "hex_value (hex_chars ! k) = of_nat k" "hex_chars ! k \<noteq> 0" "hex_chars ! k \<noteq> 8"
    using assms by (simp_all add: list_all_iff del: upt_rec_numeral)
qed

lemma hex_digit_value: "hex_value (hex_digit w i) = drop_bit i w AND 0xF"
  using hex_chars_value(1)[OF nibble_bound[of "drop_bit i w"]] by (simp add: hex_digit_def)

lemma hex_digit_printable: "hex_digit w i \<noteq> 0" "hex_digit w i \<noteq> 8"
  using hex_chars_value(2,3)[OF nibble_bound[of "drop_bit i w"]] by (simp_all add: hex_digit_def)

lemma hex_word_append: "hex_word (ds @ [d]) = push_bit 4 (hex_word ds) OR hex_value d"
  by (simp add: hex_word_def)

lemma serial_print_hex:
  "serial (print_hex s num) = serial s @ [48, 88] @ map (hex_digit num) [28, 24, 20, 16, 12, 8, 4, 0]"
  unfolding print_hex_def
  by (simp add: hex_digit_printable serial_print bytes_digit_chars)

lemma nibble_shift: "push_bit 4 (drop_bit (i + 4) w) OR (drop_bit i w AND 0xF) = (drop_bit i w :: u32)"
proof -
  have m: "(0xF :: u32) = mask 4" by (simp add: mask_eq_exp_minus_1)
  show ?thesis
    unfolding m by (rule bit_word_eqI) (auto simp: bit_simps not_less)
qed

lemma hex_word_digits: "hex_word (map (hex_digit num) [28, 24, 20, 16, 12, 8, 4, 0]) = num"
proof -
  have top: "drop_bit 28 num AND 0xF = drop_bit 28 num"
  proof -
    have m: "(0xF :: u32) = mask 4" by (simp add: mask_eq_exp_minus_1)
    show ?thesis
      unfolding m by (rule bit_word_eqI) (auto simp: bit_simps dest: bit_imp_le_length)
  qed
  have "hex_word (map (hex_digit num) [28]) = drop_bit 28 num"
    by (simp add: hex_word_def hex_digit_value top)
  then show ?thesis
    using nibble_shift[of 24 num] nibble_shift[of 20 num] nibble_shift[of 16 num] nibble_shift[of 12 num]
      nibble_shift[of 8 num] nibble_shift[of 4 num] nibble_shift[of 0 num]
    by (simp add: hex_word_def hex_digit_value)
qed

section \<open>Writes stay inside the text page\<close>

definition inside :: "int \<Rightarrow> bool" where
  "inside o' \<longleftrightarrow> 0 \<le> o' \<and> o' < 4000"

lemma cell_inside:
  assumes "screen_ok s" "\<not> inside o'"
  shows "put_cell v ((cursor_row s * 80 + cursor_col s) * 2) c a o' = v o'"
  using assms unfolding put_cell_apply screen_ok_def inside_def by auto

lemma scroll_inside: "\<not> inside o' \<Longrightarrow> video (scroll_screen s) o' = video s o'"
  by (auto simp: video_scroll_screen inside_def)

lemma print_char_inside: "screen_ok s \<Longrightarrow> \<not> inside o' \<Longrightarrow> video (print_char s c) o' = video s o'"
  by (simp add: print_char_def Let_def scroll_inside cell_inside del: distrib_right_numeral)

lemma print_colored_char_inside:
  "screen_ok s \<Longrightarrow> \<not> inside o' \<Longrightarrow> video (print_colored_char s a c) o' = video s o'"
  by (simp add: print_colored_char_def Let_def scroll_inside cell_inside del: distrib_right_numeral)

lemma print_inside: "screen_ok s \<Longrightarrow> \<not> inside o' \<Longrightarrow> video (print s msg) o' = video s o'"
proof -
  have "screen_ok s \<Longrightarrow> \<not> inside o' \<Longrightarrow> video (print_loop s msg) o' = video s o'"
    by (induction msg arbitrary: s) (simp_all add: print_char_inside screen_ok_print_char)
  then show "screen_ok s \<Longrightarrow> \<not> inside o' \<Longrightarrow> video (print s msg) o' = video s o'"
    by (simp add: print_def)
qed

lemma print_colored_inside: "screen_ok s \<Longrightarrow> \<not> inside o' \<Longrightarrow> video (print_colored s msg a) o' = video s o'"
proof -
  have "screen_ok s \<Longrightarrow> \<not> inside o' \<Longrightarrow> video (print_colored_loop s a msg) o' = video s o'"
    by (induction msg arbitrary: s) (simp_all add: print_colored_char_inside screen_ok_print_colored_char)
  then show "screen_ok s \<Longrightarrow> \<not> inside o' \<Longrightarrow> video (print_colored s msg a) o' = video s o'"
    by (simp add: print_colored_def)
qed

section \<open>Properties\<close>

definition sample_screen :: screen where
  "sample_screen = \<lparr>video = (\<lambda>_. 0), cursor_row = 24, cursor_col = 79, serial = [], crtc = (\<lambda>_. 0)\<rparr>"

lemma sample_screen_ok: "screen_ok sample_screen"
  by (simp add: sample_screen_def screen_ok_def)

text \<open>
  C16: print implements the terminal. With the cursor on the screen, printing a C string
  changes the 25 rows of 80 cells and the cursor as writing its characters one by one to
  the abstract terminal does: newline, backspace, wrap at the right margin, scrolling.
\<close>

theorem print_refines_terminal:
  assumes "screen_ok s"
  shows "term_of (print s msg) = fold term_putc (cstr msg) (term_of s)"
  using assms by (rule term_of_print)

theorem print_refines_terminal_witness:
  "screen_ok sample_screen \<and>
   term_of (print sample_screen (bytes ''ok'')) = fold term_putc (cstr (bytes ''ok'')) (term_of sample_screen)"
  using print_refines_terminal[OF sample_screen_ok] sample_screen_ok by simp

text \<open>
  C36: the console never writes outside the text page. From a state with the cursor on the
  screen, print and print_colored keep the cursor on the screen and leave every byte
  outside the 4000 bytes of the page alone, whatever they print.
\<close>

theorem print_stays_on_screen:
  assumes "screen_ok s" "o' < 0 \<or> 4000 \<le> o'"
  shows "screen_ok (print s msg) \<and> video (print s msg) o' = video s o' \<and>
    screen_ok (print_colored s msg color) \<and> video (print_colored s msg color) o' = video s o'"
proof -
  have "\<not> inside o'" using assms(2) by (auto simp: inside_def)
  then show ?thesis
    using assms(1) print_inside print_colored_inside by auto
qed

theorem print_stays_on_screen_witness:
  "screen_ok (print sample_screen (bytes ''ok'')) \<and>
   video (print sample_screen (bytes ''ok'')) 4000 = video sample_screen 4000 \<and>
   screen_ok (print_colored sample_screen (bytes ''ok'') 0x0B) \<and>
   video (print_colored sample_screen (bytes ''ok'') 0x0B) 4000 = video sample_screen 4000"
  by (rule print_stays_on_screen[OF sample_screen_ok]) simp

text \<open>
  Print_int prints its argument. For every \<open>int\<close> but \<open>INT_MIN\<close>, what it sends out is an
  optional minus sign and the decimal numeral of the absolute value, in ASCII digits.
\<close>

theorem print_int_decimal:
  assumes "- (2 ^ 31) < n" "n < 2 ^ 31"
  shows "\<exists>ds. serial (print_int s n) = serial s @ (if n < 0 then 45 # ds else ds) \<and>
    decimal_value ds = \<bar>n\<bar> \<and> (\<forall>d \<in> set ds. 48 \<le> d \<and> d \<le> 57) \<and> ds \<noteq> []"
proof -
  have digit: "48 \<le> d \<and> d \<le> 57" if "d \<in> set (rev (int_digits k))" for d k
    using int_digits_range[of d k] that by (simp add: word_le_def)
  consider "n = 0" | "n > 0" | "n < 0" by linarith
  then show ?thesis
  proof cases
    case 1
    then show ?thesis
      by (intro exI[of _ "[48]"]) (simp add: serial_print_int decimal_value_def)
  next
    case 2
    then have "int_digits n \<noteq> []" by (subst int_digits.simps) simp
    then show ?thesis
      using 2 digit[of _ n] decimal_value_int_digits[of n]
      by (intro exI[of _ "rev (int_digits n)"]) (simp add: serial_print_int)
  next
    case 3
    then have "c_int (- n) = - n" using assms by (simp add: c_int_id)
    moreover have "int_digits (- n) \<noteq> []" using 3 by (subst int_digits.simps) simp
    ultimately show ?thesis
      using 3 digit[of _ "- n"] decimal_value_int_digits[of "- n"]
      by (intro exI[of _ "rev (int_digits (- n))"]) (simp add: serial_print_int)
  qed
qed

theorem print_int_decimal_witness:
  "\<exists>ds. serial (print_int sample_screen (- 42)) = serial sample_screen @ (if (- 42 :: int) < 0 then 45 # ds else ds) \<and>
    decimal_value ds = \<bar>- 42\<bar> \<and> (\<forall>d \<in> set ds. 48 \<le> d \<and> d \<le> 57) \<and> ds \<noteq> []"
  by (rule print_int_decimal) simp_all

text \<open>
  Print_int of \<open>INT_MIN\<close> prints a minus sign and no digit, since the negated value is
  still negative and the digit loop does not run.
\<close>

theorem print_int_min_no_digits: "serial (print_int s (- (2 ^ 31))) = serial s @ [45]"
proof -
  have "int_digits (c_int (2 ^ 31)) = []"
    by (subst int_digits.simps) (simp add: c_int_def)
  then show ?thesis by (simp add: serial_print_int)
qed

text \<open>
  Print_hex round trip. It sends out 0X and eight digits, and reading the digits as a
  hexadecimal numeral gives back the word.
\<close>

theorem print_hex_roundtrip:
  "\<exists>ds. serial (print_hex s num) = serial s @ [48, 88] @ ds \<and> length ds = 8 \<and> hex_word ds = num"
  using serial_print_hex[of s num] hex_word_digits[of num] by (intro exI conjI) auto

end
