(* ===== verification/Memory.thy ===== *)
theory Memory
  imports Machine Screen
begin

text \<open>
  The memory management of src/src/memory.c: the bump allocator (kmalloc, kmalloc_a), the
  bitmap of page frames (pmm_*), and the boot code that reads the Multiboot memory map.
  The bitmap is a C array of 8192 words: an index past it is the fault \<open>OutOfArray\<close>.
  The walks over the memory map read the entries from machine memory and take fuel, since
  a malformed map never ends them.
\<close>

section \<open>State\<close>

record pmm_state =
  free_mem_addr :: u32
  total_memory :: u32
  allocated_memory :: u32
  mem_bitmap :: "u32 list"
  max_frames :: u32

definition pmm_boot :: pmm_state where
  "pmm_boot = \<lparr>free_mem_addr = 0x200000, total_memory = 0, allocated_memory = 0,
     mem_bitmap = replicate 8192 0, max_frames = 0\<rparr>"

definition MULTIBOOT_MAGIC :: u32 where "MULTIBOOT_MAGIC = 0x2BADB002"

record multiboot_mmap_entry =
  me_size :: u32
  base_addr_low :: u32
  base_addr_high :: u32
  length_low :: u32
  length_high :: u32
  me_type :: u32

record multiboot_info =
  flags :: u32
  mem_lower :: u32
  mem_upper :: u32
  boot_device :: u32
  cmdline :: u32
  mods_count :: u32
  mods_addr :: u32
  mb_num :: u32
  mb_size :: u32
  mb_addr :: u32
  mb_shndx :: u32
  mmap_length :: u32
  mmap_addr :: u32

text \<open>What the memory code, and everything above it, works on: console, allocator, machine.\<close>

record platform =
  scr :: screen
  pm :: pmm_state
  mc :: machine

definition kprint :: "'a platform_scheme \<Rightarrow> u8 list \<Rightarrow> 'a platform_scheme" where
  "kprint s msg = s\<lparr>scr := print (scr s) msg\<rparr>"

definition kprint_hex :: "'a platform_scheme \<Rightarrow> u32 \<Rightarrow> 'a platform_scheme" where
  "kprint_hex s n = s\<lparr>scr := print_hex (scr s) n\<rparr>"

definition kprint_int :: "'a platform_scheme \<Rightarrow> int \<Rightarrow> 'a platform_scheme" where
  "kprint_int s n = s\<lparr>scr := print_int (scr s) n\<rparr>"

section \<open>Allocation\<close>

definition kmalloc :: "pmm_state \<Rightarrow> u32 \<Rightarrow> u32 \<times> pmm_state" where
  "kmalloc s sz =
     (let sz1 = (if sz mod 4 \<noteq> 0 then sz + (4 - sz mod 4) else sz)
      in (free_mem_addr s,
          s\<lparr>free_mem_addr := free_mem_addr s + sz1, allocated_memory := allocated_memory s + sz1\<rparr>))"

definition frame_bit :: "u32 \<Rightarrow> u32" where
  "frame_bit frame_idx = push_bit (unat (frame_idx mod 32)) 1"

definition pmm_set_bit :: "u32 \<Rightarrow> pmm_state \<Rightarrow> pmm_state res" where
  "pmm_set_bit frame_idx s =
     (let i = unat (frame_idx div 32)
      in if i < length (mem_bitmap s)
         then Inr (s\<lparr>mem_bitmap := (mem_bitmap s)[i := mem_bitmap s ! i OR frame_bit frame_idx]\<rparr>)
         else Inl (OutOfArray i))"

definition pmm_clear_bit :: "u32 \<Rightarrow> pmm_state \<Rightarrow> pmm_state res" where
  "pmm_clear_bit frame_idx s =
     (let i = unat (frame_idx div 32)
      in if i < length (mem_bitmap s)
         then Inr (s\<lparr>mem_bitmap := (mem_bitmap s)[i := mem_bitmap s ! i AND NOT (frame_bit frame_idx)]\<rparr>)
         else Inl (OutOfArray i))"

definition pmm_test_bit :: "u32 \<Rightarrow> pmm_state \<Rightarrow> u32 res" where
  "pmm_test_bit frame_idx s =
     (let i = unat (frame_idx div 32)
      in if i < length (mem_bitmap s) then Inr (mem_bitmap s ! i AND frame_bit frame_idx)
         else Inl (OutOfArray i))"

definition pmm_mark_used :: "u32 \<Rightarrow> u32 \<Rightarrow> pmm_state \<Rightarrow> pmm_state res" where
  "pmm_mark_used phys_addr sz s =
     (if sz = 0 then Inr s
      else
        (let first_frame = phys_addr div 4096;
             last_frame = (phys_addr + sz - 1) div 4096
         in foldE (\<lambda>i. pmm_set_bit (of_nat i)) [unat first_frame..<Suc (unat last_frame)] s))"

definition kmalloc_a :: "u32 \<Rightarrow> pmm_state \<Rightarrow> (u32 \<times> pmm_state) res" where
  "kmalloc_a sz s =
     (let addr = (if free_mem_addr s AND 0xFFF \<noteq> 0
                  then (free_mem_addr s AND 0xFFFFF000) + 0x1000 else free_mem_addr s);
          s1 = s\<lparr>free_mem_addr := addr + sz, allocated_memory := allocated_memory s + sz\<rparr>
      in bindE (pmm_mark_used addr sz s1) (\<lambda>s2. Inr (addr, s2)))"

function find_zero_bit :: "u32 \<Rightarrow> nat \<Rightarrow> nat option" where
  "find_zero_bit w b =
     (if b < 32 then (if w AND push_bit b 1 = 0 then Some b else find_zero_bit w (Suc b)) else None)"
  by pat_completeness auto
termination
  by (relation "measure (\<lambda>(w, b). 32 - b)") auto

fun pmm_scan :: "u32 list \<Rightarrow> nat \<Rightarrow> (nat \<times> nat) option" where
  "pmm_scan [] i = None"
| "pmm_scan (w # ws) i =
     (if w \<noteq> 0xFFFFFFFF then
        (case find_zero_bit w 0 of Some b \<Rightarrow> Some (i, b) | None \<Rightarrow> pmm_scan ws (Suc i))
      else pmm_scan ws (Suc i))"

definition pmm_alloc_block :: "pmm_state \<Rightarrow> (u32 \<times> pmm_state) res" where
  "pmm_alloc_block s =
     (case pmm_scan (mem_bitmap s) 0 of
        None \<Rightarrow> Inr (0, s)
      | Some (i, b) \<Rightarrow>
          (let frame = of_nat i * 32 + of_nat b
           in if frame \<ge> max_frames s then Inr (0, s)
              else bindE (pmm_set_bit frame s) (\<lambda>s1.
                Inr (frame * 4096, s1\<lparr>allocated_memory := allocated_memory s1 + 4096\<rparr>))))"

definition pmm_free_block :: "u32 \<Rightarrow> pmm_state \<Rightarrow> pmm_state res" where
  "pmm_free_block p_addr s =
     bindE (pmm_clear_bit (p_addr div 4096) s) (\<lambda>s1. Inr (s1\<lparr>allocated_memory := allocated_memory s1 - 4096\<rparr>))"

definition get_total_memory :: "pmm_state \<Rightarrow> u32" where
  "get_total_memory s = total_memory s"

definition get_allocated_memory :: "pmm_state \<Rightarrow> u32" where
  "get_allocated_memory s = allocated_memory s"

section \<open>Reading the Multiboot memory map\<close>

definition read_mmap_entry :: "machine \<Rightarrow> u32 \<Rightarrow> multiboot_mmap_entry res" where
  "read_mmap_entry m a =
     bindE (ld32 m a) (\<lambda>sz. bindE (ld32 m (a + 4)) (\<lambda>bl. bindE (ld32 m (a + 8)) (\<lambda>bh.
     bindE (ld32 m (a + 12)) (\<lambda>ll. bindE (ld32 m (a + 16)) (\<lambda>lh. bindE (ld32 m (a + 20)) (\<lambda>ty.
       Inr \<lparr>me_size = sz, base_addr_low = bl, base_addr_high = bh,
            length_low = ll, length_high = lh, me_type = ty\<rparr>))))))"

text \<open>The loop of init_memory; the last argument is the running \<open>total_memory\<close>.\<close>

fun init_memory_loop :: "nat \<Rightarrow> machine \<Rightarrow> u32 \<Rightarrow> u32 \<Rightarrow> u32 \<Rightarrow> u32 res" where
  "init_memory_loop 0 m stop mmap tot = Inl StillRunning"
| "init_memory_loop (Suc fuel) m stop mmap tot =
     (if mmap < stop then
        bindE (read_mmap_entry m mmap) (\<lambda>e.
          init_memory_loop fuel m stop (mmap + me_size e + 4)
            (if me_type e = 1 then tot + length_low e else tot))
      else Inr tot)"

definition init_memory :: "nat \<Rightarrow> multiboot_info \<Rightarrow> u32 \<Rightarrow> 'a platform_scheme \<Rightarrow> ('a platform_scheme) res" where
  "init_memory fuel mbd magic s =
     (let s1 = kprint s (bytes ''Init Mem - Magic: '');
          s2 = kprint_hex s1 magic;
          s3 = kprint s2 (bytes '' Flags: '');
          s4 = kprint_hex s3 (flags mbd);
          s5 = kprint s4 (bytes ''\<newline>'');
          (test_ptr, pm6) = kmalloc (pm s5) 10;
          s6 = s5\<lparr>pm := pm6\<rparr>;
          s7 = kprint s6 (bytes ''Test Alloc: '');
          s8 = kprint_hex s7 test_ptr;
          s9 = kprint s8 (bytes ''\<newline>'')
      in if magic \<noteq> MULTIBOOT_MAGIC then Inr (kprint s9 (bytes ''Invalid multiboot magic number \<newline>''))
         else if flags mbd AND push_bit 6 1 = 0 then
           Inr (kprint s9 (bytes ''Error in memory mapping (Bit 6 not set!)\<newline>''))
         else
           (let s10 = kprint s9 (bytes ''MMap Addr: '');
                s11 = kprint_hex s10 (mmap_addr mbd);
                s12 = kprint s11 (bytes '' Len: '');
                s13 = kprint_hex s12 (mmap_length mbd);
                s14 = kprint s13 (bytes ''\<newline>'')
            in bindE (init_memory_loop fuel (mc s14) (mmap_addr mbd + mmap_length mbd) (mmap_addr mbd)
                        (total_memory (pm s14)))
                 (\<lambda>tot.
                    let s15 = s14\<lparr>pm := (pm s14)\<lparr>total_memory := tot\<rparr>\<rparr>;
                        s16 = kprint s15 (bytes ''Total Memory Calculated: '');
                        s17 = kprint_hex s16 tot
                    in Inr (kprint s17 (bytes ''\<newline>'')))))"

definition pmm_free_region :: "multiboot_mmap_entry \<Rightarrow> pmm_state \<Rightarrow> pmm_state res" where
  "pmm_free_region e s =
     (if me_type e = 1 \<and> base_addr_high e = 0 then
        (let first_frame = base_addr_low e div 4096;
             num_frames = length_low e div 4096
         in bindE (foldE (\<lambda>i. pmm_clear_bit (first_frame + of_nat i)) [0..<unat num_frames] s) (\<lambda>s1.
              Inr (if first_frame + num_frames > max_frames s1
                   then s1\<lparr>max_frames := first_frame + num_frames\<rparr> else s1)))
      else Inr s)"

fun init_pmm_loop :: "nat \<Rightarrow> machine \<Rightarrow> u32 \<Rightarrow> u32 \<Rightarrow> pmm_state \<Rightarrow> pmm_state res" where
  "init_pmm_loop 0 m stop mmap s = Inl StillRunning"
| "init_pmm_loop (Suc fuel) m stop mmap s =
     (if mmap < stop then
        bindE (read_mmap_entry m mmap) (\<lambda>e.
        bindE (pmm_free_region e s) (\<lambda>s1.
          init_pmm_loop fuel m stop (mmap + me_size e + 4) s1))
      else Inr s)"

definition init_pmm :: "nat \<Rightarrow> multiboot_info \<Rightarrow> machine \<Rightarrow> pmm_state \<Rightarrow> pmm_state res" where
  "init_pmm fuel mbd m s =
     (let s1 = s\<lparr>mem_bitmap := replicate 8192 0xFFFFFFFF\<rparr>
      in bindE (if flags mbd AND push_bit 6 1 \<noteq> 0
                then init_pmm_loop fuel m (mmap_addr mbd + mmap_length mbd) (mmap_addr mbd) s1
                else Inr s1) (\<lambda>s2.
         bindE (pmm_set_bit 0 s2) (\<lambda>s3.
           let kernel_frames = (free_mem_addr s3 + 4095) div 4096
           in foldE (\<lambda>i. pmm_set_bit (of_nat i)) [0..<unat kernel_frames] s3)))"

section \<open>The bitmap as a set of frames\<close>

declare find_zero_bit.simps [simp del]

definition NFRAMES :: nat where "NFRAMES = 262144"

definition pmm_ok :: "pmm_state \<Rightarrow> bool" where
  "pmm_ok s \<longleftrightarrow> length (mem_bitmap s) = 8192"

definition used_frames :: "pmm_state \<Rightarrow> nat set" where
  "used_frames s = {f. f < NFRAMES \<and> bit (mem_bitmap s ! (f div 32)) (f mod 32)}"

definition free_frames :: "pmm_state \<Rightarrow> nat set" where
  "free_frames s = {f. f < NFRAMES \<and> f \<notin> used_frames s}"

lemma NFRAMES_index: "f < NFRAMES \<longleftrightarrow> f div 32 < 8192"
  unfolding NFRAMES_def by (auto simp: div_less_iff_less_mult)

lemma used_frames_bound: "f \<in> used_frames s \<Longrightarrow> f < NFRAMES"
  by (simp add: used_frames_def)

lemma frame_index_nat: "unat (f div 32 :: u32) = unat f div 32" "unat (f mod 32 :: u32) = unat f mod 32"
  by (simp_all add: unat_div unat_mod)

lemma bit_frame_bit: "n < 32 \<Longrightarrow> bit (frame_bit f) n \<longleftrightarrow> n = unat f mod 32"
  by (auto simp: frame_bit_def bit_simps frame_index_nat)

definition set_frame :: "u32 \<Rightarrow> pmm_state \<Rightarrow> pmm_state" where
  "set_frame f s = s\<lparr>mem_bitmap := (mem_bitmap s)[unat f div 32 := mem_bitmap s ! (unat f div 32) OR frame_bit f]\<rparr>"

definition clear_frame :: "u32 \<Rightarrow> pmm_state \<Rightarrow> pmm_state" where
  "clear_frame f s =
     s\<lparr>mem_bitmap := (mem_bitmap s)[unat f div 32 := mem_bitmap s ! (unat f div 32) AND NOT (frame_bit f)]\<rparr>"

lemma pmm_set_bit_eq:
  "pmm_ok s \<Longrightarrow> pmm_set_bit f s = (if unat f < NFRAMES then Inr (set_frame f s) else Inl (OutOfArray (unat f div 32)))"
  by (simp add: pmm_set_bit_def pmm_ok_def set_frame_def NFRAMES_index frame_index_nat Let_def)

lemma pmm_clear_bit_eq:
  "pmm_ok s \<Longrightarrow> pmm_clear_bit f s = (if unat f < NFRAMES then Inr (clear_frame f s) else Inl (OutOfArray (unat f div 32)))"
  by (simp add: pmm_clear_bit_def pmm_ok_def clear_frame_def NFRAMES_index frame_index_nat Let_def)

lemma set_frame_simps [simp]:
  "free_mem_addr (set_frame f s) = free_mem_addr s" "total_memory (set_frame f s) = total_memory s"
  "allocated_memory (set_frame f s) = allocated_memory s" "max_frames (set_frame f s) = max_frames s"
  "pmm_ok (set_frame f s) = pmm_ok s"
  by (simp_all add: set_frame_def pmm_ok_def)

lemma clear_frame_simps [simp]:
  "free_mem_addr (clear_frame f s) = free_mem_addr s" "total_memory (clear_frame f s) = total_memory s"
  "allocated_memory (clear_frame f s) = allocated_memory s" "max_frames (clear_frame f s) = max_frames s"
  "pmm_ok (clear_frame f s) = pmm_ok s"
  by (simp_all add: clear_frame_def pmm_ok_def)

lemma same_frame_nat: "(f :: nat) div 32 = g div 32 \<Longrightarrow> f mod 32 = g mod 32 \<Longrightarrow> f = g"
  by (metis div_mult_mod_eq)

lemma used_set_frame: "pmm_ok s \<Longrightarrow> unat f < NFRAMES \<Longrightarrow> used_frames (set_frame f s) = insert (unat f) (used_frames s)"
  by (auto simp: used_frames_def set_frame_def pmm_ok_def NFRAMES_index nth_list_update bit_simps bit_frame_bit
      dest: same_frame_nat)

lemma used_clear_frame: "pmm_ok s \<Longrightarrow> unat f < NFRAMES \<Longrightarrow> used_frames (clear_frame f s) = used_frames s - {unat f}"
  by (auto simp: used_frames_def clear_frame_def pmm_ok_def NFRAMES_index nth_list_update bit_simps bit_frame_bit
      dest: same_frame_nat)

lemma used_frames_cong: "mem_bitmap s = mem_bitmap t \<Longrightarrow> used_frames s = used_frames t"
  by (simp add: used_frames_def)

lemma used_frames_frame [simp, frame_simps]:
  "used_frames (s\<lparr>free_mem_addr := x\<rparr>) = used_frames s" "used_frames (s\<lparr>total_memory := x\<rparr>) = used_frames s"
  "used_frames (s\<lparr>allocated_memory := x\<rparr>) = used_frames s" "used_frames (s\<lparr>max_frames := x\<rparr>) = used_frames s"
  by (simp_all add: used_frames_def)

lemma pmm_ok_frame [simp, frame_simps]:
  "pmm_ok (s\<lparr>free_mem_addr := x\<rparr>) = pmm_ok s" "pmm_ok (s\<lparr>total_memory := x\<rparr>) = pmm_ok s"
  "pmm_ok (s\<lparr>allocated_memory := x\<rparr>) = pmm_ok s" "pmm_ok (s\<lparr>max_frames := x\<rparr>) = pmm_ok s"
  by (simp_all add: pmm_ok_def)

section \<open>The search for a free frame\<close>

lemma test_bit_zero: "(w :: u32) AND 2 ^ b = 0 \<longleftrightarrow> \<not> bit w b"
  using bit_iff_and_push_bit_not_eq_0[of w b] by simp

lemma find_zero_bit_Some:
  "find_zero_bit w b = Some c \<Longrightarrow> b \<le> c \<and> c < 32 \<and> \<not> bit w c \<and> (\<forall>k. b \<le> k \<and> k < c \<longrightarrow> bit w k)"
proof (induction w b rule: find_zero_bit.induct)
  case (1 w b)
  show ?case
  proof (cases "b < 32 \<and> bit w b")
    case True
    then have "find_zero_bit w (Suc b) = Some c"
      using "1.prems" find_zero_bit.simps[of w b] by (simp add: test_bit_zero)
    then have "Suc b \<le> c \<and> c < 32 \<and> \<not> bit w c \<and> (\<forall>k. Suc b \<le> k \<and> k < c \<longrightarrow> bit w k)"
      using "1.IH" True by (simp add: test_bit_zero)
    then show ?thesis
      using True by (metis Suc_leD Suc_leI le_neq_implies_less)
  next
    case False
    then show ?thesis
      using "1.prems" find_zero_bit.simps[of w b] by (auto simp: test_bit_zero split: if_splits)
  qed
qed

lemma find_zero_bit_None: "find_zero_bit w b = None \<Longrightarrow> b \<le> k \<Longrightarrow> k < 32 \<Longrightarrow> bit w k"
proof (induction w b rule: find_zero_bit.induct)
  case (1 w b)
  then have "b < 32" by simp
  then have b: "bit w b" "find_zero_bit w (Suc b) = None"
    using "1.prems" find_zero_bit.simps[of w b] by (auto simp: test_bit_zero split: if_splits)
  show ?case
  proof (cases "k = b")
    case False
    then show ?thesis
      using "1.IH" "1.prems" b \<open>b < 32\<close> by (simp add: test_bit_zero)
  qed (simp add: b)
qed

lemma full_word: "(w :: u32) = 0xFFFFFFFF \<Longrightarrow> k < 32 \<Longrightarrow> bit w k"
proof -
  assume w: "w = 0xFFFFFFFF" and k: "k < 32"
  have "w = mask 32" using w by (simp add: mask_eq_exp_minus_1)
  then show "bit w k"
    using k by (simp only: bit_mask_iff possible_bit_word) simp
qed

definition full_upto :: "u32 list \<Rightarrow> nat \<Rightarrow> bool" where
  "full_upto ws n \<longleftrightarrow> (\<forall>g < n. bit (ws ! (g div 32)) (g mod 32))"

lemma full_upto_Cons:
  "full_upto (w # ws) (32 + n) \<longleftrightarrow> (\<forall>k < 32. bit w k) \<and> full_upto ws n"
proof
  assume l: "full_upto (w # ws) (32 + n)"
  have "bit w k" if "k < 32" for k
    using l that by (auto simp: full_upto_def dest: spec[of _ k])
  moreover have "bit (ws ! (g div 32)) (g mod 32)" if "g < n" for g
  proof -
    have "bit ((w # ws) ! ((32 + g) div 32)) ((32 + g) mod 32)"
      using l that unfolding full_upto_def by (metis nat_add_left_cancel_less)
    moreover have "(32 + g) div 32 = Suc (g div 32)" "(32 + g) mod 32 = g mod 32" by simp_all
    ultimately show ?thesis by (simp only: nth_Cons_Suc)
  qed
  ultimately show "(\<forall>k < 32. bit w k) \<and> full_upto ws n"
    by (simp add: full_upto_def)
next
  assume r: "(\<forall>k < 32. bit w k) \<and> full_upto ws n"
  have "bit ((w # ws) ! (g div 32)) (g mod 32)" if "g < 32 + n" for g
  proof (cases "g < 32")
    case True
    then show ?thesis using r by simp
  next
    case False
    then obtain h where "g = 32 + h" by (metis le_add_diff_inverse not_less)
    moreover have "(32 + h) div 32 = Suc (h div 32)" "(32 + h) mod 32 = h mod 32" by simp_all
    ultimately show ?thesis using r that by (simp only: full_upto_def nth_Cons_Suc)
  qed
  then show "full_upto (w # ws) (32 + n)" by (simp add: full_upto_def)
qed

lemma pmm_scan_Some:
  "pmm_scan ws i0 = Some (i, b) \<Longrightarrow>
     i0 \<le> i \<and> i - i0 < length ws \<and> b < 32 \<and> \<not> bit (ws ! (i - i0)) b \<and> full_upto ws (32 * (i - i0) + b)"
proof (induction ws i0 rule: pmm_scan.induct)
  case (1 i0)
  then show ?case by simp
next
  case (2 w ws i0)
  show ?case
  proof (cases "w \<noteq> 0xFFFFFFFF \<and> find_zero_bit w 0 \<noteq> None")
    case True
    then obtain c where c: "find_zero_bit w 0 = Some c" by auto
    then have "i = i0" "b = c" using 2 True by auto
    then show ?thesis
      using find_zero_bit_Some[OF c] by (auto simp: full_upto_def)
  next
    case False
    then have full: "\<forall>k < 32. bit w k"
      using find_zero_bit_None[of w 0] full_word by auto
    have rest: "pmm_scan ws (Suc i0) = Some (i, b)" using False "2.prems" by (auto split: if_splits)
    then have IH: "Suc i0 \<le> i \<and> i - Suc i0 < length ws \<and> b < 32 \<and> \<not> bit (ws ! (i - Suc i0)) b \<and>
        full_upto ws (32 * (i - Suc i0) + b)"
      using "2.IH" False by (cases "w = 0xFFFFFFFF") auto
    then obtain j where j: "i = Suc i0 + j" using le_Suc_ex by blast
    then have "32 * (i - i0) + b = 32 + (32 * (i - Suc i0) + b)" by simp
    then have "full_upto (w # ws) (32 * (i - i0) + b)"
      using IH full full_upto_Cons by metis
    then show ?thesis using IH j by simp
  qed
qed

lemma pmm_scan_None: "pmm_scan ws i0 = None \<Longrightarrow> full_upto ws (32 * length ws)"
proof (induction ws i0 rule: pmm_scan.induct)
  case (1 i0)
  then show ?case by (simp add: full_upto_def)
next
  case (2 w ws i0)
  then have full: "\<forall>k < 32. bit w k" "pmm_scan ws (Suc i0) = None"
    using find_zero_bit_None[of w 0] full_word by (auto split: if_splits option.splits)
  then show ?case
    using 2 full_upto_Cons[of w ws "32 * length ws"] by (cases "w = 0xFFFFFFFF") (auto split: option.splits)
qed

text \<open>The frame the search finds is the least free one.\<close>

lemma pmm_scan_least:
  assumes "pmm_ok s"
  shows "pmm_scan (mem_bitmap s) 0 = None \<Longrightarrow> free_frames s = {}"
    and "pmm_scan (mem_bitmap s) 0 = Some (i, b) \<Longrightarrow>
      32 * i + b \<in> free_frames s \<and> (\<forall>g \<in> free_frames s. 32 * i + b \<le> g)"
proof -
  have len: "length (mem_bitmap s) = 8192" using assms by (simp add: pmm_ok_def)
  show "free_frames s = {}" if none: "pmm_scan (mem_bitmap s) 0 = None"
    using pmm_scan_None[OF none] by (auto simp: free_frames_def used_frames_def full_upto_def len NFRAMES_def)
  show "32 * i + b \<in> free_frames s \<and> (\<forall>g \<in> free_frames s. 32 * i + b \<le> g)"
    if sm: "pmm_scan (mem_bitmap s) 0 = Some (i, b)"
  proof -
    have ib: "i < 8192" "b < 32" "\<not> bit (mem_bitmap s ! i) b" "full_upto (mem_bitmap s) (32 * i + b)"
      using pmm_scan_Some[OF sm] len by auto
    have "(32 * i + b) div 32 = i" "(32 * i + b) mod 32 = b" using ib by simp_all
    then have "32 * i + b \<in> free_frames s"
      using ib by (simp add: free_frames_def used_frames_def NFRAMES_index)
    moreover have "32 * i + b \<le> g" if "g \<in> free_frames s" for g
    proof (rule ccontr)
      assume "\<not> 32 * i + b \<le> g"
      then have "bit (mem_bitmap s ! (g div 32)) (g mod 32)"
        using ib(4) by (simp add: full_upto_def)
      then show False using that by (simp add: free_frames_def used_frames_def)
    qed
    ultimately show ?thesis by blast
  qed
qed

lemma unat_frame_index: "i < 8192 \<Longrightarrow> b < 32 \<Longrightarrow> unat (of_nat i * 32 + of_nat b :: u32) = 32 * i + b"
proof -
  assume ib: "i < 8192" "b < 32"
  have "of_nat i * 32 + of_nat b = (of_nat (32 * i + b) :: u32)" by simp
  then show ?thesis
    using ib by (simp only: unat_of_nat) simp
qed

text \<open>pmm_alloc_block in terms of the set of frames: all its cases.\<close>

lemma pmm_alloc_cases:
  assumes "pmm_ok s"
  obtains (full) "pmm_alloc_block s = Inr (0, s)" "\<forall>f \<in> free_frames s. unat (max_frames s) \<le> f"
  | (frame) f where "pmm_alloc_block s =
        Inr (of_nat f * 4096, (set_frame (of_nat f) s)\<lparr>allocated_memory := allocated_memory s + 4096\<rparr>)"
      "f \<in> free_frames s" "f < unat (max_frames s)" "\<forall>g \<in> free_frames s. f \<le> g"
proof (cases "pmm_scan (mem_bitmap s) 0")
  case None
  then show ?thesis
    using pmm_scan_least(1)[OF assms] full by (simp add: pmm_alloc_block_def)
next
  case (Some p)
  obtain i b where p: "p = (i, b)" by (cases p)
  have ib: "i < 8192" "b < 32"
    using pmm_scan_Some[of "mem_bitmap s" 0 i b] Some p assms by (auto simp: pmm_ok_def)
  let ?w = "of_nat i * 32 + of_nat b :: u32"
  have w: "unat ?w = 32 * i + b" using ib by (rule unat_frame_index)
  have free: "32 * i + b \<in> free_frames s" "\<forall>g \<in> free_frames s. 32 * i + b \<le> g"
    using pmm_scan_least(2)[OF assms, of i b] Some p by auto
  show ?thesis
  proof (cases "?w \<ge> max_frames s")
    case True
    then have none: "pmm_alloc_block s = Inr (0, s)" by (simp add: pmm_alloc_block_def Some p Let_def)
    have le: "unat (max_frames s) \<le> 32 * i + b"
      using True w by (simp add: word_le_nat_alt)
    have "\<forall>f \<in> free_frames s. unat (max_frames s) \<le> f"
    proof
      fix f assume "f \<in> free_frames s"
      then have "32 * i + b \<le> f" using free(2) by simp
      then show "unat (max_frames s) \<le> f" using le by (rule order_trans[rotated])
    qed
    then show ?thesis by (rule full[OF none])
  next
    case False
    have bound: "unat ?w < NFRAMES" using w free by (simp add: free_frames_def)
    have "pmm_set_bit ?w s = Inr (set_frame ?w s)"
      by (subst pmm_set_bit_eq[OF assms]) (simp only: bound if_True)
    then have "pmm_alloc_block s = Inr (?w * 4096, (set_frame ?w s)\<lparr>allocated_memory := allocated_memory s + 4096\<rparr>)"
      using False by (simp only: pmm_alloc_block_def Some p option.case prod.case Let_def if_False bindE_Inr set_frame_simps)
    moreover have eq: "?w = of_nat (32 * i + b)" by simp
    ultimately have alloc: "pmm_alloc_block s = Inr (of_nat (32 * i + b) * 4096,
        (set_frame (of_nat (32 * i + b)) s)\<lparr>allocated_memory := allocated_memory s + 4096\<rparr>)"
      by (simp only:)
    have "32 * i + b < unat (max_frames s)"
      using False w by (simp add: word_le_nat_alt)
    then show ?thesis
      using frame[OF alloc free(1) _ free(2)] by simp
  qed
qed

lemma frame_addr_nat:
  assumes "f < NFRAMES"
  shows "unat (of_nat f * 4096 :: u32) = f * 4096" "unat (of_nat f :: u32) = f"
proof -
  have "of_nat f * 4096 = (of_nat (f * 4096) :: u32)" by simp
  then show "unat (of_nat f * 4096 :: u32) = f * 4096"
    using assms by (simp only: unat_of_nat) (simp add: NFRAMES_def)
  show "unat (of_nat f :: u32) = f"
    using assms by (simp add: unat_of_nat NFRAMES_def)
qed

section \<open>The interface the rest of the kernel relies on\<close>

text \<open>
  A frame allocator: \<open>alloc\<close> answers 0 or the address of a frame that was not in use, and
  \<open>owned\<close> grows by exactly that frame. Whoever allocates several frames relies on these
  laws only.
\<close>

locale frame_allocator =
  fixes alloc :: "'s \<Rightarrow> (u32 \<times> 's) res"
    and owned :: "'s \<Rightarrow> nat set"
    and ok :: "'s \<Rightarrow> bool"
  assumes alloc_defined: "ok s \<Longrightarrow> \<exists>a s'. alloc s = Inr (a, s')"
    and alloc_ok: "ok s \<Longrightarrow> alloc s = Inr (a, s') \<Longrightarrow> ok s'"
    and alloc_fresh: "ok s \<Longrightarrow> alloc s = Inr (a, s') \<Longrightarrow> a \<noteq> 0 \<Longrightarrow>
      unat a mod 4096 = 0 \<and> unat a div 4096 \<notin> owned s \<and> owned s' = insert (unat a div 4096) (owned s)"
    and alloc_zero: "ok s \<Longrightarrow> alloc s = Inr (0, s') \<Longrightarrow> 0 \<in> owned s \<Longrightarrow> owned s' = owned s"
begin

fun alloc_many :: "nat \<Rightarrow> 's \<Rightarrow> (u32 list \<times> 's) res" where
  "alloc_many 0 s = Inr ([], s)"
| "alloc_many (Suc n) s =
     bindE (alloc s) (\<lambda>(a, s1). bindE (alloc_many n s1) (\<lambda>(as, s2). Inr (a # as, s2)))"

lemma alloc_owned: "ok s \<Longrightarrow> 0 \<in> owned s \<Longrightarrow> alloc s = Inr (a, s') \<Longrightarrow>
  owned s' = (if a = 0 then owned s else insert (unat a div 4096) (owned s))"
  using alloc_fresh[of s a s'] alloc_zero[of s s'] by auto

lemma alloc_many_distinct:
  assumes "ok s" "0 \<in> owned s" "alloc_many n s = Inr (as, s')"
  shows "ok s' \<and> owned s \<subseteq> owned s' \<and> distinct (filter (\<lambda>a. a \<noteq> 0) as) \<and>
    (\<forall>a \<in> set as. a \<noteq> 0 \<longrightarrow> unat a div 4096 \<notin> owned s \<and> unat a div 4096 \<in> owned s')"
  using assms
proof (induction n arbitrary: s as)
  case 0
  then show ?case by simp
next
  case (Suc n)
  then obtain a s1 bs where a: "alloc s = Inr (a, s1)" "alloc_many n s1 = Inr (bs, s')" "as = a # bs"
    by (auto simp: bindE_eq_Inr split: prod.splits)
  have o1: "owned s1 = (if a = 0 then owned s else insert (unat a div 4096) (owned s))"
    using alloc_owned[OF Suc.prems(1,2) a(1)] .
  have "ok s1" "0 \<in> owned s1" using alloc_ok[OF Suc.prems(1) a(1)] o1 Suc.prems(2) by auto
  note IH = Suc.IH[OF this a(2)]
  have "a \<noteq> 0 \<Longrightarrow> unat a div 4096 \<notin> owned s"
    using alloc_fresh[OF Suc.prems(1) a(1)] by simp
  then show ?case
    using IH o1 a(3) by (auto split: if_splits)
qed

end

interpretation pmm: frame_allocator pmm_alloc_block used_frames pmm_ok
proof
  fix s a s'
  assume ok: "pmm_ok s"
  show "\<exists>a s'. pmm_alloc_block s = Inr (a, s')"
    using ok by (rule pmm_alloc_cases) auto
  show "pmm_ok s'" if "pmm_alloc_block s = Inr (a, s')"
    using ok by (rule pmm_alloc_cases) (use ok that in \<open>auto simp: pmm_ok_def set_frame_def\<close>)
  show "unat a mod 4096 = 0 \<and> unat a div 4096 \<notin> used_frames s \<and>
      used_frames s' = insert (unat a div 4096) (used_frames s)"
    if al: "pmm_alloc_block s = Inr (a, s')" "a \<noteq> 0"
    using ok
  proof (cases rule: pmm_alloc_cases)
    case (frame f)
    then have "a = of_nat f * 4096" "s' = (set_frame (of_nat f) s)\<lparr>allocated_memory := allocated_memory s + 4096\<rparr>"
      "f < NFRAMES" "f \<notin> used_frames s"
      using al by (auto simp: free_frames_def)
    moreover have "used_frames s' = used_frames (set_frame (of_nat f) s)"
      using calculation by (intro used_frames_cong) simp
    ultimately show ?thesis
      using ok by (simp add: frame_addr_nat used_set_frame)
  qed (use al in simp)
  show "used_frames s' = used_frames s" if al: "pmm_alloc_block s = Inr (0, s')" "0 \<in> used_frames s"
    using ok
  proof (cases rule: pmm_alloc_cases)
    case full
    then show ?thesis using al by simp
  next
    case (frame f)
    then have "unat (of_nat f * 4096 :: u32) = 0" "f < NFRAMES" "f \<notin> used_frames s"
      using al by (auto simp: free_frames_def)
    then show ?thesis using al(2) frame_addr_nat[of f] by simp
  qed
qed

section \<open>The bump allocator and the bitmap\<close>

definition set_frames :: "nat list \<Rightarrow> pmm_state \<Rightarrow> pmm_state" where
  "set_frames fs s = fold (\<lambda>i. set_frame (of_nat i)) fs s"

definition clear_frames :: "nat list \<Rightarrow> pmm_state \<Rightarrow> pmm_state" where
  "clear_frames fs s = fold (\<lambda>i. clear_frame (of_nat i)) fs s"

lemma set_frames_simps [simp]:
  "free_mem_addr (set_frames fs s) = free_mem_addr s" "total_memory (set_frames fs s) = total_memory s"
  "allocated_memory (set_frames fs s) = allocated_memory s" "max_frames (set_frames fs s) = max_frames s"
  "pmm_ok (set_frames fs s) = pmm_ok s"
  unfolding set_frames_def by (induction fs arbitrary: s) auto

lemma clear_frames_simps [simp]:
  "free_mem_addr (clear_frames fs s) = free_mem_addr s" "total_memory (clear_frames fs s) = total_memory s"
  "allocated_memory (clear_frames fs s) = allocated_memory s" "max_frames (clear_frames fs s) = max_frames s"
  "pmm_ok (clear_frames fs s) = pmm_ok s"
  unfolding clear_frames_def by (induction fs arbitrary: s) auto

lemma used_set_frames:
  "pmm_ok s \<Longrightarrow> \<forall>i \<in> set fs. i < NFRAMES \<Longrightarrow> used_frames (set_frames fs s) = used_frames s \<union> set fs"
  unfolding set_frames_def
  by (induction fs arbitrary: s) (auto simp: used_set_frame frame_addr_nat)

lemma used_clear_frames:
  "pmm_ok s \<Longrightarrow> \<forall>i \<in> set fs. i < NFRAMES \<Longrightarrow> used_frames (clear_frames fs s) = used_frames s - set fs"
  unfolding clear_frames_def
  by (induction fs arbitrary: s) (auto simp: used_clear_frame frame_addr_nat)

lemma foldE_pmm_set_bit:
  "pmm_ok s \<Longrightarrow> \<forall>i \<in> set fs. i < NFRAMES \<Longrightarrow>
     foldE (\<lambda>i. pmm_set_bit (of_nat i)) fs s = Inr (set_frames fs s)"
  unfolding set_frames_def
  by (induction fs arbitrary: s) (auto simp: pmm_set_bit_eq frame_addr_nat)

lemma foldE_pmm_clear_bit:
  "pmm_ok s \<Longrightarrow> \<forall>i \<in> set fs. i < NFRAMES \<Longrightarrow>
     foldE (\<lambda>i. pmm_clear_bit (of_nat i)) fs s = Inr (clear_frames fs s)"
  unfolding clear_frames_def
  by (induction fs arbitrary: s) (auto simp: pmm_clear_bit_eq frame_addr_nat)

text \<open>The address kmalloc_a answers with: the bump pointer rounded up to a page.\<close>

definition bump_addr :: "pmm_state \<Rightarrow> u32" where
  "bump_addr s = (if free_mem_addr s AND 0xFFF \<noteq> 0
     then (free_mem_addr s AND 0xFFFFF000) + 0x1000 else free_mem_addr s)"

lemma bump_addr_nat:
  assumes "unat (free_mem_addr s) \<le> 4294963200"
  shows "unat (bump_addr s) = (unat (free_mem_addr s) + 4095) div 4096 * 4096"
proof (cases "unat (free_mem_addr s) mod 4096 = 0")
  case True
  then obtain q where "unat (free_mem_addr s) = 4096 * q" by auto
  moreover have "free_mem_addr s AND 0xFFF = 0"
    using True by (simp add: word_unat_eq_iff page_mask_nat)
  ultimately show ?thesis
    by (simp add: bump_addr_def)
next
  case False
  let ?q = "unat (free_mem_addr s) div 4096"
  have up: "(unat (free_mem_addr s) + 4095) div 4096 = Suc ?q"
  proof -
    obtain r where "unat (free_mem_addr s) mod 4096 = Suc r" using False by (cases "unat (free_mem_addr s) mod 4096") auto
    moreover have "r < 4096" using calculation mod_less_divisor[of 4096 "unat (free_mem_addr s)"] by linarith
    ultimately show ?thesis
      using div_add1_eq[of "unat (free_mem_addr s)" 4095 4096] by simp
  qed
  have "unat (free_mem_addr s) < 4294963200" using assms False by (cases "unat (free_mem_addr s) = 4294963200") auto
  then have "?q < 1048575" by (simp add: less_mult_imp_div_less)
  then have "unat (page_base (free_mem_addr s) + 0x1000) = Suc ?q * 4096"
    by (simp add: unat_word_ariths page_base_nat)
  moreover have "free_mem_addr s AND 0xFFF \<noteq> 0"
    using False by (simp add: word_unat_eq_iff page_mask_nat)
  ultimately show ?thesis
    by (simp add: bump_addr_def page_base_def up)
qed

lemma kmalloc_a_eq:
  assumes "pmm_ok s" "0 < unat sz" "unat (bump_addr s) + unat sz \<le> NFRAMES * 4096"
  shows "kmalloc_a sz s = Inr (bump_addr s,
    set_frames [unat (bump_addr s) div 4096..<Suc ((unat (bump_addr s) + unat sz - 1) div 4096)]
      (s\<lparr>free_mem_addr := bump_addr s + sz, allocated_memory := allocated_memory s + sz\<rparr>))"
proof -
  let ?a = "bump_addr s"
  let ?s1 = "s\<lparr>free_mem_addr := ?a + sz, allocated_memory := allocated_memory s + sz\<rparr>"
  have sum: "unat (?a + sz) = unat ?a + unat sz"
    using assms(3) by (intro unat_add_small) (simp add: NFRAMES_def)
  have "(1 :: u32) \<le> ?a + sz" using sum assms(2) by (simp add: word_le_nat_alt)
  then have "unat (?a + sz - 1) = unat ?a + unat sz - 1"
    using sum by (simp add: unat_sub)
  then have last: "unat ((?a + sz - 1) div 4096) = (unat ?a + unat sz - 1) div 4096"
    by (simp add: unat_div)
  have "(unat ?a + unat sz - 1) div 4096 < NFRAMES"
    using assms(2,3) by (intro less_mult_imp_div_less) linarith
  then have "foldE (\<lambda>i. pmm_set_bit (of_nat i)) [unat ?a div 4096..<Suc ((unat ?a + unat sz - 1) div 4096)] ?s1 =
      Inr (set_frames [unat ?a div 4096..<Suc ((unat ?a + unat sz - 1) div 4096)] ?s1)"
    using assms(1) by (intro foldE_pmm_set_bit) (auto simp: pmm_ok_def)
  moreover have "sz \<noteq> 0" using assms(2) by auto
  ultimately show ?thesis
    using last by (simp add: kmalloc_a_def pmm_mark_used_def Let_def bump_addr_def[symmetric] unat_div del: upt_Suc)
qed

lemma kmalloc_a_used:
  assumes "pmm_ok s" "0 < unat sz" "unat (bump_addr s) + unat sz \<le> NFRAMES * 4096"
    "kmalloc_a sz s = Inr (a, s')"
  shows "a = bump_addr s" "pmm_ok s'" "free_mem_addr s' = bump_addr s + sz" "max_frames s' = max_frames s"
    "used_frames s' = used_frames s \<union> {unat a div 4096..(unat a + unat sz - 1) div 4096}"
proof -
  let ?fs = "[unat (bump_addr s) div 4096..<Suc ((unat (bump_addr s) + unat sz - 1) div 4096)]"
  let ?s1 = "s\<lparr>free_mem_addr := bump_addr s + sz, allocated_memory := allocated_memory s + sz\<rparr>"
  have eq: "a = bump_addr s" "s' = set_frames ?fs ?s1"
    using kmalloc_a_eq[OF assms(1-3)] assms(4) by auto
  have "(unat (bump_addr s) + unat sz - 1) div 4096 < NFRAMES"
    using assms(2,3) by (intro less_mult_imp_div_less) linarith
  then have "used_frames s' = used_frames ?s1 \<union> set ?fs"
    unfolding eq using assms(1) by (intro used_set_frames) (auto simp: pmm_ok_def)
  moreover have "used_frames ?s1 = used_frames s" by simp
  ultimately show "used_frames s' = used_frames s \<union> {unat a div 4096..(unat a + unat sz - 1) div 4096}"
    by (simp only: eq atLeastLessThanSuc_atLeastAtMost set_upt)
  show "a = bump_addr s" "pmm_ok s'" "free_mem_addr s' = bump_addr s + sz" "max_frames s' = max_frames s"
    using eq assms(1) by (simp_all del: upt_Suc)
qed

section \<open>What init_pmm leaves free\<close>

text \<open>The entries a walk over the memory map visits, as a list.\<close>

fun mmap_entries :: "nat \<Rightarrow> machine \<Rightarrow> u32 \<Rightarrow> u32 \<Rightarrow> multiboot_mmap_entry list res" where
  "mmap_entries 0 m stop mmap = Inl StillRunning"
| "mmap_entries (Suc fuel) m stop mmap =
     (if mmap < stop then
        bindE (read_mmap_entry m mmap) (\<lambda>e.
        bindE (mmap_entries fuel m stop (mmap + me_size e + 4)) (\<lambda>es. Inr (e # es)))
      else Inr [])"

text \<open>The whole frames of a usable region below 4 GiB.\<close>

definition region :: "multiboot_mmap_entry \<Rightarrow> nat set" where
  "region e = (if me_type e = 1 \<and> base_addr_high e = 0
     then {unat (base_addr_low e) div 4096..<unat (base_addr_low e) div 4096 + unat (length_low e) div 4096} else {})"

definition region_end :: "multiboot_mmap_entry \<Rightarrow> nat" where
  "region_end e = (if me_type e = 1 \<and> base_addr_high e = 0
     then unat (base_addr_low e) div 4096 + unat (length_low e) div 4096 else 0)"

lemma init_pmm_loop_entries:
  "mmap_entries fuel m stop mmap = Inr es \<Longrightarrow> init_pmm_loop fuel m stop mmap s = foldE pmm_free_region es s"
proof (induction fuel m stop mmap arbitrary: es s rule: mmap_entries.induct)
  case (2 fuel m stop mmap)
  show ?case
  proof (cases "mmap < stop")
    case True
    then obtain e es' where e: "read_mmap_entry m mmap = Inr e" "es = e # es'"
      "mmap_entries fuel m stop (mmap + me_size e + 4) = Inr es'"
      using "2.prems" by (auto simp: bindE_eq_Inr)
    then show ?thesis
      using True "2.IH"[OF True e(1) e(3)] by (cases "pmm_free_region e s") auto
  qed (use "2.prems" in auto)
qed simp

lemma init_memory_loop_entries:
  "mmap_entries fuel m stop mmap = Inr es \<Longrightarrow>
     init_memory_loop fuel m stop mmap tot =
       Inr (tot + sum_list (map length_low (filter (\<lambda>e. me_type e = 1) es)))"
  by (induction fuel m stop mmap arbitrary: es tot rule: mmap_entries.induct)
    (auto simp: bindE_eq_Inr split: if_splits)

lemma region_index:
  fixes b l :: u32
  shows "unat (b div 4096 + l div 4096) = unat b div 4096 + unat l div 4096"
    "i < unat (l div 4096) \<Longrightarrow> b div 4096 + of_nat i = of_nat (unat b div 4096 + i)"
proof -
  have q: "unat b div 4096 < 1048576" "unat l div 4096 < 1048576"
    using u32_bound[of b] u32_bound[of l] by (simp_all add: less_mult_imp_div_less)
  then show "unat (b div 4096 + l div 4096) = unat b div 4096 + unat l div 4096"
    by (simp add: unat_word_ariths unat_div)
  have "b div 4096 = of_nat (unat b div 4096)"
    by (simp add: word_unat_eq_iff unat_div unat_of_nat q(1) order_less_trans[OF q(1)])
  then show "b div 4096 + of_nat i = of_nat (unat b div 4096 + i)" by simp
qed

lemma region_list:
  assumes "me_type e = 1 \<and> base_addr_high e = 0"
  shows "set (map (\<lambda>i. unat (base_addr_low e) div 4096 + i) [0..<unat (length_low e div 4096)]) = region e"
proof -
  have "unat (length_low e div 4096) = unat (length_low e) div 4096" by (simp add: unat_div)
  then show ?thesis
    using assms by (simp only: region_def set_map set_upt image_add_atLeastLessThan) (simp add: add.commute)
qed

lemma foldE_region_index:
  fixes b l :: u32
  shows "foldE (\<lambda>i. pmm_clear_bit (b div 4096 + of_nat i)) [0..<unat (l div 4096)] s =
    foldE (\<lambda>i. pmm_clear_bit (of_nat i)) (map (\<lambda>i. unat b div 4096 + i) [0..<unat (l div 4096)]) s"
  unfolding foldE_map
proof (rule foldE_cong)
  fix x u
  assume "x \<in> set [0..<unat (l div 4096)]"
  then have "b div 4096 + of_nat x = of_nat (unat b div 4096 + x)"
    by (intro region_index(2)[of x l]) simp
  then show "pmm_clear_bit (b div 4096 + of_nat x) u = pmm_clear_bit (of_nat (unat b div 4096 + x)) u"
    by (simp only:)
qed simp_all

lemma pmm_free_region_ok:
  assumes "pmm_ok s" "region e \<subseteq> {..<NFRAMES}"
  shows "\<exists>s'. pmm_free_region e s = Inr s' \<and> pmm_ok s' \<and> used_frames s' = used_frames s - region e \<and>
    unat (max_frames s') = max (unat (max_frames s)) (region_end e) \<and>
    free_mem_addr s' = free_mem_addr s \<and> total_memory s' = total_memory s \<and>
    allocated_memory s' = allocated_memory s"
proof (cases "me_type e = 1 \<and> base_addr_high e = 0")
  case True
  let ?b = "base_addr_low e" and ?l = "length_low e"
  let ?fs = "map (\<lambda>i. unat ?b div 4096 + i) [0..<unat (?l div 4096)]"
  have fs: "set ?fs = region e" using True by (rule region_list)
  have "foldE (\<lambda>i. pmm_clear_bit (?b div 4096 + of_nat i)) [0..<unat (?l div 4096)] s =
      foldE (\<lambda>i. pmm_clear_bit (of_nat i)) ?fs s"
    by (rule foldE_region_index)
  also have "\<dots> = Inr (clear_frames ?fs s)"
    using assms fs by (intro foldE_pmm_clear_bit) auto
  finally have loop: "foldE (\<lambda>i. pmm_clear_bit (?b div 4096 + of_nat i)) [0..<unat (?l div 4096)] s =
      Inr (clear_frames ?fs s)" .
  let ?s1 = "clear_frames ?fs s"
  let ?s' = "if ?b div 4096 + ?l div 4096 > max_frames ?s1
     then ?s1\<lparr>max_frames := ?b div 4096 + ?l div 4096\<rparr> else ?s1"
  have "pmm_free_region e s = Inr ?s'"
    using True loop by (simp add: pmm_free_region_def Let_def)
  moreover have "used_frames ?s' = used_frames ?s1" by (rule used_frames_cong) simp
  then have "used_frames ?s' = used_frames s - region e"
    using used_clear_frames[of s ?fs] assms fs by auto
  moreover have "unat (max_frames ?s') = max (unat (max_frames s)) (region_end e)"
    using True region_index(1)[of ?b ?l] by (auto simp: region_end_def word_less_nat_alt)
  moreover have "pmm_ok ?s1" using assms(1) by simp
  then have "pmm_ok ?s'" by (simp add: pmm_ok_def)
  ultimately show ?thesis by auto
next
  case False
  then show ?thesis
    using assms by (auto simp: pmm_free_region_def region_def region_end_def)
qed

lemma foldE_pmm_free_region:
  assumes "pmm_ok s" "\<forall>e \<in> set es. region e \<subseteq> {..<NFRAMES}"
  shows "\<exists>s'. foldE pmm_free_region es s = Inr s' \<and> pmm_ok s' \<and>
    used_frames s' = used_frames s - (\<Union>e \<in> set es. region e) \<and>
    unat (max_frames s') = Max (insert (unat (max_frames s)) (region_end ` set es)) \<and>
    free_mem_addr s' = free_mem_addr s"
  using assms
proof (induction es arbitrary: s)
  case Nil
  then show ?case by simp
next
  case (Cons e es)
  then obtain s1 where s1: "pmm_free_region e s = Inr s1" "pmm_ok s1" "used_frames s1 = used_frames s - region e"
    "unat (max_frames s1) = max (unat (max_frames s)) (region_end e)" "free_mem_addr s1 = free_mem_addr s"
    using pmm_free_region_ok[of s e] by auto
  obtain s' where s': "foldE pmm_free_region es s1 = Inr s'" "pmm_ok s'"
    "used_frames s' = used_frames s1 - (\<Union>e \<in> set es. region e)"
    "unat (max_frames s') = Max (insert (unat (max_frames s1)) (region_end ` set es))" "free_mem_addr s' = free_mem_addr s1"
    using Cons.IH[OF s1(2)] Cons.prems by auto
  have "Max (insert (max a b) A) = Max (insert a (insert b A))" if "finite A" for a b :: nat and A
    using that by (cases "A = {}") (auto simp: max.assoc)
  then have "unat (max_frames s') = Max (insert (unat (max_frames s)) (region_end ` set (e # es)))"
    using s' s1 by simp
  then show ?case using s1 s' by auto
qed

definition kernel_frames :: "pmm_state \<Rightarrow> nat" where
  "kernel_frames s = (unat (free_mem_addr s) + 4095) div 4096"

lemma used_frames_all: "used_frames (s\<lparr>mem_bitmap := replicate 8192 0xFFFFFFFF\<rparr>) = {..<NFRAMES}"
  using full_word[OF refl] by (auto simp: used_frames_def NFRAMES_index)

lemma init_pmm_ok:
  assumes "flags mbd AND push_bit 6 1 \<noteq> 0"
    and "mmap_entries fuel m (mmap_addr mbd + mmap_length mbd) (mmap_addr mbd) = Inr es"
    and "\<forall>e \<in> set es. region e \<subseteq> {..<NFRAMES}"
    and "unat (free_mem_addr s) \<le> NFRAMES * 4096"
  shows "\<exists>s'. init_pmm fuel mbd m s = Inr s' \<and> pmm_ok s' \<and> free_mem_addr s' = free_mem_addr s \<and>
    unat (max_frames s') = Max (insert (unat (max_frames s)) (region_end ` set es)) \<and>
    free_frames s' = (\<Union>e \<in> set es. region e) - {0} - {..<kernel_frames s}"
proof -
  let ?s1 = "s\<lparr>mem_bitmap := replicate 8192 0xFFFFFFFF\<rparr>"
  have "pmm_ok ?s1" by (simp add: pmm_ok_def)
  then obtain s2 where s2: "foldE pmm_free_region es ?s1 = Inr s2" "pmm_ok s2"
    "used_frames s2 = used_frames ?s1 - (\<Union>e \<in> set es. region e)"
    "unat (max_frames s2) = Max (insert (unat (max_frames ?s1)) (region_end ` set es))"
    "free_mem_addr s2 = free_mem_addr ?s1"
    using foldE_pmm_free_region[OF _ assms(3)] by blast
  have zero: "pmm_set_bit 0 s2 = Inr (set_frame 0 s2)"
    using s2(2) by (simp add: pmm_set_bit_eq NFRAMES_def)
  have kf: "unat ((free_mem_addr s + 4095) div 4096) = kernel_frames s"
    using assms(4) by (simp add: unat_div unat_word_ariths kernel_frames_def NFRAMES_def)
  have "kernel_frames s \<le> NFRAMES"
    using div_le_mono[OF add_right_mono[OF assms(4), of 4095], of 4096] by (simp add: kernel_frames_def NFRAMES_def)
  then have "foldE (\<lambda>i. pmm_set_bit (of_nat i)) [0..<kernel_frames s] (set_frame 0 s2) =
      Inr (set_frames [0..<kernel_frames s] (set_frame 0 s2))"
    using s2(2) by (intro foldE_pmm_set_bit) auto
  then have "init_pmm fuel mbd m s = Inr (set_frames [0..<kernel_frames s] (set_frame 0 s2))"
    using assms(1,2) s2 zero kf by (simp add: init_pmm_def Let_def init_pmm_loop_entries)
  moreover have "used_frames (set_frames [0..<kernel_frames s] (set_frame 0 s2)) =
      insert 0 (used_frames s2) \<union> {..<kernel_frames s}"
    using s2(2) \<open>kernel_frames s \<le> NFRAMES\<close>
    by (subst used_set_frames) (auto simp: used_set_frame NFRAMES_def)
  then have "free_frames (set_frames [0..<kernel_frames s] (set_frame 0 s2)) =
      (\<Union>e \<in> set es. region e) - {0} - {..<kernel_frames s}"
    using assms(3) by (auto simp: free_frames_def s2(3) used_frames_all)
  ultimately show ?thesis
    using s2 by simp
qed

section \<open>Live frames over a run of the allocators\<close>

text \<open>
  A run of the kernel interleaves the two allocators. \<open>mem_step\<close> is one call; the second
  component of its state collects the frames handed out and not freed since. The frames of
  a kmalloc_a block are those its pmm_mark_used call visits.
\<close>

definition block_frames :: "u32 \<Rightarrow> u32 \<Rightarrow> nat set" where
  "block_frames a sz = (if sz = 0 then {} else {unat (a div 4096)..unat ((a + sz - 1) div 4096)})"

inductive mem_step :: "pmm_state \<times> nat set \<Rightarrow> pmm_state \<times> nat set \<Rightarrow> bool" where
  alloc: "pmm_alloc_block s = Inr (a, s') \<Longrightarrow> a \<noteq> 0 \<Longrightarrow> mem_step (s, L) (s', insert (unat a div 4096) L)"
| alloc_none: "pmm_alloc_block s = Inr (0, s') \<Longrightarrow> mem_step (s, L) (s', L)"
| free: "unat a div 4096 \<in> L \<Longrightarrow> unat a div 4096 \<noteq> 0 \<Longrightarrow> pmm_free_block a s = Inr s' \<Longrightarrow>
    mem_step (s, L) (s', L - {unat a div 4096})"
| bump: "kmalloc_a sz s = Inr (a, s') \<Longrightarrow> mem_step (s, L) (s', L \<union> block_frames a sz)"

inductive mem_reachable :: "pmm_state \<Rightarrow> pmm_state \<times> nat set \<Rightarrow> bool" for s0 where
  start: "mem_reachable s0 (s0, {})"
| step: "mem_reachable s0 x \<Longrightarrow> mem_step x y \<Longrightarrow> mem_reachable s0 y"

inductive_cases mem_step_from: "mem_step (s, L) y"

definition live_ok :: "pmm_state \<times> nat set \<Rightarrow> bool" where
  "live_ok x \<longleftrightarrow> pmm_ok (fst x) \<and> 0 \<in> used_frames (fst x) \<and> snd x \<subseteq> used_frames (fst x)"

lemma foldE_pmm_set_bit_Inr:
  assumes "pmm_ok s" "foldE (\<lambda>i. pmm_set_bit (of_nat i)) fs s = Inr s'" "\<forall>i \<in> set fs. i < 1048576"
  shows "\<forall>i \<in> set fs. i < NFRAMES"
  using assms
proof (induction fs arbitrary: s)
  case (Cons f fs)
  have "unat (of_nat f :: u32) = f" using Cons.prems by (simp add: unat_of_nat)
  then show ?case
    using Cons.prems Cons.IH[of "set_frame (of_nat f) s"] by (auto simp: bindE_eq_Inr pmm_set_bit_eq split: if_splits)
qed simp

lemma pmm_mark_used_Inr:
  assumes "pmm_ok s" "pmm_mark_used a sz s = Inr s'"
  shows "pmm_ok s' \<and> used_frames s' = used_frames s \<union> block_frames a sz"
proof (cases "sz = 0")
  case True
  then show ?thesis using assms by (simp add: pmm_mark_used_def block_frames_def)
next
  case False
  let ?fs = "[unat (a div 4096)..<Suc (unat ((a + sz - 1) div 4096))]"
  have run: "foldE (\<lambda>i. pmm_set_bit (of_nat i)) ?fs s = Inr s'"
    using assms(2) False by (simp add: pmm_mark_used_def Let_def del: upt_Suc)
  have "unat ((a + sz - 1) div 4096) < 1048576"
    using u32_bound[of "a + sz - 1"] by (simp add: unat_div less_mult_imp_div_less)
  then have "\<forall>i \<in> set ?fs. i < NFRAMES"
    by (intro foldE_pmm_set_bit_Inr[OF assms(1) run]) auto
  then show ?thesis
    using foldE_pmm_set_bit[OF assms(1), of ?fs] used_set_frames[OF assms(1), of ?fs] run assms(1) False
    by (simp add: block_frames_def atLeastLessThanSuc_atLeastAtMost del: upt_Suc)
qed

lemma kmalloc_a_Inr:
  assumes "pmm_ok s" "kmalloc_a sz s = Inr (a, s')"
  shows "pmm_ok s' \<and> used_frames s' = used_frames s \<union> block_frames a sz"
proof -
  let ?s1 = "s\<lparr>free_mem_addr := bump_addr s + sz, allocated_memory := allocated_memory s + sz\<rparr>"
  have "pmm_mark_used (bump_addr s) sz ?s1 = Inr s'" "a = bump_addr s"
    using assms(2) by (auto simp: kmalloc_a_def bump_addr_def Let_def bindE_eq_Inr)
  moreover have "pmm_ok ?s1" "used_frames ?s1 = used_frames s"
    using assms(1) by simp_all
  ultimately show ?thesis using pmm_mark_used_Inr by metis
qed

lemma pmm_free_block_Inr:
  assumes "pmm_ok s" "pmm_free_block a s = Inr s'"
  shows "pmm_ok s' \<and> used_frames s' = used_frames s - {unat a div 4096}"
proof -
  have n: "unat (a div 4096) = unat a div 4096" by (simp add: unat_div)
  obtain s1 where s1: "pmm_clear_bit (a div 4096) s = Inr s1" "s' = s1\<lparr>allocated_memory := allocated_memory s1 - 4096\<rparr>"
    using assms(2) by (auto simp: pmm_free_block_def bindE_eq_Inr)
  then have "s1 = clear_frame (a div 4096) s" "unat (a div 4096) < NFRAMES"
    using pmm_clear_bit_eq[OF assms(1)] by (auto split: if_splits)
  moreover have "used_frames s' = used_frames s1" "pmm_ok s' = pmm_ok s1"
    using s1(2) by simp_all
  ultimately show ?thesis
    using assms(1) used_clear_frame[of s "a div 4096"] n by simp
qed

lemma mem_step_live_ok: "mem_step x y \<Longrightarrow> live_ok x \<Longrightarrow> live_ok y"
proof (induction rule: mem_step.induct)
  case (alloc s a s' L)
  then show ?case
    using pmm.alloc_fresh[of s a s'] pmm.alloc_ok[of s a s'] by (auto simp: live_ok_def)
next
  case (alloc_none s s' L)
  then show ?case
    using pmm.alloc_zero[of s s'] pmm.alloc_ok[of s 0 s'] by (auto simp: live_ok_def)
next
  case (free a L s s')
  then show ?case
    using pmm_free_block_Inr[of s a s'] by (auto simp: live_ok_def)
next
  case (bump sz s a s' L)
  then show ?case
    using kmalloc_a_Inr[of s sz a s'] by (auto simp: live_ok_def)
qed

lemma mem_reachable_live_ok:
  "mem_reachable s0 x \<Longrightarrow> pmm_ok s0 \<Longrightarrow> 0 \<in> used_frames s0 \<Longrightarrow> live_ok x"
proof (induction rule: mem_reachable.induct)
  case start
  then show ?case by (simp add: live_ok_def)
next
  case (step x y)
  then show ?case by (blast intro: mem_step_live_ok)
qed

section \<open>Memory beyond the bitmap\<close>

lemma foldE_pmm_clear_bit_bad:
  assumes "pmm_ok s" "\<exists>i \<in> set fs. NFRAMES \<le> i" "\<forall>i \<in> set fs. i < 4294967296"
  shows "\<exists>j. foldE (\<lambda>i. pmm_clear_bit (of_nat i)) fs s = Inl (OutOfArray j)"
  using assms
proof (induction fs arbitrary: s)
  case (Cons f fs)
  have f: "unat (of_nat f :: u32) = f" using Cons.prems(3) by (simp add: unat_of_nat)
  show ?case
  proof (cases "f < NFRAMES")
    case True
    then show ?thesis
      using Cons f by (simp add: pmm_clear_bit_eq not_le[symmetric])
  next
    case False
    then show ?thesis using Cons.prems(1) f by (simp add: pmm_clear_bit_eq)
  qed
qed simp

lemma pmm_free_region_bad:
  assumes "pmm_ok s" "\<not> region e \<subseteq> {..<NFRAMES}"
  shows "\<exists>j. pmm_free_region e s = Inl (OutOfArray j)"
proof -
  let ?b = "base_addr_low e" and ?l = "length_low e"
  let ?fs = "map (\<lambda>i. unat ?b div 4096 + i) [0..<unat (?l div 4096)]"
  have usable: "me_type e = 1 \<and> base_addr_high e = 0"
    using assms(2) by (auto simp: region_def split: if_splits)
  have fs: "set ?fs = region e" using usable by (rule region_list)
  have "unat ?b div 4096 < 1048576" "unat (?l div 4096) < 1048576"
    using u32_bound[of ?b] u32_bound[of ?l] by (simp_all add: less_mult_imp_div_less unat_div)
  then have "\<forall>i \<in> set ?fs. i < 4294967296" by auto
  then have "\<exists>j. foldE (\<lambda>i. pmm_clear_bit (of_nat i)) ?fs s = Inl (OutOfArray j)"
    using assms fs by (intro foldE_pmm_clear_bit_bad) (auto simp: not_less)
  then show ?thesis
    using usable foldE_region_index[of ?b ?l s] by (auto simp: pmm_free_region_def Let_def)
qed

lemma foldE_pmm_free_region_bad:
  assumes "pmm_ok s" "\<exists>e \<in> set es. \<not> region e \<subseteq> {..<NFRAMES}"
  shows "\<exists>j. foldE pmm_free_region es s = Inl (OutOfArray j)"
  using assms
proof (induction es arbitrary: s)
  case (Cons e es)
  show ?case
  proof (cases "region e \<subseteq> {..<NFRAMES}")
    case True
    then obtain s1 where "pmm_free_region e s = Inr s1" "pmm_ok s1"
      using pmm_free_region_ok[OF Cons.prems(1)] by blast
    then show ?thesis using Cons True by auto
  next
    case False
    then obtain j where "pmm_free_region e s = Inl (OutOfArray j)"
      using pmm_free_region_bad[OF Cons.prems(1)] by blast
    then show ?thesis by simp
  qed
qed simp

section \<open>Termination of the walk\<close>

lemma mmap_entries_enough_fuel:
  assumes "\<And>a. a < stop \<Longrightarrow> \<exists>e. read_mmap_entry m a = Inr e \<and> unat a + unat (me_size e) + 4 < 4294967296"
    and "unat stop - unat mmap < fuel"
  shows "\<exists>es. mmap_entries fuel m stop mmap = Inr es"
  using assms(2)
proof (induction fuel arbitrary: mmap)
  case (Suc fuel)
  show ?case
  proof (cases "mmap < stop")
    case True
    then obtain e where e: "read_mmap_entry m mmap = Inr e" "unat mmap + unat (me_size e) + 4 < 4294967296"
      using assms(1) by blast
    have next_addr: "unat (mmap + me_size e + 4) = unat mmap + unat (me_size e) + 4"
      using e(2) by (simp add: unat_word_ariths)
    moreover have "unat mmap < unat stop" using True by (simp add: word_less_nat_alt)
    ultimately have "unat stop - unat (mmap + me_size e + 4) < fuel"
      using Suc.prems by linarith
    then show ?thesis using Suc.IH[of "mmap + me_size e + 4"] True e(1) by auto
  qed simp
qed simp

section \<open>Properties\<close>

text \<open>A small state and memory map to evaluate the properties on: 8 MiB of usable memory.\<close>

definition sample_pmm :: pmm_state where
  "sample_pmm = pmm_boot\<lparr>mem_bitmap := 7 # replicate 8191 0, max_frames := 2048, free_mem_addr := 0x3000\<rparr>"

definition sample_mbd :: multiboot_info where
  "sample_mbd = \<lparr>flags = 64, mem_lower = 0, mem_upper = 0, boot_device = 0, cmdline = 0, mods_count = 0,
     mods_addr = 0, mb_num = 0, mb_size = 0, mb_addr = 0, mb_shndx = 0, mmap_length = 24, mmap_addr = 0x1000\<rparr>"

definition sample_map :: "u32 \<Rightarrow> machine" where
  "sample_map len = \<lparr>phys = put32 (put32 (put32 (\<lambda>_. 0) 0x1000 20) 0x100C len) 0x1014 1, cr0 = 0, cr3 = 0\<rparr>"

definition sample_entry :: "u32 \<Rightarrow> multiboot_mmap_entry" where
  "sample_entry len = \<lparr>me_size = 20, base_addr_low = 0, base_addr_high = 0, length_low = len,
     length_high = 0, me_type = 1\<rparr>"

lemma ld32_flat: "cr0 m = 0 \<Longrightarrow> ld32 m a = Inr (get32 (phys m) a)"
  by (simp add: ld32_def ld8_def translate_def paging_on_def get32_def)

lemma sample_walk: "mmap_entries (Suc (Suc 0)) (sample_map len) (0x1000 + 24) 0x1000 = Inr [sample_entry len]"
proof -
  have "aligned4 0x1000" "aligned4 0x1004" "aligned4 0x1008" "aligned4 0x100C" "aligned4 0x1010" "aligned4 0x1014"
    by (simp_all add: aligned4_def)
  moreover have "get32 (\<lambda>_. 0) a = 0" for a
    by (simp add: get32_def le32_def)
  ultimately have "read_mmap_entry (sample_map len) 0x1000 = Inr (sample_entry len)"
    by (simp add: read_mmap_entry_def ld32_flat sample_map_def sample_entry_def)
  then show ?thesis
    by (simp add: sample_entry_def)
qed

text \<open>
  C21: pmm_alloc_block hands out the least free frame below \<open>max_frames\<close>, marks exactly that
  frame as used and counts it; when there is none it answers 0 and changes nothing. The
  search never leaves the bitmap.
\<close>

theorem pmm_alloc_block_least:
  assumes "pmm_ok s"
  shows "pmm_alloc_block s =
    (if \<exists>f \<in> free_frames s. f < unat (max_frames s)
     then (let f = (LEAST f. f \<in> free_frames s)
           in Inr (of_nat f * 4096, (set_frame (of_nat f) s)\<lparr>allocated_memory := allocated_memory s + 4096\<rparr>))
     else Inr (0, s))"
  using assms
proof (cases rule: pmm_alloc_cases)
  case full
  then show ?thesis by (auto simp: not_less)
next
  case (frame f)
  then have "(LEAST f. f \<in> free_frames s) = f" by (intro Least_equality) auto
  then show ?thesis using frame by (auto simp: Let_def)
qed

theorem pmm_alloc_block_least_witness:
  "pmm_ok sample_pmm \<and> pmm_alloc_block sample_pmm =
    (if \<exists>f \<in> free_frames sample_pmm. f < unat (max_frames sample_pmm)
     then (let f = (LEAST f. f \<in> free_frames sample_pmm)
           in Inr (of_nat f * 4096, (set_frame (of_nat f) sample_pmm)\<lparr>allocated_memory := allocated_memory sample_pmm + 4096\<rparr>))
     else Inr (0, sample_pmm))"
  using pmm_alloc_block_least[of sample_pmm] by (simp add: pmm_ok_def sample_pmm_def pmm_boot_def)


lemma sample_used: "pmm_ok sample_pmm" "0 \<in> used_frames sample_pmm"
  by (simp_all add: pmm_ok_def sample_pmm_def pmm_boot_def used_frames_def NFRAMES_def bit_Suc)

lemma sample_alloc: "\<exists>s'. pmm_alloc_block sample_pmm = Inr (0x3000, s')"
  by (simp add: pmm_alloc_block_def sample_pmm_def pmm_boot_def find_zero_bit.simps pmm_set_bit_def Let_def)



lemma sample_boot_facts:
  "flags sample_mbd AND push_bit 6 1 \<noteq> 0"
  "mmap_entries (Suc (Suc 0)) (sample_map len) (mmap_addr sample_mbd + mmap_length sample_mbd) (mmap_addr sample_mbd)
     = Inr [sample_entry len]"
  "region (sample_entry len) = {..<unat len div 4096}"
  "unat (free_mem_addr pmm_boot) = 2097152" "kernel_frames pmm_boot = 512"
  using sample_walk[of len]
  by (auto simp: sample_mbd_def region_def sample_entry_def pmm_boot_def kernel_frames_def)


text \<open>
  C39: the two allocators alias. Boot leaves the bump pointer page aligned at the first frame
  init_pmm keeps free. The first frame pmm_alloc_block then hands out is the very frame the
  next kmalloc_a call answers with, although the first is still in use: kmalloc_a marks its
  frames in the bitmap but never looks at it. So the pairs the second run or spawn command
  makes (a file buffer from kmalloc_a after page frames from pmm_alloc_block) share memory.
\<close>

theorem pmm_then_kmalloc_alias:
  assumes "flags mbd AND push_bit 6 1 \<noteq> 0"
    and "mmap_entries fuel m (mmap_addr mbd + mmap_length mbd) (mmap_addr mbd) = Inr es"
    and "\<forall>e \<in> set es. region e \<subseteq> {..<NFRAMES}"
    and "unat (free_mem_addr s) mod 4096 = 0" "free_mem_addr s \<noteq> 0"
    and "unat (free_mem_addr s) div 4096 \<in> (\<Union>e \<in> set es. region e)"
  shows "\<exists>s' s1 s2. init_pmm fuel mbd m s = Inr s' \<and>
    pmm_alloc_block s' = Inr (free_mem_addr s, s1) \<and> kmalloc_a 4096 s1 = Inr (free_mem_addr s, s2)"
proof -
  let ?k = "unat (free_mem_addr s) div 4096"
  have k: "unat (free_mem_addr s) = ?k * 4096" using assms(4) by auto
  have kN: "?k < NFRAMES" using assms(3,6) by auto
  have kf: "kernel_frames s = ?k" unfolding kernel_frames_def by (subst k) simp
  have k0: "?k \<noteq> 0" using k assms(5) by (metis mult_zero_left unat_eq_zero)
  have le: "unat (free_mem_addr s) \<le> NFRAMES * 4096" using k kN by simp
  obtain s' where s': "init_pmm fuel mbd m s = Inr s'" "pmm_ok s'" "free_mem_addr s' = free_mem_addr s"
    "unat (max_frames s') = Max (insert (unat (max_frames s)) (region_end ` set es))"
    "free_frames s' = (\<Union>e \<in> set es. region e) - {0} - {..<?k}"
    using init_pmm_ok[OF assms(1-3) le, unfolded kf] by blast
  have kfree: "?k \<in> free_frames s'" using assms(6) s'(5) k0 by simp
  obtain e where e: "e \<in> set es" "?k \<in> region e" using assms(6) by blast
  then have "?k < region_end e" by (auto simp: region_def region_end_def split: if_splits)
  also have "region_end e \<le> unat (max_frames s')" using e s'(4) by simp
  finally have kmax: "?k < unat (max_frames s')" .
  have addr: "of_nat ?k * 4096 = free_mem_addr s"
    using frame_addr_nat(1)[OF kN] k by (simp add: word_unat_eq_iff)
  from s'(2) obtain s1 where s1: "pmm_alloc_block s' = Inr (free_mem_addr s, s1)" "pmm_ok s1" "free_mem_addr s1 = free_mem_addr s"
  proof (cases rule: pmm_alloc_cases)
    case full
    then show ?thesis using kfree kmax by auto
  next
    case (frame f)
    then have "f = ?k" using kfree s'(5) by (auto simp: not_less intro: le_antisym)
    then show ?thesis using that frame addr s' by simp
  qed
  have "free_mem_addr s AND 0xFFF = 0" using assms(4) by (simp add: word_unat_eq_iff page_mask_nat)
  then have "bump_addr s1 = free_mem_addr s" using s1(3) by (simp add: bump_addr_def)
  moreover have "unat (free_mem_addr s) + 4096 \<le> NFRAMES * 4096"
    using k kN by simp
  ultimately show ?thesis
    using kmalloc_a_eq[OF s1(2), of 4096] s' s1 by auto
qed

theorem pmm_then_kmalloc_alias_witness:
  "\<exists>s' s1 s2. init_pmm (Suc (Suc 0)) sample_mbd (sample_map 0x800000) pmm_boot = Inr s' \<and>
    pmm_alloc_block s' = Inr (free_mem_addr pmm_boot, s1) \<and> kmalloc_a 4096 s1 = Inr (free_mem_addr pmm_boot, s2)"
proof (rule pmm_then_kmalloc_alias[OF sample_boot_facts(1,2)])
  show "free_mem_addr pmm_boot \<noteq> 0" by (simp add: pmm_boot_def)
qed (simp_all add: sample_boot_facts NFRAMES_def)

text \<open>
  C40: the bitmap has room for 1 GiB only. A memory map with a usable region that reaches
  further makes init_pmm write outside \<open>mem_bitmap\<close>.
\<close>

theorem init_pmm_overruns_bitmap:
  assumes "flags mbd AND push_bit 6 1 \<noteq> 0"
    and "mmap_entries fuel m (mmap_addr mbd + mmap_length mbd) (mmap_addr mbd) = Inr es"
    and "e \<in> set es" "\<not> region e \<subseteq> {..<NFRAMES}"
  shows "\<exists>j. init_pmm fuel mbd m s = Inl (OutOfArray j)"
proof -
  have "pmm_ok (s\<lparr>mem_bitmap := replicate 8192 0xFFFFFFFF\<rparr>)" by (simp add: pmm_ok_def)
  then obtain j where "foldE pmm_free_region es (s\<lparr>mem_bitmap := replicate 8192 0xFFFFFFFF\<rparr>) = Inl (OutOfArray j)"
    using foldE_pmm_free_region_bad[of _ es] assms(3,4) by blast
  then show ?thesis
    using assms(1,2) by (simp add: init_pmm_def Let_def init_pmm_loop_entries)
qed

theorem init_pmm_overruns_bitmap_witness:
  "\<exists>j. init_pmm (Suc (Suc 0)) sample_mbd (sample_map 0x80000000) pmm_boot = Inl (OutOfArray j)"
  by (rule init_pmm_overruns_bitmap[OF sample_boot_facts(1,2), of "sample_entry 0x80000000"])
    (simp_all add: sample_boot_facts NFRAMES_def)

text \<open>
  The walk over the memory map ends. When every entry below the end of the map is
  readable and its size field does not carry the pointer around the address space, as many
  steps as the map has bytes, plus one, are enough, from any position of the pointer.
\<close>

theorem mmap_walk_terminates:
  assumes "\<And>a. a < stop \<Longrightarrow> \<exists>e. read_mmap_entry m a = Inr e \<and> unat a + unat (me_size e) + 4 < 4294967296"
    and "unat stop - unat mmap < fuel"
  shows "\<exists>t. init_memory_loop fuel m stop mmap tot = Inr t"
  using mmap_entries_enough_fuel[OF assms] init_memory_loop_entries by blast

theorem mmap_walk_terminates_witness:
  "\<exists>t. init_memory_loop 4121 \<lparr>phys = (\<lambda>_. 0), cr0 = 0, cr3 = 0\<rparr> 4120 4096 0 = Inr t"
proof (rule mmap_walk_terminates)
  fix a :: u32
  assume "a < 4120"
  then have "unat a < 4120" by (simp add: word_less_nat_alt)
  moreover have "get32 (\<lambda>_. 0) b = 0" for b
    by (simp add: get32_def le32_def)
  ultimately show "\<exists>e. read_mmap_entry \<lparr>phys = (\<lambda>_. 0), cr0 = 0, cr3 = 0\<rparr> a = Inr e \<and>
      unat a + unat (me_size e) + 4 < 4294967296"
    by (simp add: read_mmap_entry_def ld32_flat)
qed simp

end
