(* ===== verification/Paging.thy ===== *)
theory Paging
  imports Memory
begin

text \<open>
  The page tables of src/src/paging.c. The directory and the tables are words of machine
  memory that the kernel reads and writes through its own identity mapping, so every access
  below goes through the address translation it may be changing. \<open>ptes\<close> is the abstract view
  of a state: the page table entry of every virtual address; \<open>paging_ok\<close> is the invariant
  that makes map_page act on that view as a point update.
\<close>

section \<open>State and operations\<close>

record vm = platform +
  page_direc :: u32

definition load32 :: "u32 \<Rightarrow> 'a platform_scheme \<Rightarrow> u32 res" where
  "load32 a s = ld32 (mc s) a"

definition store32 :: "u32 \<Rightarrow> u32 \<Rightarrow> 'a platform_scheme \<Rightarrow> ('a platform_scheme) res" where
  "store32 a v s = bindE (st32 (mc s) a v) (\<lambda>m. Inr (s\<lparr>mc := m\<rparr>))"

definition required_pdes :: "u32 \<Rightarrow> u32" where
  "required_pdes total_mem =
     (let mapped_bytes = (if total_mem = 0 then 0x20000000 else total_mem);
          required = (mapped_bytes + 0x3FFFFF) div 0x400000
      in if required > 1024 then 1024 else required)"

text \<open>The body of the loop of init_paging: one page table of the identity mapping.\<close>

definition init_paging_table :: "nat \<Rightarrow> 'a vm_scheme \<Rightarrow> ('a vm_scheme) res" where
  "init_paging_table t s =
     bindE (kmalloc_a (1024 * 4) (pm s)) (\<lambda>(table, p).
     bindE (foldE (\<lambda>p. store32 (table + 4 * of_nat p) (((of_nat t * 1024 + of_nat p) * 0x1000) OR 7)) [0..<1024]
              (s\<lparr>pm := p\<rparr>)) (\<lambda>s1.
       store32 (page_direc s1 + 4 * of_nat t) (table OR 7) s1))"

definition init_paging :: "'a vm_scheme \<Rightarrow> ('a vm_scheme) res" where
  "init_paging s =
     bindE (kmalloc_a (1024 * 4) (pm s)) (\<lambda>(dir, p).
     bindE (foldE (\<lambda>i s. store32 (page_direc s + 4 * of_nat i) 0 s) [0..<1024] (s\<lparr>pm := p, page_direc := dir\<rparr>)) (\<lambda>s1.
     bindE (foldE init_paging_table [0..<unat (required_pdes (get_total_memory (pm s1)))] s1) (\<lambda>s2.
     let s3 = s2\<lparr>mc := (mc s2)\<lparr>cr3 := page_direc s2\<rparr>\<rparr>
     in Inr (s3\<lparr>mc := (mc s3)\<lparr>cr0 := cr0 (mc s3) OR 0x80000000\<rparr>\<rparr>))))"

text \<open>
  The loop of validate_user_region. It takes fuel because a C loop over a 32-bit counter could
  wrap around; the fuel passed below is always enough, as \<open>validate_user_region_iff\<close> shows.
\<close>

fun validate_loop :: "nat \<Rightarrow> u32 \<Rightarrow> u32 \<Rightarrow> 'a vm_scheme \<Rightarrow> int res" where
  "validate_loop 0 addr stop s = Inl StillRunning"
| "validate_loop (Suc fuel) addr stop s =
     (if addr < stop then
        (if pd_index addr \<ge> 1024 then Inr 0
         else bindE (load32 (page_direc s + 4 * pd_index addr) s) (\<lambda>pde.
           if pde AND 1 = 0 then Inr 0
           else bindE (load32 ((pde AND 0xFFFFF000) + 4 * pt_index addr) s) (\<lambda>pte.
             if pte AND 1 = 0 then Inr 0
             else if pte AND 4 = 0 then Inr 0
             else validate_loop fuel (addr + 0x1000) stop s)))
      else Inr 1)"

definition validate_user_region :: "u32 \<Rightarrow> u32 \<Rightarrow> 'a vm_scheme \<Rightarrow> int res" where
  "validate_user_region user_addr len s =
     (if len = 0 then Inr 1
      else if user_addr < 0x100000 \<or> user_addr \<ge> 0xC0000000 then Inr 0
      else
        (let stop = user_addr + len
         in if stop < user_addr \<or> stop > 0xC0000000 then Inr 0
            else validate_loop (Suc (Suc (unat len div 4096))) user_addr stop s))"

definition map_page :: "u32 \<Rightarrow> u32 \<Rightarrow> u32 \<Rightarrow> 'a vm_scheme \<Rightarrow> ('a vm_scheme) res" where
  "map_page physical_addr virtual_addr fl s =
     bindE (load32 (page_direc s + 4 * pd_index virtual_addr) s) (\<lambda>pde.
       if pde AND 1 = 0 then
         bindE (pmm_alloc_block (pm s)) (\<lambda>(pt_phys, p).
           let s1 = s\<lparr>pm := p\<rparr>
           in if pt_phys = 0 then
                Inr (kprint s1 (bytes ''map_page: pmm_alloc_block failed for page table\<newline>''))
              else
                bindE (store32 (page_direc s1 + 4 * pd_index virtual_addr) (pt_phys OR 7) s1) (\<lambda>s2.
                bindE (foldE (\<lambda>i. store32 (pt_phys + 4 * of_nat i) 0) [0..<1024] s2) (\<lambda>s3.
                  store32 (pt_phys + 4 * pt_index virtual_addr) (physical_addr OR fl OR 1) s3)))
       else
         store32 ((pde AND 0xFFFFF000) + 4 * pt_index virtual_addr) (physical_addr OR fl OR 1) s)"

definition get_pte :: "u32 \<Rightarrow> 'a vm_scheme \<Rightarrow> u32 res" where
  "get_pte virtual_addr s =
     bindE (load32 (page_direc s + 4 * pd_index virtual_addr) s) (\<lambda>pde.
       if pde AND 1 = 0 then Inr 0
       else load32 ((pde AND 0xFFFFF000) + 4 * pt_index virtual_addr) s)"

section \<open>The abstract view of the page tables\<close>

definition pte_at :: "mem \<Rightarrow> u32 \<Rightarrow> u32 \<Rightarrow> u32" where
  "pte_at p root va =
     (let pde = get32 p (entry_addr root (pd_index va))
      in if pde AND 1 = 0 then 0 else get32 p (entry_addr pde (pt_index va)))"

definition ptes :: "'a vm_scheme \<Rightarrow> u32 \<Rightarrow> u32" where
  "ptes s = pte_at (phys (mc s)) (page_direc s)"

text \<open>The directory points to distinct tables, none of which is the directory itself.\<close>

definition dir_ok :: "mem \<Rightarrow> u32 \<Rightarrow> bool" where
  "dir_ok p root \<longleftrightarrow>
     (\<forall>i. unat i < 1024 \<longrightarrow> get32 p (entry_addr root i) AND 1 \<noteq> 0 \<longrightarrow>
        frame (get32 p (entry_addr root i)) \<noteq> frame root \<and>
        (\<forall>j. unat j < 1024 \<longrightarrow> get32 p (entry_addr root j) AND 1 \<noteq> 0 \<longrightarrow>
           frame (get32 p (entry_addr root i)) = frame (get32 p (entry_addr root j)) \<longrightarrow> i = j))"

text \<open>
  The invariant, for an identity window of \<open>L\<close> frames: paging is on, the window is mapped to
  itself, and it holds the directory, the tables and every frame the allocator can hand out;
  the frames of the tables are marked as used.
\<close>

definition paging_ok :: "nat \<Rightarrow> 'a vm_scheme \<Rightarrow> bool" where
  "paging_ok L s \<longleftrightarrow>
     paging_on (mc s) \<and> cr3 (mc s) = page_direc s \<and> page_base (page_direc s) = page_direc s \<and>
     pmm_ok (pm s) \<and> 0 \<in> used_frames (pm s) \<and> unat (max_frames (pm s)) \<le> L \<and>
     dir_ok (phys (mc s)) (page_direc s) \<and>
     (\<forall>f \<in> table_frames (phys (mc s)) (page_direc s). unat f < L \<and> unat f \<in> used_frames (pm s)) \<and>
     (\<forall>a. unat (frame a) < L \<longrightarrow> ptes s a AND 1 \<noteq> 0 \<and> page_base (ptes s a) = page_base a)"

lemma page_walk_pte:
  "page_walk p root va = (if pte_at p root va AND 1 = 0 then None else Some (page_base (pte_at p root va) + (va AND 0xFFF)))"
  by (simp add: page_walk_def pte_at_def Let_def page_base_or)

lemma translate_ptes:
  assumes "paging_on (mc s)" "cr3 (mc s) = page_direc s"
  shows "translate (mc s) va =
    (if ptes s va AND 1 = 0 then Inl (PageFault va) else Inr (page_base (ptes s va) + (va AND 0xFFF)))"
  using assms by (simp add: translate_def page_walk_pte ptes_def)

lemma window_identity:
  assumes "paging_ok L s" "unat (frame a) < L"
  shows "translate (mc s) a = Inr a"
  using assms translate_ptes[of s a] page_split[of a] unfolding paging_ok_def by auto

lemma dir_entry: "page_base base = base \<Longrightarrow> base + 4 * i = entry_addr base i"
  by (simp add: entry_addr_def)

lemma table_entry: "(pde AND 0xFFFFF000) + 4 * i = entry_addr pde i"
  by (simp add: entry_addr_def page_base_def)

lemma load32_entry:
  assumes "translate (mc s) (entry_addr base i) = Inr (entry_addr base i)" "unat i < 1024"
  shows "load32 (entry_addr base i) s = Inr (get32 (phys (mc s)) (entry_addr base i))"
  using ld32_aligned[OF assms(1) entry_addr_props(1)[OF assms(2)]] by (simp add: load32_def)

lemma store32_ok: "translate (mc s) a = Inr a \<Longrightarrow>
  store32 a v s = Inr (s\<lparr>mc := (mc s)\<lparr>phys := put32 (phys (mc s)) a v\<rparr>\<rparr>)"
  by (simp add: store32_def st32_def)

lemma present_table:
  assumes "paging_ok L s" "get32 (phys (mc s)) (entry_addr (page_direc s) (pd_index va)) AND 1 \<noteq> 0"
  shows "frame (get32 (phys (mc s)) (entry_addr (page_direc s) (pd_index va))) \<in> table_frames (phys (mc s)) (page_direc s)"
  using assms pd_index_bound[of va] by (auto simp: table_frames_def)

lemma table_window:
  assumes "paging_ok L s" "frame base \<in> table_frames (phys (mc s)) (page_direc s)" "unat i < 1024"
  shows "translate (mc s) (entry_addr base i) = Inr (entry_addr base i)"
  using assms entry_addr_props(2)[OF assms(3), of base]
  by (intro window_identity[OF assms(1)]) (auto simp: paging_ok_def)

lemma load_pde:
  assumes "paging_ok L s"
  shows "load32 (page_direc s + 4 * pd_index va) s = Inr (get32 (phys (mc s)) (entry_addr (page_direc s) (pd_index va)))"
proof -
  have "page_direc s + 4 * pd_index va = entry_addr (page_direc s) (pd_index va)"
    using assms by (intro dir_entry) (simp add: paging_ok_def)
  moreover have "frame (page_direc s) \<in> table_frames (phys (mc s)) (page_direc s)"
    by (simp add: table_frames_def)
  ultimately show ?thesis
    using load32_entry table_window[OF assms] pd_index_bound by metis
qed

lemma load_pte:
  assumes "paging_ok L s" "pde = get32 (phys (mc s)) (entry_addr (page_direc s) (pd_index va))" "pde AND 1 \<noteq> 0"
  shows "load32 ((pde AND 0xFFFFF000) + 4 * pt_index va) s = Inr (ptes s va)"
  unfolding table_entry
  using load32_entry[OF table_window[OF assms(1) _ pt_index_bound] pt_index_bound, of pde va] present_table[OF assms(1)] assms
  by (simp add: ptes_def pte_at_def)

lemma get_pte_ptes: "paging_ok L s \<Longrightarrow> get_pte va s = Inr (ptes s va)"
  using load_pde[of L s va] load_pte[of L s _ va]
  by (simp add: get_pte_def) (simp add: ptes_def pte_at_def)

section \<open>Writing table entries\<close>

lemma put32_frame: "aligned4 a \<Longrightarrow> frame x \<noteq> frame a \<Longrightarrow> put32 p a v x = p x"
  using frame_add_small(1)[of a 0] frame_add_small(1)[of a 1] frame_add_small(1)[of a 2] frame_add_small(1)[of a 3]
  by (auto simp: put32_def)

lemma entry_put32:
  assumes "unat i < 1024" "unat j < 1024"
  shows "get32 (put32 p (entry_addr a i) v) (entry_addr b j) =
    (if frame a = frame b \<and> i = j then v else get32 p (entry_addr b j))"
proof (cases "entry_addr a i = entry_addr b j")
  case True
  then have "frame a = frame b \<and> i = j" using entry_addr_inj[OF assms] by blast
  then show ?thesis using get32_put32_same[of p "entry_addr b j" v] True by simp
next
  case False
  then show ?thesis
    using entry_addr_inj[OF assms] entry_addr_props(1)[OF assms(1)] entry_addr_props(1)[OF assms(2)] by auto
qed

text \<open>Changing one entry of a table that is in place.\<close>

lemma put_existing:
  fixes p root va v
  defines "pde \<equiv> get32 p (entry_addr root (pd_index va))"
  defines "p' \<equiv> put32 p (entry_addr pde (pt_index va)) v"
  assumes "dir_ok p root" "pde AND 1 \<noteq> 0"
  shows "unat i < 1024 \<Longrightarrow> get32 p' (entry_addr root i) = get32 p (entry_addr root i)"
    and "pte_at p' root x = (if frame x = frame va then v else pte_at p root x)"
proof -
  have nd: "frame pde \<noteq> frame root"
    using assms pd_index_bound[of va] by (auto simp: dir_ok_def)
  show dir: "get32 p' (entry_addr root i) = get32 p (entry_addr root i)" if "unat i < 1024" for i
    using nd that by (simp add: p'_def entry_put32 pt_index_bound)
  let ?e = "get32 p (entry_addr root (pd_index x))"
  have same: "frame ?e = frame pde \<longleftrightarrow> pd_index x = pd_index va" if "?e AND 1 \<noteq> 0"
    using that assms(3,4) pd_index_bound[of va] pd_index_bound[of x] unfolding dir_ok_def pde_def by metis
  show "pte_at p' root x = (if frame x = frame va then v else pte_at p root x)"
  proof (cases "?e AND 1 = 0")
    case True
    moreover have "frame x \<noteq> frame va" using True assms(4) by (auto simp: same_page_iff pde_def)
    ultimately show ?thesis by (simp add: pte_at_def dir pd_index_bound)
  next
    case False
    have "get32 p' (entry_addr ?e (pt_index x)) =
        (if frame x = frame va then v else get32 p (entry_addr ?e (pt_index x)))"
      unfolding p'_def entry_put32[OF pt_index_bound pt_index_bound] same_page_iff[of x va]
      using same[OF False] by auto
    then show ?thesis using False by (simp add: pte_at_def dir pd_index_bound Let_def)
  qed
qed

text \<open>
  Filling the words of a frame in order. The writes go through the current translation, so it
  must stay the identity on the frame whatever the frame holds.
\<close>

definition fill :: "mem \<Rightarrow> u32 \<Rightarrow> (nat \<Rightarrow> u32) \<Rightarrow> nat \<Rightarrow> mem" where
  "fill p base g n = fold (\<lambda>i p. put32 p (entry_addr base (of_nat i)) (g i)) [0..<n] p"

lemma fill_Suc: "fill p base g (Suc n) = put32 (fill p base g n) (entry_addr base (of_nat n)) (g n)"
  by (simp add: fill_def)

lemma small_index: "k < 1024 \<Longrightarrow> unat (of_nat k :: u32) = k"
  by (simp add: unat_of_nat)

lemma fill_props:
  assumes "n \<le> 1024"
  shows "frame x \<noteq> frame base \<Longrightarrow> fill p base g n x = p x"
    and "k < n \<Longrightarrow> get32 (fill p base g n) (entry_addr base (of_nat k)) = g k"
proof -
  show "fill p base g n x = p x" if "frame x \<noteq> frame base" for x
    using assms
  proof (induction n)
    case 0
    then show ?case by (simp add: fill_def)
  next
    case (Suc n)
    then have "unat (of_nat n :: u32) < 1024" by (simp add: small_index)
    from entry_addr_props[OF this] show ?case
      using Suc that by (simp add: fill_Suc put32_frame)
  qed
  show "get32 (fill p base g n) (entry_addr base (of_nat k)) = g k" if "k < n"
    using that assms
  proof (induction n)
    case 0
    then show ?case by simp
  next
    case (Suc n)
    have b: "unat (of_nat n :: u32) = n" "unat (of_nat k :: u32) = k"
      using Suc.prems by (simp_all add: small_index)
    then have "of_nat n = (of_nat k :: u32) \<longleftrightarrow> n = k" by metis
    then show ?case
      using Suc b by (simp add: fill_Suc entry_put32)
  qed
qed

lemma foldE_store_fill:
  assumes "\<And>p i. (\<And>x. frame x \<noteq> frame base \<Longrightarrow> p x = phys (mc s) x) \<Longrightarrow> i < 1024 \<Longrightarrow>
      translate ((mc s)\<lparr>phys := p\<rparr>) (entry_addr base (of_nat i)) = Inr (entry_addr base (of_nat i))"
    and "page_base base = base" "n \<le> 1024"
  shows "foldE (\<lambda>i. store32 (base + 4 * of_nat i) (g i)) [0..<n] s =
    Inr (s\<lparr>mc := (mc s)\<lparr>phys := fill (phys (mc s)) base g n\<rparr>\<rparr>)"
  using assms(3)
proof (induction n)
  case 0
  then show ?case by (simp add: fill_def)
next
  case (Suc n)
  let ?s1 = "s\<lparr>mc := (mc s)\<lparr>phys := fill (phys (mc s)) base g n\<rparr>\<rparr>"
  have "translate (mc ?s1) (entry_addr base (of_nat n)) = Inr (entry_addr base (of_nat n))"
    using assms(1)[of "fill (phys (mc s)) base g n" n] fill_props(1)[of n _ base] Suc.prems by simp
  then show ?case
    using Suc by (simp add: foldE_append dir_entry[OF assms(2)] store32_ok fill_Suc)
qed

lemma present_iff: "(x :: u32) AND 1 = 0 \<longleftrightarrow> \<not> bit x 0"
  using test_bit_zero[of x 0] by simp

lemma present_or [simp]: "(x OR 7 :: u32) AND 1 \<noteq> 0" "(x OR y OR 1 :: u32) AND 1 \<noteq> 0"
  by (simp_all add: present_iff bit_or_iff)

lemma frame_or7 [simp]: "frame (a OR 7) = frame a"
  by (simp add: frame_def)

text \<open>Installing a new table in the fresh frame \<open>F\<close>: \<open>p'\<close> is any content of \<open>F\<close> afterwards.\<close>

lemma put_new:
  fixes p root va F
  defines "p1 \<equiv> put32 p (entry_addr root (pd_index va)) (F OR 7)"
  assumes "get32 p (entry_addr root (pd_index va)) AND 1 = 0" "frame F \<notin> table_frames p root" "dir_ok p root"
    and p': "\<And>x. frame x \<noteq> frame F \<Longrightarrow> p' x = p1 x"
  shows "unat i < 1024 \<Longrightarrow> get32 p' (entry_addr root i) = (if i = pd_index va then F OR 7 else get32 p (entry_addr root i))"
    and "pte_at p' root x = (if pd_index x = pd_index va then get32 p' (entry_addr F (pt_index x)) else pte_at p root x)"
proof -
  have other: "get32 p' (entry_addr b i) = get32 p1 (entry_addr b i)" if "frame b \<noteq> frame F" "unat i < 1024" for b i
    using that entry_addr_props[OF that(2), of b] by (intro get32_frame_cong p') auto
  have nr: "frame root \<noteq> frame F" using assms(3) by (auto simp: table_frames_def)
  show dir: "get32 p' (entry_addr root i) = (if i = pd_index va then F OR 7 else get32 p (entry_addr root i))"
    if "unat i < 1024" for i
    using other[OF nr that] that by (auto simp: p1_def entry_put32 pd_index_bound)
  show "pte_at p' root x = (if pd_index x = pd_index va then get32 p' (entry_addr F (pt_index x)) else pte_at p root x)"
  proof (cases "pd_index x = pd_index va")
    case True
    moreover have "entry_addr (F OR 7) (pt_index x) = entry_addr F (pt_index x)"
      by (simp add: entry_addr_inj pt_index_bound)
    ultimately show ?thesis by (simp add: pte_at_def dir pd_index_bound Let_def)
  next
    case False
    let ?e = "get32 p (entry_addr root (pd_index x))"
    show ?thesis
    proof (cases "?e AND 1 = 0")
      case True
      then show ?thesis using False by (simp add: pte_at_def dir pd_index_bound)
    next
      case present: False
      then have "frame ?e \<in> table_frames p root" using pd_index_bound[of x] by (auto simp: table_frames_def)
      then have nF: "frame ?e \<noteq> frame F" using assms(3) by metis
      have "frame ?e \<noteq> frame root"
        using assms(4) present pd_index_bound[of x] by (auto simp: dir_ok_def)
      then have "get32 p1 (entry_addr ?e (pt_index x)) = get32 p (entry_addr ?e (pt_index x))"
        by (simp add: p1_def entry_put32 pd_index_bound pt_index_bound)
      then show ?thesis using present False other[OF nF pt_index_bound] by (simp add: pte_at_def dir pd_index_bound Let_def)
    qed
  qed
qed

section \<open>map_page on every branch\<close>

abbreviation pde_of :: "'a vm_scheme \<Rightarrow> u32 \<Rightarrow> u32" where
  "pde_of s va \<equiv> get32 (phys (mc s)) (entry_addr (page_direc s) (pd_index va))"

abbreviation with_phys :: "'a platform_scheme \<Rightarrow> mem \<Rightarrow> 'a platform_scheme" where
  "with_phys s p \<equiv> s\<lparr>mc := (mc s)\<lparr>phys := p\<rparr>\<rparr>"

lemma map_page_existing:
  assumes "paging_ok L s" "pde_of s va AND 1 \<noteq> 0"
  shows "map_page pa va fl s =
    Inr (with_phys s (put32 (phys (mc s)) (entry_addr (pde_of s va) (pt_index va)) (pa OR fl OR 1)))"
  using assms load_pde[OF assms(1), of va]
    store32_ok[OF table_window[OF assms(1) present_table[OF assms] pt_index_bound], of va]
  by (simp add: map_page_def table_entry)

lemma map_page_oom:
  assumes "paging_ok L s" "pde_of s va AND 1 = 0" "pmm_alloc_block (pm s) = Inr (0, p)"
  shows "map_page pa va fl s =
    Inr (kprint (s\<lparr>pm := p\<rparr>) (bytes ''map_page: pmm_alloc_block failed for page table\<newline>''))"
  using assms load_pde[OF assms(1), of va] by (simp add: map_page_def)

text \<open>The memory map_page leaves behind when it makes a new table in the frame at \<open>F\<close>.\<close>

definition new_table :: "mem \<Rightarrow> u32 \<Rightarrow> u32 \<Rightarrow> u32 \<Rightarrow> u32 \<Rightarrow> mem" where
  "new_table p root va F v =
     put32 (fill (put32 p (entry_addr root (pd_index va)) (F OR 7)) F (\<lambda>_. 0) 1024) (entry_addr F (pt_index va)) v"

lemma fresh_frame:
  assumes "paging_ok L s" "pmm_alloc_block (pm s) = Inr (F, p)" "F \<noteq> 0"
  shows "page_base F = F" "frame F \<notin> table_frames (phys (mc s)) (page_direc s)" "unat (frame F) < L"
    "pmm_ok p" "used_frames p = insert (unat (frame F)) (used_frames (pm s))" "max_frames p = max_frames (pm s)"
proof -
  have ok: "pmm_ok (pm s)" using assms(1) by (simp add: paging_ok_def)
  note fr = pmm.alloc_fresh[OF ok assms(2,3)]
  then show "page_base F = F" by (simp add: word_unat_eq_iff page_base_nat minus_mod_eq_div_mult[symmetric])
  show "frame F \<notin> table_frames (phys (mc s)) (page_direc s)"
    using fr assms(1) by (auto simp: paging_ok_def frame_nat)
  show "used_frames p = insert (unat (frame F)) (used_frames (pm s))"
    using fr by (simp add: frame_nat)
  show "pmm_ok p" using pmm.alloc_ok[OF ok assms(2)] .
  from ok show "unat (frame F) < L"
  proof (cases rule: pmm_alloc_cases)
    case (frame f)
    then have "F = of_nat f * 4096" "f < NFRAMES" using assms by (auto simp: free_frames_def)
    then have "unat (Machine.frame F) = f" by (simp add: frame_nat frame_addr_nat)
    then show ?thesis using frame(3) assms(1) by (simp add: paging_ok_def)
  qed (use assms in simp)
  from ok show "max_frames p = max_frames (pm s)"
    by (cases rule: pmm_alloc_cases) (use assms in auto)
qed

lemma window_not_absent:
  assumes "paging_ok L s" "pde_of s va AND 1 = 0" "unat (frame x) < L"
  shows "pd_index x \<noteq> pd_index va"
proof
  assume "pd_index x = pd_index va"
  then have "ptes s x = 0" using assms(2) by (simp add: ptes_def pte_at_def)
  then show False using assms by (auto simp: paging_ok_def)
qed

lemma map_page_new:
  assumes ok: "paging_ok L s" and absent: "pde_of s va AND 1 = 0"
    and alloc: "pmm_alloc_block (pm s) = Inr (F, p)" "F \<noteq> 0"
  shows "map_page pa va fl s =
    Inr (with_phys (s\<lparr>pm := p\<rparr>) (new_table (phys (mc s)) (page_direc s) va F (pa OR fl OR 1)))"
proof -
  let ?m = "phys (mc s)"
  let ?d = "page_direc s"
  let ?p1 = "put32 ?m (entry_addr ?d (pd_index va)) (F OR 7)"
  note fr = fresh_frame[OF ok alloc]
  have d: "?d + 4 * pd_index va = entry_addr ?d (pd_index va)"
    using ok by (intro dir_entry) (simp add: paging_ok_def)
  have td: "translate (mc s) (entry_addr ?d (pd_index va)) = Inr (entry_addr ?d (pd_index va))"
    by (rule table_window[OF ok _ pd_index_bound]) (simp add: table_frames_def)
  have tr: "translate ((mc s)\<lparr>phys := q\<rparr>) a = Inr a"
    if q: "\<And>x. frame x \<noteq> frame F \<Longrightarrow> q x = ?p1 x" and a: "frame a = frame F" for q a
  proof -
    have "pte_at q ?d a = pte_at ?m ?d a"
      using put_new(2)[OF absent fr(2) _ q, of a] window_not_absent[OF ok absent, of a] fr(3) a ok
      by (simp add: paging_ok_def)
    then have "page_walk q ?d a = page_walk ?m ?d a" by (simp add: page_walk_pte)
    then show ?thesis
      using window_identity[OF ok, of a] fr(3) a ok by (simp add: translate_def paging_on_def paging_ok_def)
  qed
  have fillF: "foldE (\<lambda>i. store32 (F + 4 * of_nat i) 0) [0..<1024] (with_phys (s\<lparr>pm := p\<rparr>) ?p1) =
      Inr (with_phys (s\<lparr>pm := p\<rparr>) (fill ?p1 F (\<lambda>_. 0) 1024))"
    using foldE_store_fill[of F "with_phys (s\<lparr>pm := p\<rparr>) ?p1" 1024 "\<lambda>_. 0"] tr fr(1)
    by (simp add: entry_addr_props small_index del: upt_rec_numeral upt_Suc)
  have e: "F + 4 * pt_index va = entry_addr F (pt_index va)"
    using fr(1) by (rule dir_entry)
  have tF: "translate ((mc s)\<lparr>phys := fill ?p1 F (\<lambda>_. 0) 1024\<rparr>) (entry_addr F (pt_index va)) = Inr (entry_addr F (pt_index va))"
    by (rule tr) (simp_all add: fill_props(1) entry_addr_props pt_index_bound)
  show ?thesis
    using absent load_pde[OF ok, of va] alloc td fillF tF
    by (simp add: map_page_def Let_def d e store32_ok new_table_def del: upt_rec_numeral upt_Suc)
qed

lemma new_table_dir:
  assumes "pde_of s va AND 1 = 0" "frame F \<notin> table_frames (phys (mc s)) (page_direc s)"
    "dir_ok (phys (mc s)) (page_direc s)" "unat i < 1024"
  shows "get32 (new_table (phys (mc s)) (page_direc s) va F v) (entry_addr (page_direc s) i) =
    (if i = pd_index va then F OR 7 else get32 (phys (mc s)) (entry_addr (page_direc s) i))"
  by (rule put_new(1)[OF assms(1-3) _ assms(4)])
    (simp add: new_table_def put32_frame fill_props(1) entry_addr_props pt_index_bound)

lemma new_table_ptes:
  assumes "pde_of s va AND 1 = 0" "frame F \<notin> table_frames (phys (mc s)) (page_direc s)"
    "dir_ok (phys (mc s)) (page_direc s)"
  shows "pte_at (new_table (phys (mc s)) (page_direc s) va F v) (page_direc s) x =
    (if frame x = frame va then v else ptes s x)"
proof -
  let ?n = "new_table (phys (mc s)) (page_direc s) va F v"
  have view: "pte_at ?n (page_direc s) x =
      (if pd_index x = pd_index va then get32 ?n (entry_addr F (pt_index x)) else ptes s x)"
    unfolding ptes_def
    by (rule put_new(2)[OF assms])
      (simp add: new_table_def put32_frame fill_props(1) entry_addr_props pt_index_bound)
  have "get32 ?n (entry_addr F (pt_index x)) = (if pt_index x = pt_index va then v else 0)"
    using fill_props(2)[of 1024 "unat (pt_index x)" _ F "\<lambda>_. 0"]
    by (simp add: new_table_def entry_put32 pt_index_bound eq_commute[of "pt_index va"])
  moreover have "ptes s x = 0" if "pd_index x = pd_index va"
    using assms(1) that by (simp add: ptes_def pte_at_def)
  ultimately show ?thesis using view by (auto simp: same_page_iff)
qed

text \<open>The tables after a change of the directory's entries.\<close>

lemma dir_change:
  assumes "dir_ok p root" "frame F \<notin> table_frames p root"
    and d: "\<And>i. unat i < 1024 \<Longrightarrow> get32 p' (entry_addr root i) = (if i = k then F OR 7 else get32 p (entry_addr root i))"
  shows "dir_ok p' root" "table_frames p' root \<subseteq> insert (frame F) (table_frames p root)"
proof -
  have new: "frame (get32 p (entry_addr root i)) \<noteq> frame F" "frame F \<noteq> frame root"
    if "unat i < 1024" "get32 p (entry_addr root i) AND 1 \<noteq> 0" for i
    using assms(2) that by (auto simp: table_frames_def)
  have nr: "frame F \<noteq> frame root" using assms(2) by (auto simp: table_frames_def)
  show "dir_ok p' root"
    unfolding dir_ok_def
  proof (intro allI impI conjI)
    fix i :: u32
    assume i: "unat i < 1024" "get32 p' (entry_addr root i) AND 1 \<noteq> 0"
    show "frame (get32 p' (entry_addr root i)) \<noteq> frame root"
      using i nr assms(1) by (auto simp: d dir_ok_def split: if_splits)
    fix j :: u32
    assume j: "unat j < 1024" "get32 p' (entry_addr root j) AND 1 \<noteq> 0"
      "frame (get32 p' (entry_addr root i)) = frame (get32 p' (entry_addr root j))"
    show "i = j"
      using i j new(1)[of i] new(1)[of j] assms(1) by (auto simp: d dir_ok_def split: if_splits)
  qed
  show "table_frames p' root \<subseteq> insert (frame F) (table_frames p root)"
    by (auto simp: table_frames_def d split: if_splits)
qed

definition map_oom :: "u32 \<Rightarrow> 'a vm_scheme \<Rightarrow> bool" where
  "map_oom va s \<longleftrightarrow> pde_of s va AND 1 = 0 \<and> (\<forall>f \<in> free_frames (pm s). unat (max_frames (pm s)) \<le> f)"

text \<open>What a successful map_page does: a point update of the abstract view, and what it keeps.\<close>

definition map_post :: "nat \<Rightarrow> u32 \<Rightarrow> u32 \<Rightarrow> 'a vm_scheme \<Rightarrow> 'a vm_scheme \<Rightarrow> bool" where
  "map_post L va v s s' \<longleftrightarrow>
     page_direc s' = page_direc s \<and> scr s' = scr s \<and> vm.more s' = vm.more s \<and> used_frames (pm s) \<subseteq> used_frames (pm s') \<and>
     max_frames (pm s') = max_frames (pm s) \<and> (\<exists>f. used_frames (pm s') \<subseteq> insert f (used_frames (pm s))) \<and>
     (\<forall>x. ptes s' x = (if frame x = frame va then v else ptes s x)) \<and>
     (\<forall>x. frame x \<notin> table_frames (phys (mc s')) (page_direc s) \<longrightarrow> phys (mc s') x = phys (mc s) x) \<and>
     table_frames (phys (mc s)) (page_direc s) \<subseteq> table_frames (phys (mc s')) (page_direc s) \<and>
     (\<forall>f \<in> table_frames (phys (mc s')) (page_direc s).
        f \<in> table_frames (phys (mc s)) (page_direc s) \<or> unat f \<notin> used_frames (pm s)) \<and>
     (L \<le> unat (frame va) \<longrightarrow> paging_ok L s')"

lemma map_post_existing:
  assumes ok: "paging_ok L s" and present: "pde_of s va AND 1 \<noteq> 0"
  shows "map_post L va v s (with_phys s (put32 (phys (mc s)) (entry_addr (pde_of s va) (pt_index va)) v))"
proof -
  let ?p' = "put32 (phys (mc s)) (entry_addr (pde_of s va) (pt_index va)) v"
  have dok: "dir_ok (phys (mc s)) (page_direc s)" using ok by (simp add: paging_ok_def)
  note ex = put_existing[OF dok present]
  have dir: "get32 ?p' (entry_addr (page_direc s) i) = get32 (phys (mc s)) (entry_addr (page_direc s) i)"
    if "unat i < 1024" for i using ex(1)[OF that] .
  have view: "ptes (with_phys s ?p') x = (if frame x = frame va then v else ptes s x)" for x
    using ex(2)[of v x] by (simp add: ptes_def)
  have dok': "dir_ok ?p' (page_direc s)" using dok unfolding dir_ok_def by (simp add: dir)
  have tf: "table_frames ?p' (page_direc s) = table_frames (phys (mc s)) (page_direc s)"
    by (auto simp: table_frames_def dir) (metis dir)+
  have other: "?p' x = phys (mc s) x" if "frame x \<notin> table_frames (phys (mc s)) (page_direc s)" for x
    by (rule put32_frame)
      (use that present_table[OF ok present] entry_addr_props[OF pt_index_bound, of "pde_of s va" va] in \<open>auto simp del: put32_frame\<close>)
  show ?thesis
    using ok view dok' tf other by (auto simp: map_post_def paging_ok_def paging_on_def)
qed

lemma map_post_new:
  assumes ok: "paging_ok L s" and absent: "pde_of s va AND 1 = 0"
    and alloc: "pmm_alloc_block (pm s) = Inr (F, p)" "F \<noteq> 0"
  shows "map_post L va v s (with_phys (s\<lparr>pm := p\<rparr>) (new_table (phys (mc s)) (page_direc s) va F v))"
proof -
  let ?n = "new_table (phys (mc s)) (page_direc s) va F v"
  let ?T = "table_frames (phys (mc s)) (page_direc s)"
  note fr = fresh_frame[OF ok alloc]
  have dok: "dir_ok (phys (mc s)) (page_direc s)" using ok by (simp add: paging_ok_def)
  have dir: "get32 ?n (entry_addr (page_direc s) i) =
      (if i = pd_index va then F OR 7 else get32 (phys (mc s)) (entry_addr (page_direc s) i))" if "unat i < 1024" for i
    using new_table_dir[OF absent fr(2) dok that] .
  note dc = dir_change[OF dok fr(2) dir]
  have inF: "frame F \<in> table_frames ?n (page_direc s)"
    using dir[OF pd_index_bound, of va] pd_index_bound[of va] by (force simp: table_frames_def)
  have sub: "?T \<subseteq> table_frames ?n (page_direc s)"
    using absent by (auto simp: table_frames_def) (metis dir)
  have view: "ptes (with_phys (s\<lparr>pm := p\<rparr>) ?n) x = (if frame x = frame va then v else ptes s x)" for x
    using new_table_ptes[OF absent fr(2) dok] by (simp add: ptes_def)
  have other: "?n x = phys (mc s) x" if "frame x \<notin> table_frames ?n (page_direc s)" for x
  proof -
    have "frame x \<noteq> frame F" using that inF by metis
    moreover have "frame x \<noteq> frame (page_direc s)" using that by (auto simp: table_frames_def)
    ultimately show ?thesis
      by (simp add: new_table_def put32_frame fill_props(1) entry_addr_props pt_index_bound pd_index_bound)
  qed
  have "\<forall>f \<in> table_frames ?n (page_direc s). unat f < L \<and> unat f \<in> used_frames p"
    using dc(2) fr(3,5) ok by (auto simp: paging_ok_def)
  moreover have "\<forall>f \<in> table_frames ?n (page_direc s). f \<in> ?T \<or> unat f \<notin> used_frames (pm s)"
    using dc(2) pmm.alloc_fresh[OF _ alloc] ok by (auto simp: paging_ok_def frame_nat)
  ultimately show ?thesis
    using ok view dc(1) other sub fr(4-6) by (auto simp: map_post_def paging_ok_def paging_on_def)
qed

lemma map_page_spec:
  assumes ok: "paging_ok L s"
  shows "\<exists>s'. map_page pa va fl s = Inr s' \<and>
    (if map_oom va s then s' = kprint s (bytes ''map_page: pmm_alloc_block failed for page table\<newline>'')
     else map_post L va (pa OR fl OR 1) s s')"
proof (cases "pde_of s va AND 1 = 0")
  case False
  then show ?thesis
    using map_page_existing[OF ok False, of pa fl] map_post_existing[OF ok False]
    by (simp add: map_oom_def)
next
  case absent: True
  have pok: "pmm_ok (pm s)" "0 \<in> used_frames (pm s)" using ok by (simp_all add: paging_ok_def)
  from pok(1) show ?thesis
  proof (cases rule: pmm_alloc_cases)
    case full
    then have "map_oom va s" using absent by (simp add: map_oom_def)
    then show ?thesis using map_page_oom[OF ok absent full(1), of pa fl] by (simp add: kprint_def)
  next
    case (frame f)
    have "f < NFRAMES" "f \<noteq> 0" using frame(2) pok(2) by (auto simp: free_frames_def intro: gr0I)
    then have F0: "of_nat f * 4096 \<noteq> (0 :: u32)" using frame_addr_nat(1)[of f] by auto
    have "\<not> map_oom va s" using frame(2,3) by (auto simp: map_oom_def not_le)
    then show ?thesis
      using map_page_new[OF ok absent frame(1) F0, of pa fl] map_post_new[OF ok absent frame(1) F0] by auto
  qed
qed

section \<open>validate_user_region\<close>

definition user_page :: "'a vm_scheme \<Rightarrow> u32 \<Rightarrow> bool" where
  "user_page s va \<longleftrightarrow> ptes s va AND 1 \<noteq> 0 \<and> ptes s va AND 4 \<noteq> 0"

lemma validate_step:
  assumes "paging_ok L s" "addr < stop"
  shows "validate_loop (Suc fuel) addr stop s =
    (if user_page s addr then validate_loop fuel (addr + 0x1000) stop s else Inr 0)"
proof -
  have "\<not> pd_index addr \<ge> 1024"
    using pd_index_bound[of addr] by (simp add: word_le_nat_alt)
  moreover have "ptes s addr = 0" if "pde_of s addr AND 1 = 0"
    using that by (simp add: ptes_def pte_at_def)
  ultimately show ?thesis
    using assms(2) load_pde[OF assms(1), of addr] load_pte[OF assms(1) refl, of addr]
    by (auto simp: user_page_def)
qed

lemma validate_loop_iff:
  assumes "paging_ok L s" "unat stop \<le> 0xC0000000" "unat stop \<le> unat addr + 4096 * n" "unat addr < 0xC0001000"
  shows "validate_loop (Suc n) addr stop s =
    Inr (if \<forall>k. unat addr + 4096 * k < unat stop \<longrightarrow> user_page s (addr + of_nat (4096 * k)) then 1 else 0)"
  using assms(3,4)
proof (induction n arbitrary: addr)
  case 0
  then show ?case by (simp add: word_less_nat_alt)
next
  case (Suc n)
  show ?case
  proof (cases "addr < stop")
    case False
    then show ?thesis by (simp add: word_less_nat_alt)
  next
    case True
    then have lt: "unat addr < unat stop" by (simp add: word_less_nat_alt)
    have next_addr: "unat (addr + 0x1000) = unat addr + 4096"
      using lt assms(2) by (subst unat_add_small) simp_all
    have split: "(\<forall>k. unat addr + 4096 * k < unat stop \<longrightarrow> user_page s (addr + of_nat (4096 * k))) \<longleftrightarrow>
        user_page s addr \<and>
        (\<forall>k. unat addr + 4096 + 4096 * k < unat stop \<longrightarrow> user_page s (addr + 0x1000 + of_nat (4096 * k)))"
      (is "(\<forall>k. ?Q k) \<longleftrightarrow> _ \<and> (\<forall>k. ?R k)")
    proof -
      have "?Q (Suc k) \<longleftrightarrow> ?R k" for k
        by (simp add: algebra_simps)
      moreover have "?Q 0 \<longleftrightarrow> user_page s addr" using lt by simp
      ultimately show ?thesis by (metis not0_implies_Suc)
    qed
    show ?thesis
      unfolding validate_step[OF assms(1) True] split
      using Suc.IH[of "addr + 0x1000"] Suc.prems lt assms(2) by (simp add: next_addr)
  qed
qed

lemma user_page_cong: "frame x = frame y \<Longrightarrow> user_page s x = user_page s y"
  by (simp add: user_page_def ptes_def pte_at_def same_page_iff Let_def)

lemma offset_frame:
  assumes "unat a mod 4096 = 0" "unat a + i < 4294967296"
  shows "frame (a + of_nat i) = frame (a + of_nat (4096 * (i div 4096)))"
proof -
  have add: "unat (a + of_nat j) = unat a + j" if "j \<le> i" for j
    using assms(2) that by (subst unat_add_small) (simp_all add: unat_of_nat)
  have u: "unat (a + of_nat i) = unat a + i"
    "unat (a + of_nat (4096 * (i div 4096))) = unat a + 4096 * (i div 4096)"
    using add[of i] add[of "4096 * (i div 4096)"] by simp_all
  obtain q where q: "unat a = 4096 * q" using assms(1) by auto
  have "(4096 * q + i) div 4096 = (4096 * q + 4096 * (i div 4096)) div 4096" by simp
  then show ?thesis unfolding word_unat_eq_iff frame_nat u q .
qed

text \<open>validate_user_region never faults, always ends, and checks the page of every 4096th byte.\<close>

lemma validate_user_region_iff:
  assumes "paging_ok L s"
  shows "validate_user_region a len s = Inr
    (if len = 0 \<or> (0x100000 \<le> unat a \<and> unat a + unat len \<le> 0xC0000000 \<and>
        (\<forall>k. 4096 * k < unat len \<longrightarrow> user_page s (a + of_nat (4096 * k)))) then 1 else 0)"
proof (cases "len = 0 \<or> a < 0x100000 \<or> a \<ge> 0xC0000000")
  case True
  then have "\<not> (0x100000 \<le> unat a \<and> unat a + unat len \<le> 0xC0000000)" if "len \<noteq> 0"
    using that unat_eq_zero[of len] by (auto simp: word_less_nat_alt word_le_nat_alt simp del: unat_eq_zero)
  then show ?thesis using True by (auto simp: validate_user_region_def)
next
  case False
  let ?stop = "a + len"
  have lo: "0x100000 \<le> unat a" "unat a < 0xC0000000" "0 < unat len"
    using False by (simp_all add: word_less_nat_alt word_le_nat_alt unat_gt_0)
  show ?thesis
  proof (cases "unat a + unat len \<le> 0xC0000000")
    case True
    then have stop: "unat ?stop = unat a + unat len" by (intro unat_add_small) simp
    have "unat ?stop \<le> unat a + 4096 * Suc (unat len div 4096)"
      unfolding stop by (simp add: dividend_less_times_div less_imp_le)
    from validate_loop_iff[OF assms _ this] True lo stop
    show ?thesis
      using False by (simp add: validate_user_region_def Let_def word_less_nat_alt)
  next
    case big: False
    have "?stop < a \<or> ?stop > 0xC0000000"
    proof (cases "unat a + unat len < 4294967296")
      case True
      then show ?thesis using big unat_add_small[OF True] by (simp add: word_less_nat_alt)
    next
      case False
      then have "unat ?stop = unat a + unat len - 4294967296"
        using u32_bound[of a] u32_bound[of len] by (simp add: unat_word_ariths mod_if)
      then have "unat ?stop < unat a" using u32_bound[of len] lo by linarith
      then show ?thesis by (simp add: word_less_nat_alt)
    qed
    then show ?thesis using False big by (simp add: validate_user_region_def Let_def)
  qed
qed

section \<open>init_paging\<close>

text \<open>The frames init_paging takes: the directory is frame \<open>d\<close>, table \<open>t\<close> is frame \<open>d + 1 + t\<close>.\<close>

definition boot_frame :: "nat \<Rightarrow> u32" where
  "boot_frame f = of_nat f * 4096"

lemma boot_frame_nat: "f < NFRAMES \<Longrightarrow> unat (boot_frame f) = f * 4096"
  by (simp add: boot_frame_def frame_addr_nat)

lemma boot_frame_props:
  assumes "f < NFRAMES"
  shows "page_base (boot_frame f) = boot_frame f" "unat (frame (boot_frame f)) = f"
  using boot_frame_nat[OF assms] by (simp_all add: word_unat_eq_iff page_base_nat frame_nat)

lemma boot_frame_inj: "f < NFRAMES \<Longrightarrow> g < NFRAMES \<Longrightarrow> frame (boot_frame f) = frame (boot_frame g) \<longleftrightarrow> f = g"
  using boot_frame_props(2) by metis

text \<open>The state after \<open>n\<close> tables of the identity mapping are in place.\<close>

definition boot_tables :: "nat \<Rightarrow> nat \<Rightarrow> 'a vm_scheme \<Rightarrow> 'a vm_scheme \<Rightarrow> bool" where
  "boot_tables d n s0 s \<longleftrightarrow>
     scr s = scr s0 \<and> vm.more s = vm.more s0 \<and> cr0 (mc s) = cr0 (mc s0) \<and> cr3 (mc s) = cr3 (mc s0) \<and>
     page_direc s = boot_frame d \<and> pmm_ok (pm s) \<and> max_frames (pm s) = max_frames (pm s0) \<and>
     total_memory (pm s) = total_memory (pm s0) \<and>
     free_mem_addr (pm s) = boot_frame (d + 1 + n) \<and>
     used_frames (pm s) = used_frames (pm s0) \<union> {d..d + n} \<and>
     (\<forall>i < 1024. get32 (phys (mc s)) (entry_addr (boot_frame d) (of_nat i)) =
        (if i < n then boot_frame (d + 1 + i) OR 7 else 0)) \<and>
     (\<forall>i < n. \<forall>p < 1024. get32 (phys (mc s)) (entry_addr (boot_frame (d + 1 + i)) (of_nat p)) =
        (of_nat i * 1024 + of_nat p) * 0x1000 OR 7) \<and>
     (\<forall>x. unat (frame x) \<notin> {d..d + n} \<longrightarrow> phys (mc s) x = phys (mc s0) x)"

lemma flat_translate: "\<not> paging_on m \<Longrightarrow> translate m a = Inr a"
  by (simp add: translate_def)

lemma bump_page:
  assumes "pmm_ok p" "bump_addr p = boot_frame f" "Suc f < NFRAMES"
  obtains p' where "kmalloc_a (1024 * 4) p = Inr (boot_frame f, p')" "pmm_ok p'"
    "free_mem_addr p' = boot_frame (Suc f)" "max_frames p' = max_frames p" "total_memory p' = total_memory p"
    "used_frames p' = insert f (used_frames p)"
proof -
  have u: "unat (boot_frame f) = f * 4096" using assms(3) by (simp add: boot_frame_nat)
  have le: "unat (bump_addr p) + unat (1024 * 4 :: u32) \<le> NFRAMES * 4096"
    using assms by (simp add: u NFRAMES_def)
  obtain p' where p': "kmalloc_a (1024 * 4) p = Inr (boot_frame f, p')" "total_memory p' = total_memory p"
    using kmalloc_a_eq[OF assms(1) _ le] assms(2) by (simp del: upt_Suc)
  have pos: "0 < unat (1024 * 4 :: u32)" by simp
  note us = kmalloc_a_used[OF assms(1) pos le p'(1)]
  have "free_mem_addr p' = boot_frame (Suc f)"
    using us(3) assms(2) by (simp add: boot_frame_def algebra_simps)
  moreover have "used_frames p' = insert f (used_frames p)"
    using us(5) by (auto simp: u)
  ultimately show ?thesis
    using that[of p'] p' us by simp
qed

lemma bump_addr_page: "free_mem_addr p = boot_frame f \<Longrightarrow> f < NFRAMES \<Longrightarrow> bump_addr p = boot_frame f"
  using boot_frame_nat[of f] by (simp add: bump_addr_def word_unat_eq_iff page_mask_nat)

lemma init_paging_table_step:
  assumes inv: "boot_tables d n s0 s" and off: "\<not> paging_on (mc s0)" and n: "n < 1024" "d + n + 2 < NFRAMES"
  shows "\<exists>s'. init_paging_table n s = Inr s' \<and> boot_tables d (Suc n) s0 s'"
proof -
  let ?m = "phys (mc s)"
  let ?T = "boot_frame (d + 1 + n)"
  let ?g = "\<lambda>p. ((of_nat n * 1024 + of_nat p) * 0x1000 OR 7) :: u32"
  let ?p1 = "fill ?m ?T ?g 1024"
  let ?p2 = "put32 ?p1 (entry_addr (boot_frame d) (of_nat n)) (?T OR 7)"
  have off': "\<not> paging_on ((mc s)\<lparr>phys := q\<rparr>)" "\<not> paging_on (mc s)" for q
    using inv off by (simp_all add: boot_tables_def paging_on_def)
  have small: "d < NFRAMES" "d + 1 + n < NFRAMES" "Suc (d + 1 + n) < NFRAMES" using n(2) by simp_all
  have "bump_addr (pm s) = ?T" using inv small by (intro bump_addr_page) (simp_all add: boot_tables_def)
  from bump_page[OF _ this small(3)] inv
  obtain p' where p': "kmalloc_a (1024 * 4) (pm s) = Inr (?T, p')" "pmm_ok p'"
    "free_mem_addr p' = boot_frame (Suc (d + 1 + n))" "max_frames p' = max_frames (pm s)"
    "total_memory p' = total_memory (pm s)" "used_frames p' = insert (d + 1 + n) (used_frames (pm s))"
    by (auto simp: boot_tables_def)
  have fillT: "foldE (\<lambda>p. store32 (?T + 4 * of_nat p) (?g p)) [0..<1024] (s\<lparr>pm := p'\<rparr>) =
      Inr (with_phys (s\<lparr>pm := p'\<rparr>) ?p1)"
    using foldE_store_fill[of ?T "s\<lparr>pm := p'\<rparr>" 1024 ?g] boot_frame_props(1)[OF small(2)] off'(1)
    by (simp add: flat_translate del: upt_rec_numeral upt_Suc)
  have dir: "boot_frame d + 4 * of_nat n = entry_addr (boot_frame d) (of_nat n)"
    by (rule dir_entry) (rule boot_frame_props(1)[OF small(1)])
  have run: "init_paging_table n s = Inr (with_phys (s\<lparr>pm := p'\<rparr>) ?p2)"
    using p'(1) fillT inv off'(1)
    by (simp add: init_paging_table_def store32_ok flat_translate dir boot_tables_def del: upt_rec_numeral upt_Suc)
  have ix: "unat (of_nat k :: u32) = k" if "k < 1024" for k using that by (rule small_index)
  have ix_eq: "of_nat j = (of_nat k :: u32) \<longleftrightarrow> j = k" if "j < 1024" "k < 1024" for j k
    using ix[OF that(1)] ix[OF that(2)] by metis
  have keep: "get32 ?p1 (entry_addr b (of_nat k)) = get32 ?m (entry_addr b (of_nat k))"
    if "frame b \<noteq> frame ?T" "k < 1024" for b k
    using that entry_addr_props[of "of_nat k" b] ix by (intro get32_frame_cong fill_props(1)) auto
  have dirs: "get32 ?p2 (entry_addr (boot_frame d) (of_nat i)) = (if i < Suc n then boot_frame (d + 1 + i) OR 7 else 0)"
    if i: "i < 1024" for i
  proof -
    have "frame (boot_frame d) \<noteq> frame ?T" using boot_frame_inj[of d "d + 1 + n"] small by simp
    then have "get32 ?p1 (entry_addr (boot_frame d) (of_nat i)) = (if i < n then boot_frame (d + 1 + i) OR 7 else 0)"
      using keep[OF _ i] inv i by (simp add: boot_tables_def)
    then show ?thesis
      using i n(1) by (auto simp: entry_put32 ix ix_eq less_Suc_eq)
  qed
  have tabs: "get32 ?p2 (entry_addr (boot_frame (d + 1 + i)) (of_nat p)) = (of_nat i * 1024 + of_nat p) * 0x1000 OR 7"
    if "i < Suc n" "p < 1024" for i p
  proof -
    have "frame (boot_frame d) \<noteq> frame (boot_frame (d + 1 + i))"
      using boot_frame_inj[of d "d + 1 + i"] small that(1) by simp
    then have e: "get32 ?p2 (entry_addr (boot_frame (d + 1 + i)) (of_nat p)) = get32 ?p1 (entry_addr (boot_frame (d + 1 + i)) (of_nat p))"
      using that n(1) by (simp add: entry_put32 ix)
    show ?thesis
    proof (cases "i = n")
      case True
      then show ?thesis unfolding e using fill_props(2)[of 1024 p ?m ?T ?g] that(2) by simp
    next
      case False
      then have "frame (boot_frame (d + 1 + i)) \<noteq> frame ?T"
        using boot_frame_inj[of "d + 1 + i" "d + 1 + n"] small that(1) by simp
      then show ?thesis unfolding e using keep[OF _ that(2)] inv that False by (simp add: boot_tables_def)
    qed
  qed
  have rest: "?p2 x = phys (mc s0) x" if x: "unat (frame x) \<notin> {d..d + Suc n}" for x
  proof -
    have "frame x \<noteq> frame (boot_frame d)" "frame x \<noteq> frame ?T"
      using x boot_frame_props(2)[OF small(1)] boot_frame_props(2)[OF small(2)] by auto
    then have "?p2 x = ?m x"
      using n(1) by (simp add: put32_frame fill_props(1) entry_addr_props ix)
    moreover have "unat (frame x) \<notin> {d..d + n}" using x by auto
    ultimately show ?thesis using inv unfolding boot_tables_def by metis
  qed
  have "{d..d + Suc n} = insert (d + 1 + n) {d..d + n}" by auto
  then have "boot_tables d (Suc n) s0 (with_phys (s\<lparr>pm := p'\<rparr>) ?p2)"
    using inv p' dirs tabs rest by (simp add: boot_tables_def)
  then show ?thesis using run by blast
qed

lemma init_paging_tables:
  assumes "boot_tables d k s0 s" "\<not> paging_on (mc s0)" "k + n \<le> 1024" "d + k + n + 1 < NFRAMES"
  shows "\<exists>s'. foldE init_paging_table [k..<k + n] s = Inr s' \<and> boot_tables d (k + n) s0 s'"
  using assms
proof (induction n)
  case 0
  then show ?case by simp
next
  case (Suc n)
  then obtain s1 where s1: "foldE init_paging_table [k..<k + n] s = Inr s1" "boot_tables d (k + n) s0 s1" by auto
  then obtain s2 where "init_paging_table (k + n) s1 = Inr s2" "boot_tables d (Suc (k + n)) s0 s2"
    using init_paging_table_step[OF s1(2)] Suc.prems by auto
  then show ?case using s1 by (simp add: foldE_append)
qed

lemma required_pdes_bound: "unat (required_pdes t) \<le> 1024"
  by (auto simp: required_pdes_def Let_def word_less_nat_alt)

lemma init_paging_spec:
  assumes "\<not> paging_on (mc s)" "pmm_ok (pm s)" "bump_addr (pm s) = boot_frame d"
    and "d + unat (required_pdes (total_memory (pm s))) + 1 < NFRAMES"
  shows "\<exists>s1. boot_tables d (unat (required_pdes (total_memory (pm s)))) s s1 \<and>
    init_paging s = Inr (s1\<lparr>mc := (mc s1)\<lparr>cr3 := boot_frame d, cr0 := cr0 (mc s) OR 0x80000000\<rparr>\<rparr>)"
proof -
  let ?n = "unat (required_pdes (total_memory (pm s)))"
  let ?D = "boot_frame d"
  have small: "d < NFRAMES" "Suc d < NFRAMES" using assms(4) by simp_all
  obtain p' where p': "kmalloc_a (1024 * 4) (pm s) = Inr (?D, p')" "pmm_ok p'" "free_mem_addr p' = boot_frame (Suc d)"
    "max_frames p' = max_frames (pm s)" "total_memory p' = total_memory (pm s)"
    "used_frames p' = insert d (used_frames (pm s))"
    by (rule bump_page[OF assms(2,3) small(2)])
  let ?s1 = "s\<lparr>pm := p', page_direc := ?D\<rparr>"
  let ?s2 = "with_phys ?s1 (fill (phys (mc s)) ?D (\<lambda>_. 0) 1024)"
  have off: "\<not> paging_on ((mc s)\<lparr>phys := q\<rparr>)" for q using assms(1) by (simp add: paging_on_def)
  have pd: "foldE (\<lambda>i s. store32 (page_direc s + 4 * of_nat i) 0 s) xs u =
      foldE (\<lambda>i. store32 (?D + 4 * of_nat i) 0) xs u" if "page_direc u = ?D" for xs and u :: "'a vm_scheme"
    using that
  proof (induction xs arbitrary: u)
    case (Cons x xs)
    show ?case
      using Cons by (cases "store32 (?D + 4 * of_nat x) 0 u") (auto simp: store32_def bindE_eq_Inr)
  qed simp
  have "foldE (\<lambda>i s. store32 (page_direc s + 4 * of_nat i) 0 s) [0..<1024] ?s1 = Inr ?s2"
    using foldE_store_fill[of ?D ?s1 1024 "\<lambda>_. 0"] boot_frame_props(1)[OF small(1)] off
    by (simp add: pd flat_translate del: upt_rec_numeral upt_Suc)
  moreover have "boot_tables d 0 s ?s2"
    using p' fill_props(1)[of 1024 _ ?D "phys (mc s)" "\<lambda>_. 0"] fill_props(2)[of 1024 _ "phys (mc s)" ?D "\<lambda>_. 0"] boot_frame_props(2)[OF small(1)]
    by (auto simp: boot_tables_def) metis
  then obtain s3 where s3: "foldE init_paging_table [0..<?n] ?s2 = Inr s3" "boot_tables d ?n s s3"
    using init_paging_tables[of d 0 s ?s2 ?n] assms(1,4) required_pdes_bound by auto
  ultimately have "init_paging s = Inr (s3\<lparr>mc := (mc s3)\<lparr>cr3 := boot_frame d, cr0 := cr0 (mc s) OR 0x80000000\<rparr>\<rparr>)"
    using p'(1,5) by (simp add: init_paging_def get_total_memory_def boot_tables_def Let_def del: upt_rec_numeral upt_Suc)
  then show ?thesis using s3(2) by blast
qed

lemma u32_of_unat: "of_nat (unat x) = (x :: u32)"
  by simp

lemma page_of_indices: "(of_nat (unat (pd_index x)) * 1024 + of_nat (unat (pt_index x))) * 0x1000 = page_base x"
proof -
  have "unat (pd_index x) * 1024 + unat (pt_index x) = unat x div 4096"
    by (simp add: pd_index_nat pt_index_nat)
  then have "(of_nat (unat (pd_index x)) * 1024 + of_nat (unat (pt_index x))) * 0x1000 = (of_nat (unat x div 4096 * 4096) :: u32)"
    by (metis (no_types, lifting) of_nat_add of_nat_mult of_nat_numeral)
  also have "\<dots> = page_base x"
    unfolding page_base_nat[symmetric] by simp
  finally show ?thesis .
qed

text \<open>The view init_paging sets up: an identity mapping of the first \<open>n\<close> tables, all of it with the user bit.\<close>

lemma boot_tables_view:
  assumes "boot_tables d n s0 s" "d + n < NFRAMES"
  shows "ptes s x = (if unat (pd_index x) < n then page_base x OR 7 else 0)"
proof -
  have pde: "get32 (phys (mc s)) (entry_addr (page_direc s) (pd_index x)) =
      (if unat (pd_index x) < n then boot_frame (d + 1 + unat (pd_index x)) OR 7 else 0)"
    using assms(1) pd_index_bound[of x] unfolding boot_tables_def
    by (metis u32_of_unat)
  have "entry_addr (boot_frame (d + 1 + unat (pd_index x)) OR 7) (pt_index x) =
      entry_addr (boot_frame (d + 1 + unat (pd_index x))) (pt_index x)"
    by (simp add: entry_addr_inj pt_index_bound)
  moreover have "get32 (phys (mc s)) (entry_addr (boot_frame (d + 1 + unat (pd_index x))) (pt_index x)) = page_base x OR 7"
    if "unat (pd_index x) < n"
    using assms(1) that pt_index_bound[of x] page_of_indices[of x] unfolding boot_tables_def
    by (metis u32_of_unat)
  ultimately show ?thesis
    by (simp add: ptes_def pte_at_def pde Let_def)
qed

lemma boot_tables_dir:
  assumes "boot_tables d n s0 s" "d + n < NFRAMES" "n \<le> 1024"
  shows "dir_ok (phys (mc s)) (page_direc s)"
    "f \<in> table_frames (phys (mc s)) (page_direc s) \<Longrightarrow> unat f \<in> {d..d + n}"
proof -
  have pde: "get32 (phys (mc s)) (entry_addr (page_direc s) i) =
      (if unat i < n then boot_frame (d + 1 + unat i) OR 7 else 0)" if "unat i < 1024" for i
    using assms(1) that unfolding boot_tables_def by (metis u32_of_unat)
  have fr: "unat (frame (boot_frame (Suc (d + i)))) = Suc (d + i)" if "i < n" for i
    using boot_frame_props(2)[of "Suc (d + i)"] assms(2) that by simp
  have root: "unat (frame (page_direc s)) = d"
    using boot_frame_props(2)[of d] assms(1,2) by (simp add: boot_tables_def)
  show "dir_ok (phys (mc s)) (page_direc s)"
    unfolding dir_ok_def
    using fr root by (auto simp: pde word_unat_eq_iff split: if_splits)
  show "unat f \<in> {d..d + n}" if "f \<in> table_frames (phys (mc s)) (page_direc s)"
    using that fr root by (auto simp: table_frames_def pde split: if_splits)
qed

section \<open>A small machine\<close>

text \<open>
  For the witnesses: a machine with a directory in frame 1 and one table in frame 2 that maps
  the first 4 MiB to themselves, and an allocator that owns frames 0 to 2.
\<close>

definition word_mem :: "(u32 \<Rightarrow> u32) \<Rightarrow> mem" where
  "word_mem w a = ucast (drop_bit (8 * (unat a mod 4)) (w (of_nat (unat a div 4 * 4))))"

lemma get32_word_mem: "aligned4 a \<Longrightarrow> get32 (word_mem w) a = w a"
proof -
  assume al: "aligned4 a"
  then obtain q where q: "unat a = 4 * q" by (auto simp: aligned4_def)
  have "(of_nat (4 * q) :: u32) = a" using u32_of_unat[of a] q by simp
  then have b: "word_mem w (a + of_nat k) = ucast (drop_bit (8 * k) (w a))" if "k < 4" for k
    using that by (simp add: word_mem_def aligned4_unat_add[OF al that] q mult.commute)
  from b[of 0] b[of 1] b[of 2] b[of 3] show ?thesis
    by (simp add: get32_def le32_of_bytes)
qed

definition sample_words :: "u32 \<Rightarrow> u32" where
  "sample_words a =
     (if a = 0x1000 then 0x2007 else if frame a = 2 then of_nat (unat a mod 4096 div 4) * 4096 OR 7 else 0)"

definition sample_vm :: vm where
  "sample_vm = \<lparr>scr = sample_screen, pm = sample_pmm\<lparr>max_frames := 1024\<rparr>,
     mc = \<lparr>phys = word_mem sample_words, cr0 = 0x80000000, cr3 = 0x1000\<rparr>, page_direc = 0x1000\<rparr>"

lemma sample_dir:
  assumes "unat i < 1024"
  shows "get32 (word_mem sample_words) (entry_addr 0x1000 i) = (if i = 0 then 0x2007 else 0)"
proof -
  have n: "unat (entry_addr 0x1000 i) = 4096 + 4 * unat i" using entry_addr_nat[OF assms, of "0x1000"] by simp
  then have "frame (entry_addr 0x1000 i) \<noteq> 2"
    using assms by (simp add: word_unat_eq_iff frame_nat)
  then show ?thesis
    using n by (simp add: get32_word_mem entry_addr_props[OF assms] sample_words_def word_unat_eq_iff)
qed

lemma sample_ptes: "ptes sample_vm x = (if unat x < 0x400000 then page_base x OR 7 else 0)"
proof -
  have pdx: "pd_index x = 0 \<longleftrightarrow> unat x < 0x400000"
    by (simp add: word_unat_eq_iff pd_index_nat div_eq_0_iff div_mult2_eq[symmetric])
  have n: "unat (entry_addr 0x2007 (pt_index x)) = 8192 + 4 * unat (pt_index x)"
    using entry_addr_nat[OF pt_index_bound, of "0x2007" x] by simp
  have "get32 (word_mem sample_words) (entry_addr 0x2007 (pt_index x)) = of_nat (unat (pt_index x)) * 4096 OR 7"
    using n pt_index_bound[of x] entry_addr_props[OF pt_index_bound, of "0x2007" x]
      mod_add_self2[of "4 * unat (pt_index x) + 4096" 4096] mod_add_self2[of "4 * unat (pt_index x)" 4096]
    by (simp add: get32_word_mem sample_words_def word_unat_eq_iff frame_nat)
  moreover have "of_nat (unat (pt_index x)) * 4096 = page_base x" if "unat x < 0x400000"
    using page_of_indices[of x] pdx that by simp
  ultimately show ?thesis
    by (simp add: ptes_def pte_at_def sample_vm_def sample_dir pd_index_bound pdx)
qed

lemma page_base_or7: "page_base (page_base a OR 7) = page_base a"
  by (simp add: page_base_eq_iff)

lemma sample_paging_ok: "paging_ok 1024 sample_vm"
proof -
  have used: "{0, 1, 2} \<subseteq> used_frames (pm sample_vm)"
    by (simp add: sample_vm_def sample_pmm_def pmm_boot_def used_frames_def NFRAMES_def bit_Suc)
  have dir: "dir_ok (phys (mc sample_vm)) (page_direc sample_vm)"
    by (auto simp: dir_ok_def sample_vm_def sample_dir frame_def split: if_splits)
  have tf: "table_frames (phys (mc sample_vm)) (page_direc sample_vm) \<subseteq> {1, 2}"
    by (auto simp: table_frames_def sample_vm_def sample_dir frame_def split: if_splits)
  have "unat f < 1024 \<and> unat f \<in> used_frames (pm sample_vm)"
    if "f \<in> table_frames (phys (mc sample_vm)) (page_direc sample_vm)" for f
    using that tf used by auto
  moreover have "page_base (page_direc sample_vm) = page_direc sample_vm" "paging_on (mc sample_vm)"
    "cr3 (mc sample_vm) = page_direc sample_vm" "pmm_ok (pm sample_vm)" "unat (max_frames (pm sample_vm)) \<le> 1024"
    using sample_used by (simp_all add: sample_vm_def page_base_def paging_on_def)
  moreover have "ptes sample_vm a AND 1 \<noteq> 0 \<and> page_base (ptes sample_vm a) = page_base a"
    if "unat (frame a) < 1024" for a
  proof -
    have "unat a < 1024 * 4096" using that by (simp add: frame_nat div_less_iff_less_mult)
    then show ?thesis by (simp add: sample_ptes page_base_or7)
  qed
  ultimately show ?thesis
    unfolding paging_ok_def using used dir by blast
qed

lemma pg_bit: "(c OR 0x80000000) AND 0x80000000 \<noteq> (0 :: u32)"
proof -
  have "bit (c OR 0x80000000 :: u32) 31" by (simp add: bit_or_iff)
  then show ?thesis using test_bit_zero[of "c OR 0x80000000" 31] by simp
qed

lemma window_boot:
  assumes "boot_tables d n s0 s1" "d + n < NFRAMES" "n \<le> 1024"
    and "mc s = (mc s1)\<lparr>cr3 := boot_frame d, cr0 := c OR 0x80000000\<rparr>" "page_direc s = page_direc s1"
    and "pmm_ok (pm s)" "insert 0 {d..d + n} \<subseteq> used_frames (pm s)" "d + n < n * 1024"
    and "unat (max_frames (pm s)) \<le> n * 1024"
  shows "paging_ok (n * 1024) s"
proof -
  have view: "ptes s x = (if unat (pd_index x) < n then page_base x OR 7 else 0)" for x
    using boot_tables_view[OF assms(1,2), of x] assms(4,5) by (simp add: ptes_def)
  have win: "ptes s a AND 1 \<noteq> 0 \<and> page_base (ptes s a) = page_base a" if "unat (frame a) < n * 1024" for a
  proof -
    have "unat (pd_index a) < n"
      using that by (simp add: pd_index_nat frame_nat div_less_iff_less_mult)
    then show ?thesis by (simp add: view page_base_or7)
  qed
  have "page_base (page_direc s) = page_direc s" "page_direc s = boot_frame d"
    using assms(1,2,5) boot_frame_props(1)[of d] by (simp_all add: boot_tables_def)
  moreover have "paging_on (mc s)" using assms(4) pg_bit by (simp add: paging_on_def)
  moreover have "\<forall>f \<in> table_frames (phys (mc s)) (page_direc s). unat f < n * 1024 \<and> unat f \<in> used_frames (pm s)"
    using boot_tables_dir(2)[OF assms(1-3)] assms(4,5,7,8) by fastforce
  ultimately show ?thesis
    unfolding paging_ok_def using win assms(4-9) boot_tables_dir(1)[OF assms(1-3)] by simp
qed

section \<open>Properties\<close>

text \<open>
  C5: map_page changes exactly one page. In a state that satisfies the paging invariant, and
  for an address outside the identity window, it returns, the entry of the page becomes the
  given frame and flags with the present bit, get_pte answers as before for every other page,
  and the invariant holds again.
\<close>

theorem map_page_refines:
  assumes "paging_ok L s" "L \<le> unat (frame va)" "\<not> map_oom va s"
  shows "\<exists>s'. map_page pa va fl s = Inr s' \<and> paging_ok L s' \<and>
    (\<forall>x. get_pte x s' = (if frame x = frame va then Inr (pa OR fl OR 1) else get_pte x s)) \<and>
    translate (mc s') va = Inr (page_base (pa OR fl OR 1) + (va AND 0xFFF))"
proof -
  obtain s' where s': "map_page pa va fl s = Inr s'" "map_post L va (pa OR fl OR 1) s s'"
    using map_page_spec[OF assms(1), of pa va fl] assms(3) by auto
  have ok': "paging_ok L s'" and view: "ptes s' x = (if frame x = frame va then pa OR fl OR 1 else ptes s x)" for x
    using s'(2) assms(2) by (simp_all add: map_post_def)
  have "translate (mc s') va = Inr (page_base (pa OR fl OR 1) + (va AND 0xFFF))"
    using translate_ptes[of s' va] view[of va] ok' present_or(2)[of pa fl] by (simp add: paging_ok_def)
  then show ?thesis
    using s'(1) ok' view by (simp add: get_pte_ptes[OF assms(1)] get_pte_ptes[OF ok'])
qed

lemma sample_no_oom: "\<not> map_oom va sample_vm"
proof -
  have "3 \<in> free_frames (pm sample_vm)"
    by (simp add: sample_vm_def sample_pmm_def pmm_boot_def used_frames_def free_frames_def NFRAMES_def bit_Suc)
  then have "\<not> (\<forall>f \<in> free_frames (pm sample_vm). 1024 \<le> f)" by force
  moreover have "unat (max_frames (pm sample_vm)) = 1024" by (simp add: sample_vm_def)
  ultimately show ?thesis by (simp only: map_oom_def) blast
qed

theorem map_page_refines_witness:
  "\<exists>s'. map_page 0x5000 0x40000000 6 sample_vm = Inr s' \<and> paging_ok 1024 s' \<and>
    (\<forall>x. get_pte x s' = (if frame x = frame 0x40000000 then Inr (0x5000 OR 6 OR 1) else get_pte x sample_vm)) \<and>
    translate (mc s') 0x40000000 = Inr (page_base (0x5000 OR 6 OR 1) + (0x40000000 AND 0xFFF))"
  by (rule map_page_refines[OF sample_paging_ok _ sample_no_oom]) (simp add: frame_nat)

text \<open>
  When the page needs a new page table and no frame is free, map_page prints its message
  and changes nothing else: tables, memory and allocator are as before.
\<close>

theorem map_page_out_of_memory:
  assumes "paging_ok L s" "map_oom va s"
  shows "map_page pa va fl s = Inr (kprint s (bytes ''map_page: pmm_alloc_block failed for page table\<newline>''))"
  using map_page_spec[OF assms(1), of pa va fl] assms(2) by auto

theorem map_page_out_of_memory_witness:
  "map_page 0x5000 0x40000000 6 (sample_vm\<lparr>pm := (pm sample_vm)\<lparr>max_frames := 0\<rparr>\<rparr>) =
    Inr (kprint (sample_vm\<lparr>pm := (pm sample_vm)\<lparr>max_frames := 0\<rparr>\<rparr>)
      (bytes ''map_page: pmm_alloc_block failed for page table\<newline>''))"
proof (rule map_page_out_of_memory)
  show "paging_ok 1024 (sample_vm\<lparr>pm := (pm sample_vm)\<lparr>max_frames := 0\<rparr>\<rparr>)"
    using sample_paging_ok by (simp add: paging_ok_def ptes_def)
  show "map_oom 0x40000000 (sample_vm\<lparr>pm := (pm sample_vm)\<lparr>max_frames := 0\<rparr>\<rparr>)"
    by (simp add: map_oom_def sample_vm_def sample_dir pd_index_bound) (simp add: pd_index_def)
qed

text \<open>
  C24: what validate_user_region accepts, for a page-aligned address. It never faults and
  always ends, and it answers 1 exactly when the region is empty or lies in
  \<open>[1 MiB, 3 GiB)\<close> and every byte of it is in a page that is present and has the user bit.
\<close>

theorem validate_user_region_aligned:
  assumes "paging_ok L s" "unat a mod 4096 = 0"
  shows "validate_user_region a len s = Inr
    (if len = 0 \<or> (0x100000 \<le> unat a \<and> unat a + unat len \<le> 0xC0000000 \<and>
      (\<forall>i < unat len. user_page s (a + of_nat i))) then 1 else 0)"
proof -
  have "(\<forall>k. 4096 * k < unat len \<longrightarrow> user_page s (a + of_nat (4096 * k))) \<longleftrightarrow> (\<forall>i < unat len. user_page s (a + of_nat i))"
    if "unat a + unat len \<le> 0xC0000000"
  proof (intro iffI allI impI)
    fix i
    assume all: "\<forall>k. 4096 * k < unat len \<longrightarrow> user_page s (a + of_nat (4096 * k))" and i: "i < unat len"
    have "4096 * (i div 4096) < unat len" using i by (rule le_less_trans[rotated]) simp
    then have "user_page s (a + of_nat (4096 * (i div 4096)))" using all by blast
    then show "user_page s (a + of_nat i)"
      using user_page_cong[OF offset_frame[OF assms(2)], of i s] that i by simp
  qed blast
  then show ?thesis unfolding validate_user_region_iff[OF assms(1)] by auto
qed

theorem validate_user_region_aligned_witness:
  "validate_user_region 0x200000 0x200001 sample_vm = Inr
    (if (0x200001 :: u32) = 0 \<or> (0x100000 \<le> unat (0x200000 :: u32) \<and>
        unat (0x200000 :: u32) + unat (0x200001 :: u32) \<le> 0xC0000000 \<and>
        (\<forall>i < unat (0x200001 :: u32). user_page sample_vm (0x200000 + of_nat i))) then 1 else 0)"
  by (rule validate_user_region_aligned[OF sample_paging_ok]) simp

text \<open>
  The check misses a page when the address is not page aligned. The loop steps by 4096
  bytes from the unaligned address and leaves out the page of the last bytes: two bytes that
  straddle a mapped page and an unmapped one are accepted, although the second one faults.
\<close>

theorem validate_skips_last_page:
  assumes "paging_ok L s" "unat page mod 4096 = 0" "0x100000 \<le> unat page" "unat page + 0x1000 < 0xC0000000"
    and "user_page s page" "ptes s (page + 0x1000) AND 1 = 0"
  shows "validate_user_region (page + 0xFFF) 2 s = Inr 1 \<and>
    translate (mc s) (page + 0x1000) = Inl (PageFault (page + 0x1000))"
proof -
  have u: "unat (page + 0xFFF) = unat page + 0xFFF"
    using assms(4) by (subst unat_add_small) simp_all
  obtain q where q: "unat page = 4096 * q" using assms(2) by auto
  have "frame (page + 0xFFF) = frame page"
    unfolding word_unat_eq_iff frame_nat u q by simp
  then have "user_page s (page + 0xFFF)" using assms(5) user_page_cong by blast
  then have "validate_user_region (page + 0xFFF) 2 s = Inr 1"
    using assms(3,4) by (auto simp: validate_user_region_iff[OF assms(1)] u)
  moreover have "paging_on (mc s)" "cr3 (mc s) = page_direc s" using assms(1) by (simp_all add: paging_ok_def)
  ultimately show ?thesis using translate_ptes[of s "page + 0x1000"] assms(6) by simp
qed

theorem validate_skips_last_page_witness:
  "validate_user_region (0x3FF000 + 0xFFF) 2 sample_vm = Inr 1 \<and>
    translate (mc sample_vm) (0x3FF000 + 0x1000) = Inl (PageFault (0x3FF000 + 0x1000))"
  by (rule validate_skips_last_page[OF sample_paging_ok]) (simp_all add: user_page_def sample_ptes page_base_def)

text \<open>
  C23: init_paging. From a state with paging off and room for the tables below 1 GiB, it
  switches paging on with an identity mapping of the first \<open>required_pdes\<close> times 4 MiB and
  nothing above, every mapped page carries the present, write and user bits, and no memory
  outside the frames it allocated has changed.
\<close>

theorem init_paging_identity:
  assumes "\<not> paging_on (mc s)" "pmm_ok (pm s)" "bump_addr (pm s) = boot_frame d"
    and "n = unat (required_pdes (total_memory (pm s)))" "d + n + 1 < NFRAMES"
  shows "\<exists>s'. init_paging s = Inr s' \<and> page_direc s' = boot_frame d \<and>
    (\<forall>x. translate (mc s') x = (if unat x < n * 0x400000 then Inr x else Inl (PageFault x))) \<and>
    (\<forall>x. ptes s' x = (if unat x < n * 0x400000 then page_base x OR 7 else 0)) \<and>
    (\<forall>x. unat (frame x) \<notin> {d..d + n} \<longrightarrow> phys (mc s') x = phys (mc s) x) \<and>
    used_frames (pm s') = used_frames (pm s) \<union> {d..d + n}"
proof -
  obtain s1 where s1: "boot_tables d n s s1"
    "init_paging s = Inr (s1\<lparr>mc := (mc s1)\<lparr>cr3 := boot_frame d, cr0 := cr0 (mc s) OR 0x80000000\<rparr>\<rparr>)"
    using init_paging_spec[OF assms(1-3)] assms(4,5) by auto
  let ?s' = "s1\<lparr>mc := (mc s1)\<lparr>cr3 := boot_frame d, cr0 := cr0 (mc s) OR 0x80000000\<rparr>\<rparr>"
  have lim: "unat (pd_index x) < n \<longleftrightarrow> unat x < n * 0x400000" for x
    by (simp add: pd_index_nat div_mult2_eq[symmetric] div_less_iff_less_mult)
  have view: "ptes ?s' x = (if unat x < n * 0x400000 then page_base x OR 7 else 0)" for x
    using boot_tables_view[OF s1(1), of x] assms(5) lim[of x] by (simp add: ptes_def)
  have dir: "page_direc ?s' = boot_frame d" using s1(1) by (simp add: boot_tables_def)
  have "translate (mc ?s') x = (if unat x < n * 0x400000 then Inr x else Inl (PageFault x))" for x
    using translate_ptes[of ?s' x] dir view[of x] page_split[of x] pg_bit by (simp add: paging_on_def page_base_or7)
  then show ?thesis using s1 view dir by (auto simp: boot_tables_def)
qed

definition boot_vm :: vm where
  "boot_vm = \<lparr>scr = sample_screen, pm = pmm_boot\<lparr>total_memory := 0x8000000\<rparr>,
     mc = \<lparr>phys = (\<lambda>_. 0), cr0 = 0x11, cr3 = 0\<rparr>, page_direc = 0\<rparr>"

theorem init_paging_identity_witness:
  "\<exists>s'. init_paging boot_vm = Inr s' \<and> page_direc s' = boot_frame 512 \<and>
    (\<forall>x. translate (mc s') x = (if unat x < 32 * 0x400000 then Inr x else Inl (PageFault x))) \<and>
    (\<forall>x. ptes s' x = (if unat x < 32 * 0x400000 then page_base x OR 7 else 0)) \<and>
    (\<forall>x. unat (frame x) \<notin> {512..512 + 32} \<longrightarrow> phys (mc s') x = phys (mc boot_vm) x) \<and>
    used_frames (pm s') = used_frames (pm boot_vm) \<union> {512..512 + 32}"
  by (rule init_paging_identity)
    (simp_all add: boot_vm_def paging_on_def pmm_ok_def pmm_boot_def bump_addr_def boot_frame_def required_pdes_def NFRAMES_def)

end
