(* ===== verification/Address_Space.thy ===== *)
theory Address_Space
  imports Paging
begin

text \<open>
  Data in virtual memory, as the program loader and the system calls use it. A set of
  addresses is sound when each of them is mapped to a byte of its own that is not part of a
  page table; block copies on such a set act like assignments. \<open>space_ok\<close> is the invariant of
  the shared address space: user pages are mapped to frames of their own, so that the user
  pages together with the kernel's own frames are sound.
\<close>

section \<open>Byte memories\<close>

locale byte_memory =
  fixes ld :: "'m \<Rightarrow> u32 \<Rightarrow> u8 res"
    and st :: "'m \<Rightarrow> u32 \<Rightarrow> u8 \<Rightarrow> 'm res"
    and sound :: "'m \<Rightarrow> u32 set \<Rightarrow> bool"
    and keeps :: "'m \<Rightarrow> 'm \<Rightarrow> bool"
  assumes keeps_refl: "keeps m m"
    and keeps_trans: "keeps m m1 \<Longrightarrow> keeps m1 m2 \<Longrightarrow> keeps m m2"
    and sound_keeps: "sound m A \<Longrightarrow> keeps m m' \<Longrightarrow> sound m' A"
    and ld_defined: "sound m A \<Longrightarrow> a \<in> A \<Longrightarrow> \<exists>v. ld m a = Inr v"
    and st_defined: "sound m A \<Longrightarrow> a \<in> A \<Longrightarrow> \<exists>m'. st m a v = Inr m' \<and> keeps m m' \<and>
      (\<forall>b \<in> A. ld m' b = (if b = a then Inr v else ld m b))"
begin

fun fill_block :: "nat \<Rightarrow> 'm \<Rightarrow> u32 \<Rightarrow> u8 \<Rightarrow> 'm res" where
  "fill_block 0 m p v = Inr m"
| "fill_block (Suc n) m p v = bindE (st m p v) (\<lambda>m. fill_block n m (p + 1) v)"

fun copy_block :: "nat \<Rightarrow> 'm \<Rightarrow> u32 \<Rightarrow> u32 \<Rightarrow> 'm res" where
  "copy_block 0 m d s = Inr m"
| "copy_block (Suc n) m d s =
     bindE (ld m s) (\<lambda>b. bindE (st m d b) (\<lambda>m. copy_block n m (d + 1) (s + 1)))"

text \<open>A block of at most 4 GiB: position \<open>i\<close> of it is \<open>d + i\<close>.\<close>

definition block :: "u32 \<Rightarrow> nat \<Rightarrow> u32 set" where
  "block d n = (\<lambda>i. d + of_nat i) ` {..<n}"

lemma block_Suc: "block d (Suc n) = insert d (block (d + 1) n)"
proof -
  have "{..<Suc n} = insert 0 (Suc ` {..<n})" by (auto simp: lessThan_Suc_eq_insert_0)
  then show ?thesis by (simp add: block_def image_image add.assoc)
qed

lemma block_offset: "n \<le> 4294967296 \<Longrightarrow> a \<in> block d n \<longleftrightarrow> unat (a - d) < n"
proof
  assume n: "n \<le> 4294967296"
  show "unat (a - d) < n" if "a \<in> block d n"
    using that n by (auto simp: block_def unat_of_nat)
  assume "unat (a - d) < n"
  then show "a \<in> block d n"
    unfolding block_def by (intro image_eqI[of _ _ "unat (a - d)"]) simp_all
qed

lemma block_first: "Suc n \<le> 4294967296 \<Longrightarrow> d \<notin> block (d + 1) n"
  by (simp add: block_offset unsigned_minus_1_eq_mask mask_eq_exp_minus_1)

lemma fill_block_ok:
  assumes "sound m A" "block p n \<subseteq> A"
  shows "\<exists>m'. fill_block n m p v = Inr m' \<and> keeps m m' \<and>
    (\<forall>b \<in> A. ld m' b = (if b \<in> block p n then Inr v else ld m b))"
  using assms
proof (induction n arbitrary: m p)
  case 0
  then show ?case by (simp add: block_def keeps_refl)
next
  case (Suc n)
  obtain m1 where m1: "st m p v = Inr m1" "keeps m m1" "\<forall>b \<in> A. ld m1 b = (if b = p then Inr v else ld m b)"
    using st_defined[OF Suc.prems(1), of p v] Suc.prems(2) by (auto simp: block_Suc)
  obtain m2 where m2: "fill_block n m1 (p + 1) v = Inr m2" "keeps m1 m2"
    "\<forall>b \<in> A. ld m2 b = (if b \<in> block (p + 1) n then Inr v else ld m1 b)"
    using Suc.IH[OF sound_keeps[OF Suc.prems(1) m1(2)], of "p + 1"] Suc.prems(2) by (auto simp: block_Suc)
  show ?case
    using m1 m2 keeps_trans[OF m1(2) m2(2)] by (auto simp: block_Suc)
qed

lemma copy_block_ok:
  assumes "sound m A" "block d n \<subseteq> A" "block s n \<subseteq> A" "block d n \<inter> block s n = {}" "n \<le> 4294967296"
  shows "\<exists>m'. copy_block n m d s = Inr m' \<and> keeps m m' \<and>
    (\<forall>b \<in> A. ld m' b = (if b \<in> block d n then ld m (s + (b - d)) else ld m b))"
  using assms
proof (induction n arbitrary: m d s)
  case 0
  then show ?case by (simp add: block_def keeps_refl)
next
  case (Suc n)
  obtain b where b: "ld m s = Inr b" using ld_defined[OF Suc.prems(1), of s] Suc.prems(3) by (auto simp: block_Suc)
  obtain m1 where m1: "st m d b = Inr m1" "keeps m m1" "\<forall>a \<in> A. ld m1 a = (if a = d then Inr b else ld m a)"
    using st_defined[OF Suc.prems(1), of d b] Suc.prems(2) by (auto simp: block_Suc)
  obtain m2 where m2: "copy_block n m1 (d + 1) (s + 1) = Inr m2" "keeps m1 m2"
    "\<forall>a \<in> A. ld m2 a = (if a \<in> block (d + 1) n then ld m1 (s + 1 + (a - (d + 1))) else ld m1 a)"
    using Suc.IH[OF sound_keeps[OF Suc.prems(1) m1(2)], of "d + 1" "s + 1"] Suc.prems(2-5) by (auto simp: block_Suc)
  have src: "s + 1 + (a - (d + 1)) = s + (a - d)" for a by simp
  have moved: "ld m1 (s + (a - d)) = ld m (s + (a - d))" if "a \<in> block (d + 1) n" for a
  proof -
    have "unat (a - d) < Suc n" using that Suc.prems(5) block_offset[of "Suc n" a d] by (auto simp: block_Suc)
    then have in_s: "s + (a - d) \<in> block s (Suc n)" using block_offset[of "Suc n" "s + (a - d)" s] Suc.prems(5) by simp
    moreover have "d \<in> block d (Suc n)" by (simp add: block_Suc)
    ultimately have "s + (a - d) \<noteq> d" using Suc.prems(4) by (metis disjoint_iff)
    moreover have "s + (a - d) \<in> A" using in_s Suc.prems(3) by blast
    ultimately show ?thesis using m1(3) by simp
  qed
  have first: "d \<notin> block (d + 1) n" using block_first[OF Suc.prems(5)] .
  show ?case
    using b m1 m2 keeps_trans[OF m1(2) m2(2)] moved first by (auto simp: block_Suc src)
qed

end

section \<open>Soundness of the machine\<close>

definition sound :: "machine \<Rightarrow> u32 set \<Rightarrow> bool" where
  "sound m A \<longleftrightarrow> (\<forall>a \<in> A. data_at m a) \<and> inj_on (translate m) A"

lemma sound_subset: "sound m A \<Longrightarrow> B \<subseteq> A \<Longrightarrow> sound m B"
  by (auto simp: sound_def intro: inj_on_subset)

interpretation mem: byte_memory ld8 st8 sound same_tables
proof
  fix m m' m1 m2 A a v
  show "same_tables m m" by simp
  show "same_tables m m2" if "same_tables m m1" "same_tables m1 m2" using that by (rule same_tables_trans)
  show "sound m' A" if "sound m A" "same_tables m m'"
    using that same_tables_data_at[OF that(2)] same_tables_translate[OF that(2)]
    by (auto simp: sound_def inj_on_def)
  assume s: "sound m A" "a \<in> A"
  then have d: "data_at m a" by (simp add: sound_def)
  show "\<exists>v. ld8 m a = Inr v" using d by (auto simp: data_at_def ld8_def)
  from d obtain pa where pa: "translate m a = Inr pa" "st8 m a v = Inr (m\<lparr>phys := (phys m)(pa := v)\<rparr>)"
    "same_tables m (m\<lparr>phys := (phys m)(pa := v)\<rparr>)" by (rule st8_data)
  have "ld8 (m\<lparr>phys := (phys m)(pa := v)\<rparr>) b = (if b = a then Inr v else ld8 m b)" if b: "b \<in> A" for b
  proof -
    have "translate m b = Inr pa \<longleftrightarrow> b = a" using s b pa(1) unfolding sound_def inj_on_def by metis
    moreover obtain pb where "translate m b = Inr pb" using s b by (auto simp: sound_def data_at_def)
    ultimately show ?thesis using pa(1) by (auto simp: ld8_def same_tables_translate[OF pa(3)])
  qed
  then show "\<exists>m'. st8 m a v = Inr m' \<and> same_tables m m' \<and> (\<forall>b \<in> A. ld8 m' b = (if b = a then Inr v else ld8 m b))"
    using pa by blast
qed

lemma memset_loop_fill: "memset_loop n m p v = mem.fill_block n m p v"
  by (induction n arbitrary: m p) (auto intro!: bindE_cong)

lemma memcpy_loop_copy: "memcpy_loop n m d s = mem.copy_block n m d s"
  by (induction n arbitrary: m d s) (auto intro!: bindE_cong)

abbreviation block :: "u32 \<Rightarrow> nat \<Rightarrow> u32 set" where
  "block \<equiv> mem.block"

lemmas block_offset = mem.block_offset

lemma memset_ok:
  assumes "sound m A" "block p (unat n) \<subseteq> A"
  shows "\<exists>m'. memset m p v n = Inr m' \<and> same_tables m m' \<and>
    (\<forall>b \<in> A. ld8 m' b = (if b \<in> block p (unat n) then Inr v else ld8 m b))"
  unfolding memset_def memset_loop_fill by (rule mem.fill_block_ok[OF assms])

lemma memcpy_ok:
  assumes "sound m A" "block d (unat n) \<subseteq> A" "block s (unat n) \<subseteq> A" "block d (unat n) \<inter> block s (unat n) = {}"
  shows "\<exists>m'. memcpy m d s n = Inr m' \<and> same_tables m m' \<and>
    (\<forall>b \<in> A. ld8 m' b = (if b \<in> block d (unat n) then ld8 m (s + (b - d)) else ld8 m b))"
  unfolding memcpy_def memcpy_loop_copy by (rule mem.copy_block_ok[OF assms]) (use u32_bound[of n] in simp)

section \<open>The shared address space\<close>

abbreviation tables :: "'a vm_scheme \<Rightarrow> u32 set" where
  "tables s \<equiv> table_frames (phys (mc s)) (page_direc s)"

abbreviation present :: "'a vm_scheme \<Rightarrow> u32 \<Rightarrow> bool" where
  "present s a \<equiv> ptes s a AND 1 \<noteq> 0"

text \<open>Above the identity window, pages are user pages: each is mapped to a used frame of its own.\<close>

definition space_ok :: "nat \<Rightarrow> 'a vm_scheme \<Rightarrow> bool" where
  "space_ok L s \<longleftrightarrow> paging_ok L s \<and>
     (\<forall>x. L \<le> unat (frame x) \<longrightarrow> present s x \<longrightarrow>
        ptes s x AND 7 = 7 \<and> frame (ptes s x) \<notin> tables s \<and> unat (frame (ptes s x)) \<in> used_frames (pm s) \<and>
        (\<forall>y. L \<le> unat (frame y) \<longrightarrow> present s y \<longrightarrow> frame (ptes s x) = frame (ptes s y) \<longrightarrow> frame x = frame y))"

text \<open>The bytes in use: those of user pages, and those of used frames that hold neither tables nor user pages.\<close>

definition data_area :: "nat \<Rightarrow> 'a vm_scheme \<Rightarrow> u32 set" where
  "data_area L s = {a. L \<le> unat (frame a) \<and> present s a} \<union>
     {a. unat (frame a) < L \<and> unat (frame a) \<in> used_frames (pm s) \<and> frame a \<notin> tables s \<and>
         (\<forall>x. L \<le> unat (frame x) \<longrightarrow> present s x \<longrightarrow> frame (ptes s x) \<noteq> frame a)}"

lemma ptes_cong: "frame x = frame y \<Longrightarrow> ptes s x = ptes s y"
  by (simp add: ptes_def pte_at_def same_page_iff Let_def)

lemma space_paging: "space_ok L s \<Longrightarrow> paging_ok L s"
  by (simp add: space_ok_def)

lemma paging_translate:
  "paging_ok L s \<Longrightarrow> translate (mc s) va =
    (if present s va then Inr (page_base (ptes s va) + (va AND 0xFFF)) else Inl (PageFault va))"
  using translate_ptes[of s va] by (simp add: paging_ok_def)

lemma window_ptes: "paging_ok L s \<Longrightarrow> unat (frame a) < L \<Longrightarrow> present s a \<and> frame (ptes s a) = frame a"
  unfolding paging_ok_def page_base_eq_iff[symmetric] by blast

lemma data_present: "paging_ok L s \<Longrightarrow> a \<in> data_area L s \<Longrightarrow> present s a"
  using window_ptes by (fastforce simp: data_area_def)

text \<open>The frame behind a byte in use is used, holds no table, and determines its page.\<close>

lemma data_frame:
  assumes "space_ok L s" "a \<in> data_area L s"
  shows "frame (ptes s a) \<notin> tables s" "unat (frame (ptes s a)) \<in> used_frames (pm s)"
  using assms window_ptes[OF space_paging[OF assms(1)], of a] by (auto simp: space_ok_def data_area_def)

lemma data_frame_inj:
  assumes "space_ok L s" "a \<in> data_area L s" "b \<in> data_area L s" "frame (ptes s a) = frame (ptes s b)"
  shows "frame a = frame b"
proof -
  have user: "present s x" if "x \<in> data_area L s" "L \<le> unat (frame x)" for x
    using that by (auto simp: data_area_def)
  have kern: "frame (ptes s y) \<noteq> frame x" if "x \<in> data_area L s" "\<not> L \<le> unat (frame x)" "L \<le> unat (frame y)" "present s y" for x y
    using that by (auto simp: data_area_def)
  have win: "frame (ptes s x) = frame x" if "\<not> L \<le> unat (frame x)" for x
    using window_ptes[OF space_paging[OF assms(1)], of x] that by simp
  show ?thesis
  proof (cases "L \<le> unat (frame a)")
    case True
    show ?thesis
    proof (cases "L \<le> unat (frame b)")
      case b: True
      then show ?thesis using True user assms unfolding space_ok_def by blast
    next
      case False
      then show ?thesis using kern[OF assms(3) False True user[OF assms(2) True]] win[OF False] assms(4) by simp
    qed
  next
    case False
    then show ?thesis using kern[OF assms(2) False _ user[OF assms(3)]] win[OF False] win[of b] assms(4) by metis
  qed
qed

lemma space_sound:
  assumes "space_ok L s"
  shows "sound (mc s) (data_area L s)"
proof -
  note pok = space_paging[OF assms]
  have on: "paging_on (mc s)" "cr3 (mc s) = page_direc s" using pok by (simp_all add: paging_ok_def)
  have tr: "translate (mc s) a = Inr (page_base (ptes s a) + (a AND 0xFFF))" if "a \<in> data_area L s" for a
    using paging_translate[OF pok, of a] data_present[OF pok that] by simp
  have "data_at (mc s) a" if "a \<in> data_area L s" for a
    using tr[OF that] data_frame(1)[OF assms that] on by (simp add: data_at_def)
  moreover have "a = b" if ab: "a \<in> data_area L s" "b \<in> data_area L s" "translate (mc s) a = translate (mc s) b" for a b
  proof -
    have eq: "page_base (ptes s a) + (a AND 0xFFF) = page_base (ptes s b) + (b AND 0xFFF)"
      using ab(3) tr[OF ab(1)] tr[OF ab(2)] by simp
    from arg_cong[OF eq, of frame] have "frame a = frame b" using data_frame_inj[OF assms ab(1,2)] by simp
    moreover from arg_cong[OF eq, of "\<lambda>x. x AND 0xFFF"] have "a AND 0xFFF = b AND 0xFFF" by simp
    ultimately show ?thesis using page_split[of a] page_split[of b] page_base_eq_iff by metis
  qed
  ultimately show ?thesis by (auto simp: sound_def inj_on_def)
qed

text \<open>Writing data keeps the address space.\<close>

lemma space_same_tables:
  assumes "space_ok L s" "same_tables (mc s) m'"
  shows "space_ok L (s\<lparr>mc := m'\<rparr>)" "ptes (s\<lparr>mc := m'\<rparr>) = ptes s" "data_area L (s\<lparr>mc := m'\<rparr>) = data_area L s"
proof -
  have on: "paging_on (mc s)" "cr3 (mc s) = page_direc s" using assms(1) by (simp_all add: space_ok_def paging_ok_def)
  have st: "cr0 m' = cr0 (mc s)" "cr3 m' = cr3 (mc s)" and same: "frame x \<in> tables s \<Longrightarrow> phys m' x = phys (mc s) x" for x
    using assms(2) on by (simp_all add: same_tables_def)
  have dir: "get32 (phys m') (entry_addr (page_direc s) i) = get32 (phys (mc s)) (entry_addr (page_direc s) i)" if "unat i < 1024" for i
    using entry_addr_props[OF that, of "page_direc s"] by (intro get32_frame_cong same) (auto simp: table_frames_def)
  have tf: "table_frames (phys m') (page_direc s) = tables s"
    using same_tables_frames[OF assms(2) on(1)] on st by simp
  have pt: "pte_at (phys m') (page_direc s) x = pte_at (phys (mc s)) (page_direc s) x" for x
  proof -
    let ?e = "get32 (phys (mc s)) (entry_addr (page_direc s) (pd_index x))"
    have "get32 (phys m') (entry_addr ?e (pt_index x)) = get32 (phys (mc s)) (entry_addr ?e (pt_index x))" if "?e AND 1 \<noteq> 0"
    proof -
      have "frame ?e \<in> tables s" using that pd_index_bound[of x] by (auto simp: table_frames_def)
      then show ?thesis using entry_addr_props[OF pt_index_bound, of ?e x] by (intro get32_frame_cong same) auto
    qed
    then show ?thesis by (simp add: pte_at_def dir pd_index_bound Let_def)
  qed
  show p: "ptes (s\<lparr>mc := m'\<rparr>) = ptes s" by (rule ext) (simp add: ptes_def pt)
  have "dir_ok (phys m') (page_direc s) \<longleftrightarrow> dir_ok (phys (mc s)) (page_direc s)" unfolding dir_ok_def by (simp add: dir)
  then have "paging_ok L (s\<lparr>mc := m'\<rparr>)"
    using space_paging[OF assms(1)] st on unfolding paging_ok_def p by (simp add: tf paging_on_def)
  then show "space_ok L (s\<lparr>mc := m'\<rparr>)" using assms(1) unfolding space_ok_def p by (simp add: tf)
  show "data_area L (s\<lparr>mc := m'\<rparr>) = data_area L s" unfolding data_area_def p by (simp add: tf)
qed

text \<open>The address space is a matter of memory, allocator and directory alone.\<close>

lemma view_cong:
  assumes "mc s = mc t" "pm s = pm t" "page_direc s = page_direc t"
  shows "ptes s = ptes t" "paging_ok L s = paging_ok L t" "space_ok L s = space_ok L t" "data_area L s = data_area L t"
    "user_page s a = user_page t a"
proof -
  show p: "ptes s = ptes t" by (rule ext) (simp add: ptes_def assms)
  show o: "paging_ok L s = paging_ok L t" by (simp add: paging_ok_def p assms)
  show "space_ok L s = space_ok L t" "data_area L s = data_area L t" "user_page s a = user_page t a"
    by (simp_all add: space_ok_def data_area_def user_page_def p o assms)
qed

section \<open>Mapping a fresh frame\<close>

definition spare :: "'a vm_scheme \<Rightarrow> nat" where
  "spare s = card {f \<in> free_frames (pm s). f < unat (max_frames (pm s))}"

lemma spare_pos: "0 < spare s \<longleftrightarrow> (\<exists>f \<in> free_frames (pm s). f < unat (max_frames (pm s)))"
  by (auto simp: spare_def card_gt_0_iff free_frames_def)

lemma spare_insert:
  assumes "max_frames (pm s') = max_frames (pm s)" "used_frames (pm s') \<subseteq> insert f (used_frames (pm s))"
  shows "spare s \<le> Suc (spare s')"
proof -
  have "{f \<in> free_frames (pm s). f < unat (max_frames (pm s))} \<subseteq>
      insert f {f \<in> free_frames (pm s'). f < unat (max_frames (pm s'))}"
    using assms by (auto simp: free_frames_def)
  then have "spare s \<le> card (insert f {f \<in> free_frames (pm s'). f < unat (max_frames (pm s'))})"
    unfolding spare_def by (rule card_mono[rotated]) (simp add: free_frames_def)
  also have "\<dots> \<le> Suc (spare s')" unfolding spare_def by (simp add: card_insert_if free_frames_def)
  finally show ?thesis .
qed

lemma alloc_space:
  assumes "space_ok L s" "pmm_alloc_block (pm s) = Inr (F, p)" "F \<noteq> 0"
  shows "space_ok L (s\<lparr>pm := p\<rparr>)" "data_area L s \<subseteq> data_area L (s\<lparr>pm := p\<rparr>)"
    "unat (frame F) \<notin> used_frames (pm s)" "frame F \<notin> tables s" "unat (frame F) < L" "page_base F = F"
    "unat (frame F) \<in> used_frames p" "spare s \<le> Suc (spare (s\<lparr>pm := p\<rparr>))"
    "L \<le> unat (frame x) \<Longrightarrow> present s x \<Longrightarrow> frame (ptes s x) \<noteq> frame F"
proof -
  note pok = space_paging[OF assms(1)]
  note fr = fresh_frame[OF pok assms(2,3)]
  have ptes: "ptes (s\<lparr>pm := p\<rparr>) = ptes s" by (rule ext) (simp add: ptes_def)
  have "pmm_ok (pm s)" using pok by (simp add: paging_ok_def)
  from pmm.alloc_fresh[OF this assms(2,3)] show new: "unat (frame F) \<notin> used_frames (pm s)" by (simp add: frame_nat)
  show "frame F \<notin> tables s" "unat (frame F) < L" "page_base F = F" by (fact fr)+
  show "unat (frame F) \<in> used_frames p" using fr(5) by simp
  have "paging_ok L (s\<lparr>pm := p\<rparr>)" using pok fr(4-6) unfolding paging_ok_def ptes by auto
  then show "space_ok L (s\<lparr>pm := p\<rparr>)" using assms(1) fr(5) unfolding space_ok_def ptes by simp
  show "data_area L s \<subseteq> data_area L (s\<lparr>pm := p\<rparr>)" unfolding data_area_def ptes using fr(5) by auto
  show "spare s \<le> Suc (spare (s\<lparr>pm := p\<rparr>))" using fr(5,6) by (intro spare_insert[where f = "unat (frame F)"]) simp_all
  show "frame (ptes s x) \<noteq> frame F" if "L \<le> unat (frame x)" "present s x"
    using that assms(1) new unfolding space_ok_def by metis
qed

text \<open>What mapping one more user page does to the address space.\<close>

definition grown :: "nat \<Rightarrow> 'a vm_scheme \<Rightarrow> 'a vm_scheme \<Rightarrow> bool" where
  "grown L s s' \<longleftrightarrow> space_ok L s' \<and> data_area L s \<subseteq> data_area L s' \<and> (\<forall>a \<in> data_area L s. ld8 (mc s') a = ld8 (mc s) a) \<and>
     page_direc s' = page_direc s \<and> scr s' = scr s \<and> vm.more s' = vm.more s"

lemma grown_trans: "grown L s s1 \<Longrightarrow> grown L s1 s2 \<Longrightarrow> grown L s s2"
  by (auto simp: grown_def)

lemma frame_or_flags: "frame (F OR 7 OR 1) = frame F"
  by (simp add: frame_def)

lemma flags_or: "(F OR 7 OR 1 :: u32) AND 7 = 7"
proof (rule bit_word_eqI)
  fix n
  show "bit ((F OR 7 OR 1 :: u32) AND 7) n = bit (7 :: u32) n" by (auto simp: bit_and_iff bit_or_iff)
qed

text \<open>
  The state \<open>s'\<close> has one user page more than \<open>s\<close>: the page of \<open>va\<close>, on the frame \<open>F\<close> that nothing used
  before; new page tables lie in frames that were free.
\<close>

definition one_more :: "nat \<Rightarrow> 'a vm_scheme \<Rightarrow> 'a vm_scheme \<Rightarrow> u32 \<Rightarrow> u32 \<Rightarrow> bool" where
  "one_more L s s' va F \<longleftrightarrow> space_ok L s \<and> paging_ok L s' \<and> \<not> present s va \<and>
     (\<forall>x. ptes s' x = (if frame x = frame va then F OR 7 OR 1 else ptes s x)) \<and>
     (\<forall>x. frame x \<notin> tables s' \<longrightarrow> phys (mc s') x = phys (mc s) x) \<and>
     (\<forall>f. f \<notin> tables s \<longrightarrow> unat f \<in> used_frames (pm s) \<or> f = frame F \<longrightarrow> f \<notin> tables s') \<and>
     insert (unat (frame F)) (used_frames (pm s)) \<subseteq> used_frames (pm s') \<and>
     unat (frame F) \<notin> used_frames (pm s) \<and> frame F \<notin> tables s"

lemma one_moreD:
  assumes "one_more L s s' va F"
  shows "space_ok L s" "paging_ok L s'" "\<not> present s va" "ptes s' x = (if frame x = frame va then F OR 7 OR 1 else ptes s x)"
    "frame x \<notin> tables s' \<Longrightarrow> phys (mc s') x = phys (mc s) x"
    "f \<notin> tables s \<Longrightarrow> unat f \<in> used_frames (pm s) \<or> f = frame F \<Longrightarrow> f \<notin> tables s'"
    "unat (frame F) \<in> used_frames (pm s')" "used_frames (pm s) \<subseteq> used_frames (pm s')"
    "unat (frame F) \<notin> used_frames (pm s)" "frame F \<notin> tables s"
    "L \<le> unat (frame x) \<Longrightarrow> present s x \<Longrightarrow> frame (ptes s x) \<noteq> frame F"
proof -
  show om: "space_ok L s" "paging_ok L s'" "\<not> present s va" "ptes s' x = (if frame x = frame va then F OR 7 OR 1 else ptes s x)"
    "frame x \<notin> tables s' \<Longrightarrow> phys (mc s') x = phys (mc s) x"
    "unat (frame F) \<in> used_frames (pm s')" "used_frames (pm s) \<subseteq> used_frames (pm s')"
    "unat (frame F) \<notin> used_frames (pm s)" "frame F \<notin> tables s"
    using assms by (simp_all add: one_more_def)
  show "f \<notin> tables s'" if "f \<notin> tables s" "unat f \<in> used_frames (pm s) \<or> f = frame F"
    using that assms unfolding one_more_def by blast
  show "frame (ptes s x) \<noteq> frame F" if "L \<le> unat (frame x)" "present s x"
    using that om(1,8) unfolding space_ok_def by metis
qed

lemma one_more_space:
  assumes "one_more L s s' va F"
  shows "space_ok L s'"
proof -
  note om = one_moreD[OF assms]
  have "ptes s' x AND 7 = 7 \<and> frame (ptes s' x) \<notin> tables s' \<and> unat (frame (ptes s' x)) \<in> used_frames (pm s') \<and>
      (\<forall>y. L \<le> unat (frame y) \<longrightarrow> present s' y \<longrightarrow> frame (ptes s' x) = frame (ptes s' y) \<longrightarrow> frame x = frame y)"
    if x: "L \<le> unat (frame x)" "present s' x" for x
  proof (cases "frame x = frame va")
    case True
    have F: "ptes s' x = F OR 7 OR 1" using om(4)[of x] True by simp
    have "frame y = frame va" if "L \<le> unat (frame y)" "present s' y" "frame F = frame (ptes s' y)" for y
      using that om(4)[of y] om(11)[of y] by (auto split: if_splits)
    then show ?thesis
      using True om(6)[OF om(10)] om(7) by (auto simp: F flags_or frame_or_flags)
  next
    case False
    then have old_x: "ptes s' x = ptes s x" "present s x" using om(4)[of x] x by auto
    have sx: "ptes s x AND 7 = 7" "frame (ptes s x) \<notin> tables s" "unat (frame (ptes s x)) \<in> used_frames (pm s)"
      using om(1) x(1) old_x(2) unfolding space_ok_def by blast+
    have "frame x = frame y" if "L \<le> unat (frame y)" "present s' y" "frame (ptes s x) = frame (ptes s' y)" for y
    proof (cases "frame y = frame va")
      case True
      then show ?thesis using that om(4)[of y] om(11)[OF x(1) old_x(2)] by (simp add: frame_or_flags)
    next
      case False
      then show ?thesis using that om(4)[of y] om(1) x(1) old_x(2) unfolding space_ok_def by metis
    qed
    then show ?thesis using sx om(6)[OF sx(2)] om(8) by (auto simp: old_x(1))
  qed
  then show ?thesis using om(2) unfolding space_ok_def by blast
qed

lemma one_more_data:
  assumes "one_more L s s' va F" "a \<in> data_area L s"
  shows "a \<in> data_area L s'" "ld8 (mc s') a = ld8 (mc s) a"
proof -
  note om = one_moreD[OF assms(1)] and pr = data_present[OF space_paging[OF one_moreD(1)[OF assms(1)]] assms(2)]
  have "frame a \<noteq> frame va" using pr om(3) ptes_cong[of a va s] by auto
  then have same: "ptes s' a = ptes s a" using om(4)[of a] by simp
  show "a \<in> data_area L s'"
  proof (cases "L \<le> unat (frame a)")
    case True
    then show ?thesis using same pr by (simp add: data_area_def)
  next
    case False
    then have w: "unat (frame a) \<in> used_frames (pm s)" "frame a \<notin> tables s"
      "\<And>x. L \<le> unat (frame x) \<Longrightarrow> present s x \<Longrightarrow> frame (ptes s x) \<noteq> frame a"
      using assms(2) by (auto simp: data_area_def)
    have "frame (ptes s' x) \<noteq> frame a" if "L \<le> unat (frame x)" "present s' x" for x
      using that om(4)[of x] w(1,3) om(9) frame_or_flags[of F] by (auto split: if_splits)
    then show ?thesis using False w om(6)[OF w(2)] om(8) by (auto simp: data_area_def)
  qed
  have tr: "translate (mc s') a = translate (mc s) a"
    using paging_translate[OF om(2), of a] paging_translate[OF space_paging[OF om(1)], of a] same by simp
  have "frame (ptes s a) \<notin> tables s'" using om(6) data_frame[OF om(1) assms(2)] by blast
  then have "phys (mc s') (page_base (ptes s a) + (a AND 0xFFF)) = phys (mc s) (page_base (ptes s a) + (a AND 0xFFF))"
    by (intro om(5)) simp
  then show "ld8 (mc s') a = ld8 (mc s) a"
    using tr paging_translate[OF space_paging[OF om(1)], of a] pr by (simp add: ld8_def)
qed

lemma map_fresh:
  assumes ok: "space_ok L s" and alloc: "pmm_alloc_block (pm s) = Inr (F, p)" "F \<noteq> 0"
    and va: "L \<le> unat (frame va)" "\<not> present s va" and room: "1 < spare s"
  shows "\<exists>s'. map_page F va 7 (s\<lparr>pm := p\<rparr>) = Inr s' \<and> grown L s s' \<and> present s' va \<and>
    (\<forall>x. present s x \<longrightarrow> present s' x) \<and> spare s \<le> spare s' + 2 \<and>
    (\<forall>x. ptes s' x = (if frame x = frame va then F OR 7 OR 1 else ptes s x))"
proof -
  let ?s1 = "s\<lparr>pm := p\<rparr>"
  note al = alloc_space[OF ok alloc]
  have ptes1: "ptes ?s1 = ptes s" by (rule ext) (simp add: ptes_def)
  have "0 < spare ?s1" using room al(8) by simp
  then have "\<not> map_oom va ?s1" unfolding spare_pos map_oom_def by (auto simp: not_le)
  then obtain s' where s': "map_page F va 7 ?s1 = Inr s'" "map_post L va (F OR 7 OR 1) ?s1 s'"
    using map_page_spec[OF space_paging[OF al(1)], of F va 7] by auto
  note mp = s'(2)[unfolded map_post_def ptes1]
  have dir: "page_direc s' = page_direc s" and keep: "scr s' = scr s" "vm.more s' = vm.more s" "max_frames (pm s') = max_frames p"
    and view: "ptes s' x = (if frame x = frame va then F OR 7 OR 1 else ptes s x)"
    and other: "frame x \<notin> tables s' \<Longrightarrow> phys (mc s') x = phys (mc s) x"
    and tabs: "f \<in> tables s' \<Longrightarrow> f \<in> tables s \<or> unat f \<notin> used_frames p"
    and used: "used_frames p \<subseteq> used_frames (pm s')" and pok': "paging_ok L s'" for x f
    using mp va(1) by auto
  have usedF: "used_frames (pm s) \<subseteq> used_frames p" using fresh_frame(5)[OF space_paging[OF ok] alloc] by auto
  have om: "one_more L s s' va F"
    unfolding one_more_def using ok pok' va(2) view other tabs used usedF al(3,4,7) by blast
  obtain f where "used_frames (pm s') \<subseteq> insert f (used_frames (pm ?s1))" using mp by auto
  then have "spare ?s1 \<le> Suc (spare s')" using keep(3) by (intro spare_insert) simp_all
  then have sp: "spare s \<le> spare s' + 2" using al(8) by simp
  have "grown L s s'" using one_more_space[OF om] one_more_data[OF om] dir keep by (auto simp: grown_def)
  moreover have "present s' va" using view[of va] by (simp add: present_or)
  moreover have "present s' x" if "present s x" for x using that view[of x] by (auto simp: present_or)
  ultimately show ?thesis using s'(1) sp view by blast
qed

text \<open>Mapping does not move the bump pointer of kmalloc.\<close>

lemma store32_pm: "store32 a v s = Inr s' \<Longrightarrow> pm s' = pm s"
  by (auto simp: store32_def bindE_eq_Inr)

lemma alloc_bump:
  assumes "pmm_ok p" "pmm_alloc_block p = Inr (a, p')"
  shows "free_mem_addr p' = free_mem_addr p"
  using assms(1) by (cases rule: pmm_alloc_cases) (use assms(2) in auto)

lemma map_page_bump:
  assumes "map_page pa va fl s = Inr s'" "pmm_ok (pm s)"
  shows "free_mem_addr (pm s') = free_mem_addr (pm s)"
proof -
  have many: "pm s2 = pm s1" if "foldE (\<lambda>i. store32 (b + 4 * of_nat i) 0) xs s1 = Inr s2" for b xs and s1 s2 :: "'a vm_scheme"
    using that by (rule foldE_invariant[where P = "\<lambda>t. pm t = pm s1"]) (auto dest: store32_pm)
  have al: "free_mem_addr p = free_mem_addr (pm s)" if "pmm_alloc_block (pm s) = Inr (a, p)" for a p
    using alloc_bump[OF assms(2) that] .
  show ?thesis
    using assms(1) by (auto simp: map_page_def bindE_eq_Inr Let_def kprint_def dest!: al many store32_pm split: if_splits prod.splits)
qed

end
