(* ===== verification/Ata.thy ===== *)
theory Ata
  imports Prelude
begin

text \<open>
  The disk driver of src/src/ata.c: programmed I/O on the primary ATA channel with 28-bit
  sector addresses. The device is its task-file registers and its sectors; the port writes of
  the driver set the registers one by one, and the command byte makes the device decode the
  address from them. The polling loops are left out here; \<open>Ata_Port\<close> has the
  driver with them and refines it to this view. A sector is 512 bytes, transferred as 256 words.
\<close>

section \<open>The device\<close>

record ata_dev =
  drive_head :: u8
  sector_count :: u8
  lba_low :: u8
  lba_mid :: u8
  lba_high :: u8
  sectors :: "u32 \<Rightarrow> u8 list"

text \<open>A byte written to one of the registers of the channel; commands are below.\<close>

definition ata_outb :: "u16 \<Rightarrow> u8 \<Rightarrow> ata_dev \<Rightarrow> ata_dev" where
  "ata_outb port v d =
     (if port = 0x1F6 then d\<lparr>drive_head := v\<rparr>
      else if port = 0x1F2 then d\<lparr>sector_count := v\<rparr>
      else if port = 0x1F3 then d\<lparr>lba_low := v\<rparr>
      else if port = 0x1F4 then d\<lparr>lba_mid := v\<rparr>
      else if port = 0x1F5 then d\<lparr>lba_high := v\<rparr>
      else d)"

text \<open>The sector the registers address.\<close>

definition ata_address :: "ata_dev \<Rightarrow> u32" where
  "ata_address d =
     ucast (lba_low d) OR push_bit 8 (ucast (lba_mid d)) OR push_bit 16 (ucast (lba_high d))
     OR push_bit 24 (ucast (drive_head d AND 0x0F))"

definition le16 :: "u8 \<Rightarrow> u8 \<Rightarrow> u16" where
  "le16 b0 b1 = ucast b0 OR push_bit 8 (ucast b1)"

text \<open>The 256 words of a 512-byte buffer, and the bytes of a sequence of words.\<close>

definition words_of :: "u8 list \<Rightarrow> u16 list" where
  "words_of bs = map (\<lambda>i. le16 (bs ! (2 * i)) (bs ! (2 * i + 1))) [0..<256]"

definition bytes_of :: "u16 list \<Rightarrow> u8 list" where
  "bytes_of ws = concat (map (\<lambda>w. [ucast w, ucast (drop_bit 8 w)]) ws)"

section \<open>The driver\<close>

definition ata_select :: "u32 \<Rightarrow> ata_dev \<Rightarrow> ata_dev" where
  "ata_select lba d =
     (let d1 = ata_outb 0x1F6 (ucast (0xE0 OR (drop_bit 24 lba AND 0x0F))) d;
          d2 = ata_outb 0x1F2 1 d1;
          d3 = ata_outb 0x1F3 (ucast lba) d2;
          d4 = ata_outb 0x1F4 (ucast (drop_bit 8 lba)) d3
      in ata_outb 0x1F5 (ucast (drop_bit 16 lba)) d4)"

definition ata_read_sector :: "u32 \<Rightarrow> ata_dev \<Rightarrow> u8 list \<times> ata_dev" where
  "ata_read_sector lba d =
     (let d1 = ata_select lba d in (bytes_of (words_of (sectors d1 (ata_address d1))), d1))"

definition ata_write_sector :: "u32 \<Rightarrow> u8 list \<Rightarrow> ata_dev \<Rightarrow> ata_dev" where
  "ata_write_sector lba buf d =
     (let d1 = ata_select lba d
      in d1\<lparr>sectors := (sectors d1)(ata_address d1 := bytes_of (words_of buf))\<rparr>)"

section \<open>Facts\<close>

definition disk_ok :: "ata_dev \<Rightarrow> bool" where
  "disk_ok d \<longleftrightarrow> (\<forall>a. length (sectors d a) = 512)"

lemma bytes_of_length: "length (bytes_of ws) = 2 * length ws"
  by (induction ws) (simp_all add: bytes_of_def)

lemma bytes_of_nth: "i < length ws \<Longrightarrow> bytes_of ws ! (2 * i) = ucast (ws ! i) \<and> bytes_of ws ! (2 * i + 1) = ucast (drop_bit 8 (ws ! i))"
proof (induction ws arbitrary: i)
  case Nil
  then show ?case by simp
next
  case (Cons w ws)
  then show ?case by (cases i) (auto simp: bytes_of_def)
qed

lemma le16_bytes [simp]: "ucast (le16 a b) = a" "ucast (drop_bit 8 (le16 a b)) = b"
  by (rule bit_word_eqI; auto simp: le16_def bit_simps dest: bit_imp_le_length)+

lemma le16_of_bytes: "le16 (ucast w) (ucast (drop_bit 8 w)) = w"
proof (rule bit_word_eqI)
  fix n :: nat
  assume "n < LENGTH(16)"
  then show "bit (le16 (ucast w) (ucast (drop_bit 8 w))) n = bit w n"
    by (cases "n < 8") (auto simp: le16_def bit_simps)
qed

lemma words_bytes: "length bs = 512 \<Longrightarrow> bytes_of (words_of bs) = bs"
proof (rule nth_equalityI)
  assume len: "length bs = 512"
  then show "length (bytes_of (words_of bs)) = length bs" by (simp add: bytes_of_length words_of_def)
  fix i
  assume "i < length (bytes_of (words_of bs))"
  then have i: "i div 2 < 256" by (simp add: bytes_of_length words_of_def)
  have w: "words_of bs ! (i div 2) = le16 (bs ! (2 * (i div 2))) (bs ! (2 * (i div 2) + 1))" "length (words_of bs) = 256"
    using i by (simp_all add: words_of_def)
  have "i = 2 * (i div 2) \<or> i = 2 * (i div 2) + 1" by presburger
  then show "bytes_of (words_of bs) ! i = bs ! i"
    using bytes_of_nth[of "i div 2" "words_of bs"] w i by (metis le16_bytes)
qed

text \<open>The device decodes the low 28 bits of the sector number from what the driver wrote.\<close>

lemma head_nibble: "ucast (0xE0 OR (x AND 0x0F) :: u32) AND (0x0F :: u8) = ucast x AND 0x0F"
proof (rule bit_word_eqI)
  fix n :: nat
  assume "n < LENGTH(8)"
  then consider "n = 0" | "n = 1" | "n = 2" | "n = 3" | "n = 4" | "n = 5" | "n = 6" | "n = 7" by fastforce
  then show "bit (ucast (0xE0 OR (x AND 0x0F) :: u32) AND (0x0F :: u8)) n = bit (ucast x AND (0x0F :: u8)) n"
    by cases (simp_all add: bit_and_iff bit_or_iff bit_ucast_iff)
qed

lemma ata_select_regs:
  "lba_low (ata_select lba d) = ucast lba" "lba_mid (ata_select lba d) = ucast (drop_bit 8 lba)"
  "lba_high (ata_select lba d) = ucast (drop_bit 16 lba)"
  "drive_head (ata_select lba d) AND 0x0F = ucast (drop_bit 24 lba) AND 0x0F"
  using head_nibble[of "drop_bit 24 lba"] by (simp_all add: ata_select_def ata_outb_def Let_def)

lemma ata_select_address: "ata_address (ata_select lba d) = lba AND 0x0FFFFFFF"
proof (rule bit_word_eqI)
  fix n :: nat
  assume n: "n < LENGTH(32)"
  have m: "(0x0FFFFFFF :: u32) = mask 28" "(0x0F :: u8) = mask 4" by (simp_all add: mask_eq_exp_minus_1)
  consider "n < 8" | "8 \<le> n" "n < 16" | "16 \<le> n" "n < 24" | "24 \<le> n" by linarith
  then show "bit (ata_address (ata_select lba d)) n = bit (lba AND 0x0FFFFFFF) n"
    using n unfolding ata_address_def ata_select_regs unfolding m by cases (auto simp: bit_simps)
qed

lemma ata_select_sectors [simp]: "sectors (ata_select lba d) = sectors d"
  by (simp add: ata_select_def ata_outb_def Let_def)

text \<open>What the file system sees of the driver, on a disk of 512-byte sectors.\<close>

lemma ata_read_eq: "disk_ok d \<Longrightarrow> ata_read_sector lba d = (sectors d (lba AND 0x0FFFFFFF), ata_select lba d)"
  by (simp add: ata_read_sector_def Let_def ata_select_address words_bytes disk_ok_def)

lemma ata_write_eq:
  "length buf = 512 \<Longrightarrow>
   ata_write_sector lba buf d = (ata_select lba d)\<lparr>sectors := (sectors d)(lba AND 0x0FFFFFFF := buf)\<rparr>"
  by (simp add: ata_write_sector_def Let_def ata_select_address words_bytes)

lemma disk_ok_frame [simp]:
  "disk_ok (ata_select lba d) = disk_ok d"
  "disk_ok d \<Longrightarrow> length buf = 512 \<Longrightarrow> disk_ok (ata_write_sector lba buf d)"
  by (simp_all add: disk_ok_def ata_write_eq)

lemma lba28: "unat lba < 268435456 \<Longrightarrow> lba AND 0x0FFFFFFF = (lba :: u32)"
proof -
  assume l: "unat lba < 268435456"
  have "lba AND 0x0FFFFFFF = take_bit 28 lba" by (simp add: take_bit_eq_mask mask_eq_exp_minus_1)
  then show ?thesis
    using l by (simp add: word_unat_eq_iff unsigned_take_bit_eq take_bit_eq_mod unat_mod)
qed

text \<open>
  A block device: what a client of the driver relies on. Reading gives what was last written
  to the sector, and writing one sector leaves the others alone.
\<close>

locale block_device =
  fixes rd :: "'a \<Rightarrow> 'd \<Rightarrow> 'b \<times> 'd"
    and wr :: "'a \<Rightarrow> 'b \<Rightarrow> 'd \<Rightarrow> 'd"
    and content :: "'d \<Rightarrow> 'a \<Rightarrow> 'b"
    and valid :: "'a \<Rightarrow> bool"
    and block :: "'b \<Rightarrow> bool"
    and ok :: "'d \<Rightarrow> bool"
  assumes rd_content: "ok d \<Longrightarrow> valid a \<Longrightarrow> fst (rd a d) = content d a"
    and rd_keeps: "ok d \<Longrightarrow> content (snd (rd a d)) = content d \<and> ok (snd (rd a d))"
    and wr_content: "ok d \<Longrightarrow> valid a \<Longrightarrow> valid b \<Longrightarrow> block x \<Longrightarrow>
      content (wr a x d) b = (if a = b then x else content d b)"
    and wr_ok: "ok d \<Longrightarrow> block x \<Longrightarrow> ok (wr a x d)"
begin

fun write_all :: "('a \<times> 'b) list \<Rightarrow> 'd \<Rightarrow> 'd" where
  "write_all [] d = d"
| "write_all ((a, x) # axs) d = write_all axs (wr a x d)"

lemma write_all_ok: "ok d \<Longrightarrow> (\<And>a x. (a, x) \<in> set axs \<Longrightarrow> block x) \<Longrightarrow> ok (write_all axs d)"
  by (induction axs d rule: write_all.induct) (auto intro!: wr_ok)

text \<open>Blocks written to distinct addresses are all found there afterwards, and nothing else changes.\<close>

lemma write_all_content:
  assumes "ok d" "distinct (map fst axs)" "\<And>a x. (a, x) \<in> set axs \<Longrightarrow> valid a \<and> block x" "valid b"
  shows "content (write_all axs d) b = (case map_of axs b of Some x \<Rightarrow> x | None \<Rightarrow> content d b)"
  using assms
proof (induction axs d rule: write_all.induct)
  case (1 d)
  then show ?case by simp
next
  case (2 a x axs d)
  have va: "valid a" "block x" using "2.prems"(3)[of a x] by simp_all
  have "ok (wr a x d)" using "2.prems"(1) va wr_ok by blast
  then have IH: "content (write_all axs (wr a x d)) b =
      (case map_of axs b of Some x \<Rightarrow> x | None \<Rightarrow> content (wr a x d) b)"
    using "2.IH"[of] "2.prems"(2,4) "2.prems"(3)[OF list.set_intros(2)] by simp
  have "map_of axs a = None" using "2.prems"(2) by (auto simp: map_of_eq_None_iff)
  then show ?case
    using IH wr_content[OF "2.prems"(1) va(1) "2.prems"(4) va(2)] by (auto split: option.splits)
qed

end

definition valid_lba :: "u32 \<Rightarrow> bool" where
  "valid_lba lba \<longleftrightarrow> unat lba < 268435456"

interpretation ata: block_device ata_read_sector ata_write_sector sectors valid_lba "\<lambda>b. length b = 512" disk_ok
  by unfold_locales (auto simp: ata_read_eq lba28 valid_lba_def, simp_all add: ata_write_eq lba28)

section \<open>Properties\<close>

text \<open>
  Sectors written by ata_write_sector to distinct addresses below 2 to the 28 are read back by
  ata_read_sector as they were written, and every other sector reads as before.
\<close>

theorem ata_write_read:
  assumes "disk_ok d" "distinct (map fst ws)" "\<forall>(lba, buf) \<in> set ws. valid_lba lba \<and> length buf = 512" "valid_lba lba"
  shows "fst (ata_read_sector lba (ata.write_all ws d)) =
    (case map_of ws lba of Some buf \<Rightarrow> buf | None \<Rightarrow> fst (ata_read_sector lba d))"
proof -
  have b: "valid_lba a \<and> length x = 512" if "(a, x) \<in> set ws" for a x using assms(3) that by auto
  have "disk_ok (ata.write_all ws d)" using ata.write_all_ok[OF assms(1)] b by blast
  then show ?thesis
    using ata.rd_content[OF _ assms(4)] ata.write_all_content[OF assms(1,2) b assms(4)] assms(1) by (simp split: option.splits)
qed

definition sample_disk :: ata_dev where
  "sample_disk = \<lparr>drive_head = 0, sector_count = 0, lba_low = 0, lba_mid = 0, lba_high = 0, sectors = (\<lambda>_. replicate 512 0)\<rparr>"

theorem ata_write_read_witness:
  "fst (ata_read_sector 7 (ata.write_all [(5, replicate 512 1), (7, replicate 512 2)] sample_disk)) =
    (case map_of [(5 :: u32, replicate 512 1), (7, replicate 512 2)] 7 of Some buf \<Rightarrow> buf | None \<Rightarrow> fst (ata_read_sector 7 sample_disk))"
  by (rule ata_write_read) (simp_all add: disk_ok_def sample_disk_def valid_lba_def)

text \<open>
  The driver passes 28 bits of the sector number only: sectors whose numbers differ by
  a multiple of 2 to the 28 are the same sector to it.
\<close>

theorem ata_lba_wraps:
  assumes "disk_ok d" "length buf = 512"
  shows "fst (ata_read_sector (lba AND 0x0FFFFFFF) (ata_write_sector lba buf d)) = buf"
proof -
  have "disk_ok (ata_write_sector lba buf d)" using assms by simp
  from ata_read_eq[OF this] show ?thesis using assms(2) by (simp add: ata_write_eq and.assoc)
qed

theorem ata_lba_wraps_witness:
  "fst (ata_read_sector (0x10000005 AND 0x0FFFFFFF) (ata_write_sector 0x10000005 (replicate 512 9) sample_disk)) = replicate 512 9"
  by (rule ata_lba_wraps) (simp_all add: disk_ok_def sample_disk_def)

end
