(* ===== verification/Fat16.thy ===== *)
theory Fat16
  imports Ata Paging CString
begin

text \<open>
  The FAT16 driver of src/src/fat16.c over the sectors of the disk: names in 8.3 form, the
  file allocation table, the root directory, and reading and writing of whole files. The
  512-byte stack buffers of the source are byte lists; an index past them is the fault
  \<open>OutOfArray\<close>, a division by a field of the boot sector that is zero is \<open>DivideError\<close>, and
  the loops along a cluster chain take fuel. A file's bytes go to the caller as a list, which
  is what the code stores into the caller's buffer from its start.
\<close>

section \<open>Names\<close>

definition to_upper :: "u8 \<Rightarrow> u8" where
  "to_upper c = (if c \<ge> 97 \<and> c \<le> 122 then c - 32 else c)"

function name_loop :: "u8 list \<Rightarrow> nat \<Rightarrow> u8 list \<Rightarrow> u8 list \<times> u8 list" where
  "name_loop input i name8 =
     (if cur input \<noteq> 0 \<and> cur input \<noteq> 46 \<and> i < 8
      then name_loop (tl input) (Suc i) (name8[i := to_upper (cur input)])
      else (input, name8))"
  by pat_completeness auto
termination
  by (relation "measure (\<lambda>(input, i, name8). length input)") (auto simp: cur_nonzero)

function skip_loop :: "u8 list \<Rightarrow> u8 list" where
  "skip_loop input = (if cur input \<noteq> 0 \<and> cur input \<noteq> 46 then skip_loop (tl input) else input)"
  by pat_completeness auto
termination
  by (relation "measure length") (auto simp: cur_nonzero)

function ext_loop :: "u8 list \<Rightarrow> nat \<Rightarrow> u8 list \<Rightarrow> u8 list" where
  "ext_loop input ext_i ext3 =
     (if cur input \<noteq> 0 \<and> ext_i < 3
      then ext_loop (tl input) (Suc ext_i) (ext3[ext_i := to_upper (cur input)])
      else ext3)"
  by pat_completeness auto
termination
  by (relation "measure (\<lambda>(input, i, ext3). length input)") (auto simp: cur_nonzero)

declare name_loop.simps [simp del] skip_loop.simps [simp del] ext_loop.simps [simp del]

definition fat16_format_83 :: "u8 list \<Rightarrow> u8 list \<times> u8 list" where
  "fat16_format_83 input =
     (let name8 = replicate 8 32; ext3 = replicate 3 32;
          (rest, name8) = name_loop input 0 name8;
          rest = skip_loop rest
      in if cur rest = 46 then (name8, ext_loop (tl rest) 0 ext3) else (name8, ext3))"

section \<open>On-disk structures\<close>

definition get16 :: "u8 list \<Rightarrow> nat \<Rightarrow> u16" where
  "get16 bs i = le16 (bs ! i) (bs ! (i + 1))"

definition get32l :: "u8 list \<Rightarrow> nat \<Rightarrow> u32" where
  "get32l bs i = le32 (bs ! i) (bs ! (i + 1)) (bs ! (i + 2)) (bs ! (i + 3))"

record fat16_bpb =
  jump :: "u8 list"
  oem :: "u8 list"
  bytes_per_sector :: u16
  sectors_per_clustor :: u8
  reserved_sectors :: u16
  fat_count :: u8
  root_dir_entries :: u16
  total_sectors_small :: u16
  media_descriptor :: u8
  sectors_per_fat :: u16
  sectors_per_track :: u16
  num_heads :: u16
  hidden_sectors :: u32
  total_sectors_large :: u32
  drive_number :: u8
  bpb_reserved :: u8
  boot_signature :: u8
  volume_id :: u32
  volume_label :: "u8 list"
  fs_type :: "u8 list"

text \<open>The boot sector read as the packed structure.\<close>

definition bpb_of :: "u8 list \<Rightarrow> fat16_bpb" where
  "bpb_of b = \<lparr>jump = take 3 b, oem = take 8 (drop 3 b), bytes_per_sector = get16 b 11, sectors_per_clustor = b ! 13,
     reserved_sectors = get16 b 14, fat_count = b ! 16, root_dir_entries = get16 b 17, total_sectors_small = get16 b 19,
     media_descriptor = b ! 21, sectors_per_fat = get16 b 22, sectors_per_track = get16 b 24, num_heads = get16 b 26,
     hidden_sectors = get32l b 28, total_sectors_large = get32l b 32, drive_number = b ! 36, bpb_reserved = b ! 37,
     boot_signature = b ! 38, volume_id = get32l b 39, volume_label = take 11 (drop 43 b), fs_type = take 8 (drop 54 b)\<rparr>"

record fat16_dir_entry =
  filename :: "u8 list"
  ex :: "u8 list"
  attributes :: u8
  de_reserved :: u8
  creation_time_tenths :: u8
  creation_time :: u16
  creation_date :: u16
  last_access_date :: u16
  high_first_cluster :: u16
  last_mod_time :: u16
  last_mod_date :: u16
  low_first_cluster :: u16
  file_size :: u32

text \<open>Entry \<open>e\<close> of a directory sector.\<close>

definition dir_entry_at :: "u8 list \<Rightarrow> nat \<Rightarrow> fat16_dir_entry" where
  "dir_entry_at b e = (let o' = 32 * e in
     \<lparr>filename = take 8 (drop o' b), ex = take 3 (drop (o' + 8) b), attributes = b ! (o' + 11), de_reserved = b ! (o' + 12),
      creation_time_tenths = b ! (o' + 13), creation_time = get16 b (o' + 14), creation_date = get16 b (o' + 16),
      last_access_date = get16 b (o' + 18), high_first_cluster = get16 b (o' + 20), last_mod_time = get16 b (o' + 22),
      last_mod_date = get16 b (o' + 24), low_first_cluster = get16 b (o' + 26), file_size = get32l b (o' + 28)\<rparr>)"

section \<open>The volume and the file allocation table\<close>

record fat16_vol =
  disk :: ata_dev
  g_bpb :: fat16_bpb
  fat_start_sector :: u32
  root_dir_start :: u32
  root_dir_sectors :: u32
  data_start_sector :: u32

definition rd_sector :: "u32 \<Rightarrow> fat16_vol \<Rightarrow> u8 list \<times> fat16_vol" where
  "rd_sector lba v = (let (buf, d) = ata_read_sector lba (disk v) in (buf, v\<lparr>disk := d\<rparr>))"

definition wr_sector :: "u32 \<Rightarrow> u8 list \<Rightarrow> fat16_vol \<Rightarrow> fat16_vol" where
  "wr_sector lba buf v = v\<lparr>disk := ata_write_sector lba buf (disk v)\<rparr>"

definition fat16_cluster_to_lba :: "u16 \<Rightarrow> fat16_vol \<Rightarrow> u32" where
  "fat16_cluster_to_lba cluster v = data_start_sector v + (ucast cluster - 2) * ucast (sectors_per_clustor (g_bpb v))"

definition fat16_read_fat_entry :: "u16 \<Rightarrow> fat16_vol \<Rightarrow> (u16 \<times> fat16_vol) res" where
  "fat16_read_fat_entry cluster v =
     (let fat_offset = ucast cluster * 2 :: u32;
          bps = ucast (bytes_per_sector (g_bpb v)) :: u32
      in if bps = 0 then Inl DivideError
         else
           (let fat_sector = fat_start_sector v + fat_offset div bps;
                entry_offset = unat (fat_offset mod bps);
                (buf, v1) = rd_sector fat_sector v
            in if entry_offset + 1 < 512 then Inr (get16 buf entry_offset, v1)
               else Inl (OutOfArray (entry_offset + 1))))"

definition fat16_write_fat_entry :: "u16 \<Rightarrow> u16 \<Rightarrow> fat16_vol \<Rightarrow> fat16_vol res" where
  "fat16_write_fat_entry cluster val v =
     (let fat_offset = 2 * ucast cluster :: u32;
          bps = ucast (bytes_per_sector (g_bpb v)) :: u32
      in if bps = 0 then Inl DivideError
         else
           (let fat1_sector = fat_start_sector v + fat_offset div bps;
                entry_offset = unat (fat_offset mod bps);
                (buf, v1) = rd_sector fat1_sector v
            in if entry_offset + 1 < 512 then
                 (let buf1 = buf[entry_offset := ucast val, entry_offset + 1 := ucast (drop_bit 8 val)];
                      v2 = wr_sector fat1_sector buf1 v1;
                      fat2_sector = fat1_sector + ucast (sectors_per_fat (g_bpb v2))
                  in Inr (wr_sector fat2_sector buf1 v2))
               else Inl (OutOfArray (entry_offset + 1))))"

function find_free_loop :: "u16 \<Rightarrow> u16 \<Rightarrow> fat16_vol \<Rightarrow> (u16 \<times> fat16_vol) res" where
  "find_free_loop c bound v =
     (if c < bound then
        bindE (fat16_read_fat_entry c v) (\<lambda>(x, v1).
          if x = 0 then Inr (c, v1) else find_free_loop (c + 1) bound v1)
      else Inr (0, v))"
  by pat_completeness auto
termination
proof (relation "measure (\<lambda>(c, bound, v). unat bound - unat c)")
  fix c bound :: u16
  assume "c < bound"
  then have "unat (c + 1) = unat c + 1" "unat c < unat bound"
    using u16_bound[of bound] by (auto simp: word_less_nat_alt unat_word_ariths)
  then show "((c + 1, bound, y), c, bound, v) \<in> measure (\<lambda>(c, bound, v). unat bound - unat c)" for y v
    by simp
qed simp

declare find_free_loop.simps [simp del]

definition fat16_find_free_cluster :: "fat16_vol \<Rightarrow> (u16 \<times> fat16_vol) res" where
  "fat16_find_free_cluster v =
     (let total_sectors = (if total_sectors_small (g_bpb v) \<noteq> 0 then ucast (total_sectors_small (g_bpb v))
                           else total_sectors_large (g_bpb v)) :: u32;
          spc = ucast (sectors_per_clustor (g_bpb v)) :: u32
      in if spc = 0 then Inl DivideError
         else
           (let total_clusters = (total_sectors - data_start_sector v) div spc
            in find_free_loop 2 (ucast (total_clusters + 2)) v))"

section \<open>Listing and initialisation\<close>

record fatsys = vm +
  vol :: fat16_vol

text \<open>The entries of one sector from index \<open>e\<close> on: the flag says that the end mark was met.\<close>

fun ls_entries :: "nat list \<Rightarrow> u8 list \<Rightarrow> bool \<Rightarrow> 'a fatsys_scheme \<Rightarrow> bool \<times> bool \<times> 'a fatsys_scheme" where
  "ls_entries [] buf found_any s = (False, found_any, s)"
| "ls_entries (e # es) buf found_any s =
     (let en = dir_entry_at buf e; first = filename en ! 0
      in if first = 0 then (True, found_any, s)
         else if first = 0xE5 \<or> attributes en = 0x0F then ls_entries es buf found_any s
         else
           (let s1 = kprint s (filename en @ [0]);
                s2 = kprint s1 (bytes ''.'');
                s3 = kprint s2 (ex en @ [0]);
                s4 = kprint s3 (bytes ''  ('');
                s5 = kprint_int s4 (sint (file_size en));
                s6 = kprint s5 (bytes '' bytes)\<newline>'')
            in ls_entries es buf True s6))"

fun ls_sectors :: "nat list \<Rightarrow> bool \<Rightarrow> 'a fatsys_scheme \<Rightarrow> bool \<times> 'a fatsys_scheme" where
  "ls_sectors [] found_any s = (found_any, s)"
| "ls_sectors (i # is) found_any s =
     (let (buf, v) = rd_sector (root_dir_start (vol s) + of_nat i) (vol s);
          (finished, found_any, s1) = ls_entries [0..<16] buf found_any (s\<lparr>vol := v\<rparr>)
      in if finished then (found_any, s1) else ls_sectors is found_any s1)"

definition fat16_ls :: "'a fatsys_scheme \<Rightarrow> 'a fatsys_scheme" where
  "fat16_ls s =
     (let s1 = kprint s (bytes ''FAT16 Files:\<newline>'');
          s2 = kprint s1 (bytes ''------------\<newline>'');
          (found_any, s3) = ls_sectors [0..<unat (root_dir_sectors (vol s2))] False s2
      in if found_any then s3 else kprint s3 (bytes ''(no files)\<newline>''))"

definition fat16_init :: "'a fatsys_scheme \<Rightarrow> ('a fatsys_scheme) res" where
  "fat16_init s =
     (let (buf, v) = rd_sector 0 (vol s); b = bpb_of buf
      in if bytes_per_sector b = 0 then Inl DivideError
         else
           (let rds = ucast (reserved_sectors b) + ucast (fat_count b) * ucast (sectors_per_fat b) :: u32;
                rdn = (ucast (root_dir_entries b) * 32) div ucast (bytes_per_sector b) :: u32;
                v1 = v\<lparr>g_bpb := b, fat_start_sector := ucast (reserved_sectors b), root_dir_start := rds,
                       root_dir_sectors := rdn, data_start_sector := rds + rdn\<rparr>;
                s1 = kprint (s\<lparr>vol := v1\<rparr>) (bytes ''Bytes per sector: '');
                s2 = kprint_int s1 (uint (bytes_per_sector b));
                s3 = kprint s2 (bytes ''\<newline>'');
                s4 = kprint s3 (bytes ''Filesystem Type: '');
                s5 = kprint s4 (fs_type b @ [0]);
                s6 = kprint s5 (bytes ''\<newline>'');
                s7 = kprint s6 (bytes ''Root dir starts at sector: '');
                s8 = kprint_int s7 (sint rds);
                s9 = kprint s8 (bytes ''\<newline>'')
            in Inr (fat16_ls s9)))"

section \<open>Reading a file\<close>

datatype dir_scan = Found fat16_dir_entry | EndOfDirectory | NotHere

fun scan_entries :: "nat list \<Rightarrow> u8 list \<Rightarrow> u8 list \<Rightarrow> u8 list \<Rightarrow> dir_scan" where
  "scan_entries [] buf name8 ext3 = NotHere"
| "scan_entries (e # es) buf name8 ext3 =
     (let en = dir_entry_at buf e
      in if filename en ! 0 = 0 then EndOfDirectory
         else if filename en ! 0 = 0xE5 then scan_entries es buf name8 ext3
         else if attributes en = 0x0F then scan_entries es buf name8 ext3
         else if strncmp (filename en) name8 8 = 0 \<and> strncmp (ex en) ext3 3 = 0 then Found en
         else scan_entries es buf name8 ext3)"

fun scan_root :: "nat list \<Rightarrow> u8 list \<Rightarrow> u8 list \<Rightarrow> fat16_vol \<Rightarrow> fat16_dir_entry option \<times> fat16_vol" where
  "scan_root [] name8 ext3 v = (None, v)"
| "scan_root (i # is) name8 ext3 v =
     (let (buf, v1) = rd_sector (root_dir_start v + of_nat i) v
      in case scan_entries [0..<16] buf name8 ext3 of
           Found en \<Rightarrow> (Some en, v1)
         | EndOfDirectory \<Rightarrow> (None, v1)
         | NotHere \<Rightarrow> scan_root is name8 ext3 v1)"

text \<open>The sectors of one cluster; what is left to read, and the bytes stored so far.\<close>

fun read_cluster :: "nat list \<Rightarrow> u32 \<Rightarrow> u32 \<Rightarrow> u8 list \<Rightarrow> fat16_vol \<Rightarrow> u32 \<times> u8 list \<times> fat16_vol" where
  "read_cluster [] lba bytes_left out v = (bytes_left, out, v)"
| "read_cluster (sec # secs) lba bytes_left out v =
     (if bytes_left > 0 then
        (let (tmp, v1) = rd_sector (lba + of_nat sec) v;
             to_copy = (if bytes_left < 512 then bytes_left else 512)
         in read_cluster secs lba (bytes_left - to_copy) (out @ take (unat to_copy) tmp) v1)
      else (bytes_left, out, v))"

fun read_chain :: "nat \<Rightarrow> u16 \<Rightarrow> u32 \<Rightarrow> u8 list \<Rightarrow> fat16_vol \<Rightarrow> (u8 list \<times> fat16_vol) res" where
  "read_chain 0 cluster bytes_left out v = Inl StillRunning"
| "read_chain (Suc fuel) cluster bytes_left out v =
     (if cluster \<ge> 0x0002 \<and> cluster < 0xFFF8 \<and> bytes_left > 0 then
        (let lba = fat16_cluster_to_lba cluster v;
             (bytes_left, out, v1) = read_cluster [0..<unat (sectors_per_clustor (g_bpb v))] lba bytes_left out v
         in bindE (fat16_read_fat_entry cluster v1) (\<lambda>(nxt, v2). read_chain fuel nxt bytes_left out v2))
      else Inr (out, v))"

definition fat16_read_file ::
  "nat \<Rightarrow> u8 list \<Rightarrow> u8 list \<Rightarrow> u32 \<Rightarrow> 'a fatsys_scheme \<Rightarrow> (int \<times> u8 list \<times> 'a fatsys_scheme) res" where
  "fat16_read_file fuel name8 ext3 max_size s =
     (let (target, v) = scan_root [0..<unat (root_dir_sectors (vol s))] name8 ext3 (vol s);
          s1 = s\<lparr>vol := v\<rparr>
      in case target of
           None \<Rightarrow> Inr (-1, [], kprint s1 (bytes ''fat16_read: file not found\<newline>''))
         | Some en \<Rightarrow>
             (let bytes_left = (if file_size en > max_size then max_size else file_size en)
              in bindE (read_chain fuel (low_first_cluster en) bytes_left [] (vol s1)) (\<lambda>(out, v2).
                   Inr (sint (file_size en), out, s1\<lparr>vol := v2\<rparr>))))"

section \<open>Writing a file\<close>

text \<open>
  The allocation loop; \<open>prev_cluster\<close> and \<open>first_cluster\<close> are 0 before the first round. The
  answer None stands for the early return on a full disk.
\<close>

fun alloc_chain :: "nat \<Rightarrow> nat \<Rightarrow> u16 \<Rightarrow> u16 \<Rightarrow> fat16_vol \<Rightarrow> (u16 option \<times> fat16_vol) res" where
  "alloc_chain 0 i first_cluster prev_cluster v = Inr (Some first_cluster, v)"
| "alloc_chain (Suc n) i first_cluster prev_cluster v =
     bindE (fat16_find_free_cluster v) (\<lambda>(free_c, v1).
       if free_c = 0 then Inr (None, v1)
       else
         bindE (if i = 0 then Inr v1 else fat16_write_fat_entry prev_cluster free_c v1) (\<lambda>v2.
         bindE (fat16_write_fat_entry free_c 0xFFFF v2) (\<lambda>v3.
           alloc_chain n (Suc i) (if i = 0 then free_c else first_cluster) free_c v3)))"

fun write_cluster :: "nat list \<Rightarrow> u32 \<Rightarrow> u8 list \<Rightarrow> u32 \<Rightarrow> u32 \<Rightarrow> fat16_vol \<Rightarrow> (u32 \<times> fat16_vol) res" where
  "write_cluster [] lba data sz bytes_written v = Inr (bytes_written, v)"
| "write_cluster (sec # secs) lba data sz bytes_written v =
     (if bytes_written < sz then
        (let chunk = (if sz - bytes_written < 512 then sz - bytes_written else 512);
             src = take (unat chunk) (drop (unat bytes_written) data)
         in if length src = unat chunk then
              write_cluster secs lba data sz (bytes_written + chunk)
                (wr_sector (lba + of_nat sec) (src @ replicate (512 - unat chunk) 0) v)
            else Inl (OutOfArray (length data)))
      else Inr (bytes_written, v))"

fun write_chain :: "nat \<Rightarrow> u16 \<Rightarrow> u8 list \<Rightarrow> u32 \<Rightarrow> u32 \<Rightarrow> fat16_vol \<Rightarrow> fat16_vol res" where
  "write_chain 0 curr_cluster data sz bytes_written v = Inl StillRunning"
| "write_chain (Suc fuel) curr_cluster data sz bytes_written v =
     (if curr_cluster \<ge> 0x0002 \<and> curr_cluster < 0xFFF8 \<and> bytes_written < sz then
        (let lba = fat16_cluster_to_lba curr_cluster v
         in bindE (write_cluster [0..<unat (sectors_per_clustor (g_bpb v))] lba data sz bytes_written v) (\<lambda>(bw, v1).
            bindE (fat16_read_fat_entry curr_cluster v1) (\<lambda>(nxt, v2). write_chain fuel nxt data sz bw v2)))
      else Inr v)"

text \<open>The 32 bytes of the new directory entry: cleared, then the fields the code fills in.\<close>

definition new_dir_entry :: "u8 list \<Rightarrow> u8 list \<Rightarrow> u16 \<Rightarrow> u32 \<Rightarrow> u8 list" where
  "new_dir_entry name8 ext3 first_cluster sz =
     take 8 name8 @ take 3 ext3 @ [0x20] @ replicate 14 0 @ [ucast first_cluster, ucast (drop_bit 8 first_cluster)] @
     [ucast sz, ucast (drop_bit 8 sz), ucast (drop_bit 16 sz), ucast (drop_bit 24 sz)]"

definition splice :: "u8 list \<Rightarrow> nat \<Rightarrow> u8 list \<Rightarrow> u8 list" where
  "splice buf o' xs = take o' buf @ xs @ drop (o' + length xs) buf"

fun free_slot :: "nat list \<Rightarrow> u8 list \<Rightarrow> nat option" where
  "free_slot [] buf = None"
| "free_slot (e # es) buf =
     (if buf ! (32 * e) = 0 \<or> buf ! (32 * e) = 0xE5 then Some e else free_slot es buf)"

fun add_entry :: "nat list \<Rightarrow> u8 list \<Rightarrow> fat16_vol \<Rightarrow> bool \<times> fat16_vol" where
  "add_entry [] en v = (False, v)"
| "add_entry (i # is) en v =
     (let (buf, v1) = rd_sector (root_dir_start v + of_nat i) v
      in case free_slot [0..<16] buf of
           Some e \<Rightarrow> (True, wr_sector (root_dir_start v + of_nat i) (splice buf (32 * e) en) v1)
         | None \<Rightarrow> add_entry is en v1)"

definition fat16_write_file ::
  "nat \<Rightarrow> u8 list \<Rightarrow> u8 list \<Rightarrow> u8 list \<Rightarrow> u32 \<Rightarrow> 'a fatsys_scheme \<Rightarrow> (int \<times> 'a fatsys_scheme) res" where
  "fat16_write_file fuel name8 ext3 data sz s =
     (let cluster_bytes = ucast (sectors_per_clustor (g_bpb (vol s))) * ucast (bytes_per_sector (g_bpb (vol s))) :: u32
      in if cluster_bytes = 0 then Inl DivideError
         else
           (let clusters_needed = (sz + cluster_bytes - 1) div cluster_bytes
            in if clusters_needed = 0 then Inr (-1, kprint s (bytes ''fat16_write: cannot write empty file\<newline>''))
               else
                 bindE (alloc_chain (unat clusters_needed) 0 0 0 (vol s)) (\<lambda>(fc, v1).
                   case fc of
                     None \<Rightarrow> Inr (-1, kprint (s\<lparr>vol := v1\<rparr>) (bytes ''fat16_write: disk full!\<newline>''))
                   | Some first_cluster \<Rightarrow>
                       bindE (write_chain fuel first_cluster data sz 0 v1) (\<lambda>v2.
                         let (ok, v3) = add_entry [0..<unat (root_dir_sectors v2)] (new_dir_entry name8 ext3 first_cluster sz) v2
                         in if ok then Inr (0, kprint (s\<lparr>vol := v3\<rparr>) (bytes ''fat16_write: file written!\<newline>''))
                            else Inr (-1, kprint (s\<lparr>vol := v3\<rparr>) (bytes ''fat16_write: root directory full!\<newline>''))))))"

section \<open>Facts on names\<close>

definition pad :: "nat \<Rightarrow> u8 list \<Rightarrow> u8 list" where
  "pad n xs = take n xs @ replicate (n - length xs) 32"

lemma pad_length [simp]: "length (pad n xs) = n"
  by (simp add: pad_def)

definition stem :: "u8 list \<Rightarrow> u8 list" where
  "stem s = takeWhile (\<lambda>c. c \<noteq> 46) (cstr s)"

definition suffix_of :: "u8 list \<Rightarrow> u8 list" where
  "suffix_of s = tl (dropWhile (\<lambda>c. c \<noteq> 46) (cstr s))"

lemma stem_cur: "stem s = (if cur s \<noteq> 0 \<and> cur s \<noteq> 46 then cur s # stem (tl s) else [])"
  unfolding stem_def by (subst cstr_cur) simp

lemma name_loop_eq:
  "length name8 = 8 \<Longrightarrow> i \<le> 8 \<Longrightarrow> name_loop input i name8 =
     (drop (min (8 - i) (length (stem input))) input,
      take i name8 @ map to_upper (take (8 - i) (stem input)) @ drop (i + min (8 - i) (length (stem input))) name8)"
proof (induction input i name8 rule: name_loop.induct)
  case (1 input i name8)
  show ?case
  proof (cases "cur input \<noteq> 0 \<and> cur input \<noteq> 46 \<and> i < 8")
    case True
    then obtain c cs where cs: "input = c # cs" by (cases input) auto
    have st: "stem input = c # stem cs" using True cs stem_cur[of input] by simp
    let ?n = "name8[i := to_upper c]"
    have "name_loop input i name8 = name_loop cs (Suc i) ?n"
      using True cs name_loop.simps[of input i name8] by simp
    also have "\<dots> = (drop (min (8 - Suc i) (length (stem cs))) cs,
        take (Suc i) ?n @ map to_upper (take (8 - Suc i) (stem cs)) @ drop (Suc i + min (8 - Suc i) (length (stem cs))) ?n)"
      using "1.IH" True cs "1.prems" by simp
    also have "take (Suc i) ?n = take i name8 @ [to_upper c]"
      using True "1.prems" by (simp add: take_Suc_conv_app_nth)
    also have "drop (Suc i + min (8 - Suc i) (length (stem cs))) ?n = drop (Suc i + min (8 - Suc i) (length (stem cs))) name8"
      by simp
    finally show ?thesis
      using True st cs by (simp add: Suc_diff_Suc[symmetric] min_Suc_Suc)
  next
    case False
    then have "stem input = [] \<or> i = 8" using "1.prems" stem_cur[of input] by auto
    then show ?thesis
      using False name_loop.simps[of input i name8] "1.prems" by auto
  qed
qed

lemma skip_loop_eq: "skip_loop s = dropWhile (\<lambda>c. c \<noteq> 0 \<and> c \<noteq> 46) s"
proof (induction s rule: skip_loop.induct)
  case (1 s)
  then show ?case by (subst skip_loop.simps) (cases s, auto)
qed

lemma ext_loop_eq:
  "length ext3 = 3 \<Longrightarrow> i \<le> 3 \<Longrightarrow> ext_loop input i ext3 =
     take i ext3 @ map to_upper (take (3 - i) (cstr input)) @ drop (i + min (3 - i) (length (cstr input))) ext3"
proof (induction input i ext3 rule: ext_loop.induct)
  case (1 input i ext3)
  show ?case
  proof (cases "cur input \<noteq> 0 \<and> i < 3")
    case True
    then obtain c cs where cs: "input = c # cs" by (cases input) auto
    let ?n = "ext3[i := to_upper c]"
    have "ext_loop input i ext3 = ext_loop cs (Suc i) ?n"
      using True cs ext_loop.simps[of input i ext3] by simp
    also have "\<dots> = take (Suc i) ?n @ map to_upper (take (3 - Suc i) (cstr cs)) @ drop (Suc i + min (3 - Suc i) (length (cstr cs))) ?n"
      using "1.IH" True cs "1.prems" by simp
    also have "take (Suc i) ?n = take i ext3 @ [to_upper c]"
      using True "1.prems" by (simp add: take_Suc_conv_app_nth)
    finally show ?thesis
      using True cs by (simp add: Suc_diff_Suc[symmetric] min_Suc_Suc)
  next
    case False
    then have "cstr input = [] \<or> i = 3" using "1.prems" cstr_cur[of input] by auto
    then show ?thesis
      using False ext_loop.simps[of input i ext3] "1.prems" by auto
  qed
qed

lemma drop_stem: "k \<le> length (stem s) \<Longrightarrow> dropWhile (\<lambda>c. c \<noteq> 0 \<and> c \<noteq> 46) (drop k s) = dropWhile (\<lambda>c. c \<noteq> 0 \<and> c \<noteq> 46) s"
proof (induction k arbitrary: s)
  case (Suc k)
  then obtain c cs where "s = c # cs" "c \<noteq> 0" "c \<noteq> 46" "stem s = c # stem cs"
    using stem_cur[of s] by (cases s) (auto split: if_splits)
  then show ?case using Suc by simp
qed simp

lemma suffix_dropWhile:
  "(if cur (dropWhile (\<lambda>c. c \<noteq> 0 \<and> c \<noteq> 46) s) = 46 then cstr (tl (dropWhile (\<lambda>c. c \<noteq> 0 \<and> c \<noteq> 46) s)) else []) = suffix_of s"
  by (induction s) (auto simp: suffix_of_def)

lemma fat16_format_83_eq:
  "fat16_format_83 input = (pad 8 (map to_upper (stem input)), pad 3 (map to_upper (suffix_of input)))"
proof -
  let ?k = "min 8 (length (stem input))"
  let ?r = "dropWhile (\<lambda>c. c \<noteq> 0 \<and> c \<noteq> 46) input"
  have n: "name_loop input 0 (replicate 8 32) = (drop ?k input, pad 8 (map to_upper (stem input)))"
    using name_loop_eq[of "replicate 8 32" 0 input] by (simp add: pad_def take_map)
  have r: "skip_loop (drop ?k input) = ?r"
    using drop_stem[of ?k input] by (simp add: skip_loop_eq)
  have e: "ext_loop (tl ?r) 0 (replicate 3 32) = pad 3 (map to_upper (cstr (tl ?r)))"
    using ext_loop_eq[of "replicate 3 32" 0 "tl ?r"] by (simp add: pad_def take_map)
  show ?thesis
    using suffix_dropWhile[of input] e
    by (auto simp: fat16_format_83_def n r pad_def split: if_splits)
qed

end
