(* ===== verification/Fat16_Files.thy ===== *)
theory Fat16_Files
  imports Fat16_Volume
begin

text \<open>
  Whole files on a FAT16 volume: the root directory as a list of 32-byte entries, looking up
  and adding an entry on that list, and the properties of fat16_write_file and
  fat16_read_file that follow: what is written reads back, other files stay as they are, and
  what happens on a full disk and on a second write under the same name.
\<close>

section \<open>The root directory as a list of entries\<close>

definition entries_of :: "u8 list \<Rightarrow> u8 list list" where
  "entries_of buf = map (\<lambda>e. take 32 (drop (32 * e) buf)) [0..<16]"

definition root_entries :: "fat16_vol \<Rightarrow> nat list \<Rightarrow> u8 list list" where
  "root_entries v is = concat (map (\<lambda>i. entries_of (sec v (root_dir_start v + of_nat i))) is)"

abbreviation root_list :: "fat16_vol \<Rightarrow> u8 list list" where
  "root_list v \<equiv> root_entries v [0..<unat (root_dir_sectors v)]"

lemma entries_of_length [simp]: "length (entries_of buf) = 16"
  by (simp add: entries_of_def)

lemma root_entries_Cons:
  "root_entries v (i # is) = entries_of (sec v (root_dir_start v + of_nat i)) @ root_entries v is"
  by (simp add: root_entries_def)

definition is_free :: "u8 list \<Rightarrow> bool" where
  "is_free b \<longleftrightarrow> b ! 0 = 0 \<or> b ! 0 = 0xE5"

definition names :: "u8 list \<Rightarrow> u8 list \<Rightarrow> u8 list \<Rightarrow> bool" where
  "names name8 ext3 b \<longleftrightarrow> b ! 11 \<noteq> 0x0F \<and> strncmp (take 8 b) name8 8 = 0 \<and> strncmp (take 3 (drop 8 b)) ext3 3 = 0"

text \<open>The search of fat16_read_file on the list: the first entry with the name, before the end mark.\<close>

fun lookup :: "u8 list \<Rightarrow> u8 list \<Rightarrow> u8 list list \<Rightarrow> fat16_dir_entry option" where
  "lookup name8 ext3 [] = None"
| "lookup name8 ext3 (b # bs) =
     (if b ! 0 = 0 then None
      else if b ! 0 \<noteq> 0xE5 \<and> names name8 ext3 b then Some (dir_entry_at b 0)
      else lookup name8 ext3 bs)"

lemma entry_bytes:
  assumes "32 * e + 32 \<le> length b"
  shows "dir_entry_at b e = dir_entry_at (take 32 (drop (32 * e) b)) 0"
  using assms by (simp add: dir_entry_at_def get16_def get32l_def Let_def take_drop min_def add.commute)

lemma scan_entries_lookup:
  assumes "length buf = 512" "\<forall>e \<in> set es. e < 16"
  shows "lookup name8 ext3 (map (\<lambda>e. take 32 (drop (32 * e) buf)) es @ rs) =
    (case scan_entries es buf name8 ext3 of
       Found en \<Rightarrow> Some en | EndOfDirectory \<Rightarrow> None | NotHere \<Rightarrow> lookup name8 ext3 rs)"
  using assms(2)
proof (induction es)
  case (Cons e es)
  let ?b = "take 32 (drop (32 * e) buf)"
  have len: "32 * e + 32 \<le> length buf" "length ?b = 32" using assms(1) Cons.prems by auto
  have d: "dir_entry_at buf e = dir_entry_at ?b 0" using entry_bytes[OF len(1)] .
  have f: "filename (dir_entry_at ?b 0) ! 0 = ?b ! 0" "filename (dir_entry_at ?b 0) = take 8 ?b"
    "ex (dir_entry_at ?b 0) = take 3 (drop 8 ?b)" "attributes (dir_entry_at ?b 0) = ?b ! 11"
    using len(2) by (simp_all add: dir_entry_at_def Let_def)
  have IH: "lookup name8 ext3 (map (\<lambda>e. take 32 (drop (32 * e) buf)) es @ rs) =
    (case scan_entries es buf name8 ext3 of
       Found en \<Rightarrow> Some en | EndOfDirectory \<Rightarrow> None | NotHere \<Rightarrow> lookup name8 ext3 rs)"
    using Cons by simp
  have step: "scan_entries (e # es) buf name8 ext3 =
      (if ?b ! 0 = 0 then EndOfDirectory
       else if ?b ! 0 \<noteq> 0xE5 \<and> names name8 ext3 ?b then Found (dir_entry_at ?b 0)
       else scan_entries es buf name8 ext3)"
    unfolding scan_entries.simps Let_def d f names_def by auto
  show ?case unfolding step list.map append_Cons lookup.simps IH by simp
qed simp

lemma scan_root_lookup:
  assumes "disk_ok (disk v)" "\<forall>i \<in> set is. valid_lba (root_dir_start v + of_nat i)"
  shows "\<exists>v'. scan_root is name8 ext3 v = (lookup name8 ext3 (root_entries v is), v') \<and> same_vol v v'"
  using assms
proof (induction "is" arbitrary: v)
  case Nil
  then show ?case by (simp add: root_entries_def same_vol_refl)
next
  case (Cons i "is")
  let ?a = "root_dir_start v + of_nat i"
  let ?v1 = "v\<lparr>disk := ata_select ?a (disk v)\<rparr>"
  have rd: "rd_sector ?a v = (sec v ?a, ?v1)" using rd_sector_eq[of v ?a] Cons.prems by simp
  have sv: "same_vol v ?v1" using same_vol_touch[OF Cons.prems(1)] .
  have e: "root_entries ?v1 is = root_entries v is" by (simp add: root_entries_def)
  obtain v' where v': "scan_root is name8 ext3 ?v1 = (lookup name8 ext3 (root_entries v is), v')" "same_vol ?v1 v'"
    using Cons.IH[of ?v1] Cons.prems e by auto
  have "lookup name8 ext3 (root_entries v (i # is)) =
      (case scan_entries [0..<16] (sec v ?a) name8 ext3 of
         Found en \<Rightarrow> Some en | EndOfDirectory \<Rightarrow> None | NotHere \<Rightarrow> lookup name8 ext3 (root_entries v is))"
    using scan_entries_lookup[OF sec_length[OF Cons.prems(1)], of "[0..<16]" name8 ext3 ?a "root_entries v is"]
    by (simp add: root_entries_def entries_of_def)
  then show ?case
    using rd v' sv same_vol_trans[OF sv v'(2)]
    by (cases "scan_entries [0..<16] (sec v ?a) name8 ext3") (simp_all del: upt_rec_numeral upt_Suc)
qed

section \<open>Adding an entry\<close>

fun first_free :: "u8 list list \<Rightarrow> nat option" where
  "first_free [] = None"
| "first_free (b # bs) = (if is_free b then Some 0 else map_option Suc (first_free bs))"

lemma free_slot_first:
  assumes "length buf = 512" "\<forall>e \<in> set es. e < 16"
  shows "first_free (map (\<lambda>e. take 32 (drop (32 * e) buf)) es) = None \<longleftrightarrow> free_slot es buf = None"
    "free_slot es buf = Some e \<Longrightarrow> \<exists>k < length es. es ! k = e \<and> first_free (map (\<lambda>e. take 32 (drop (32 * e) buf)) es) = Some k"
proof -
  have b: "is_free (take 32 (drop (32 * e) buf)) \<longleftrightarrow> buf ! (32 * e) = 0 \<or> buf ! (32 * e) = 0xE5" if "e < 16" for e
    using assms(1) that by (simp add: is_free_def)
  show "first_free (map (\<lambda>e. take 32 (drop (32 * e) buf)) es) = None \<longleftrightarrow> free_slot es buf = None"
    using assms(2) by (induction es) (auto simp: b)
  show "free_slot es buf = Some e \<Longrightarrow> \<exists>k < length es. es ! k = e \<and> first_free (map (\<lambda>e. take 32 (drop (32 * e) buf)) es) = Some k"
    using assms(2) by (induction es) (auto simp: b split: if_splits)
qed

lemma first_free_append:
  "first_free (xs @ ys) = (case first_free xs of Some k \<Rightarrow> Some k | None \<Rightarrow> map_option (\<lambda>k. length xs + k) (first_free ys))"
  by (induction xs; cases "first_free ys") (auto split: option.splits)

lemma first_free_Some: "first_free bs = Some j \<Longrightarrow> j < length bs \<and> is_free (bs ! j) \<and> (\<forall>k < j. \<not> is_free (bs ! k))"
proof (induction bs arbitrary: j)
  case (Cons b bs)
  then show ?case by (cases j) (auto split: if_splits simp: less_Suc_eq_0_disj)
qed simp

lemma entries_splice:
  assumes "length buf = 512" "e < 16" "length en = 32"
  shows "entries_of (splice buf (32 * e) en) = (entries_of buf)[e := en]" "length (splice buf (32 * e) en) = 512"
proof -
  have pre: "length (take (32 * e) buf) = 32 * e" using assms by simp
  have e: "32 * e + 32 \<le> 512" using assms(2) by simp
  show "length (splice buf (32 * e) en) = 512" using assms e by (simp add: splice_def)
  have block: "take 32 (drop (32 * k) (splice buf (32 * e) en)) = (if k = e then en else take 32 (drop (32 * k) buf))"
    if "k < 16" for k
  proof -
    consider "k < e" | "k = e" | "e < k" by linarith
    then show ?thesis
    proof cases
      case 1
      then have "32 * k + 32 \<le> 32 * e" by simp
      then show ?thesis using 1 assms e by (auto simp: splice_def take_drop min_def)
    next
      case 2
      then show ?thesis using pre assms by (simp add: splice_def)
    next
      case 3
      then obtain m where m: "32 * k = 32 * e + 32 + m" using le_Suc_ex[of "32 * e + 32" "32 * k"] by auto
      then show ?thesis using 3 pre assms by (simp add: splice_def add.commute add.left_commute)
    qed
  qed
  show "entries_of (splice buf (32 * e) en) = (entries_of buf)[e := en]"
    by (rule nth_equalityI) (auto simp: entries_of_def block nth_list_update simp del: upt_rec_numeral upt_Suc)
qed

lemma add_entry_eq:
  assumes "disk_ok (disk v)" "\<forall>i \<in> set is. valid_lba (root_dir_start v + of_nat i)"
    "distinct (map (\<lambda>i. root_dir_start v + of_nat i) is)" "length en = 32"
  shows "\<exists>v'. add_entry is en v = (first_free (root_entries v is) \<noteq> None, v') \<and> geom v' = geom v \<and> disk_ok (disk v') \<and>
    (\<forall>a. a \<notin> (\<lambda>i. root_dir_start v + of_nat i) ` set is \<longrightarrow> sec v' a = sec v a) \<and>
    (\<forall>j. first_free (root_entries v is) = Some j \<longrightarrow> root_entries v' is = (root_entries v is)[j := en])"
  using assms
proof (induction "is" arbitrary: v)
  case Nil
  then show ?case by (simp add: root_entries_def)
next
  case (Cons i "is")
  let ?a = "root_dir_start v + of_nat i"
  let ?v1 = "v\<lparr>disk := ata_select ?a (disk v)\<rparr>"
  let ?buf = "sec v ?a"
  have rd: "rd_sector ?a v = (?buf, ?v1)" using rd_sector_eq[of v ?a] Cons.prems by simp
  have len: "length ?buf = 512" using sec_length[OF Cons.prems(1)] .
  have ff: "first_free (root_entries v (i # is)) = (case first_free (entries_of ?buf) of Some k \<Rightarrow> Some k
      | None \<Rightarrow> map_option (\<lambda>k. 16 + k) (first_free (root_entries v is)))"
    by (cases "first_free (entries_of ?buf)") (simp_all add: root_entries_Cons first_free_append)
  have bnd: "\<forall>e \<in> set [0..<16]. e < (16 :: nat)" by simp
  show ?case
  proof (cases "free_slot [0..<16] ?buf")
    case None
    then have none: "first_free (entries_of ?buf) = None"
      using free_slot_first(1)[OF len bnd] by (simp add: entries_of_def)
    have e: "root_entries ?v1 is = root_entries v is" by (simp add: root_entries_def)
    obtain v' where v': "add_entry is en ?v1 = (first_free (root_entries v is) \<noteq> None, v')" "geom v' = geom v" "disk_ok (disk v')"
      "\<forall>a. a \<notin> (\<lambda>i. root_dir_start v + of_nat i) ` set is \<longrightarrow> sec v' a = sec v a"
      "\<forall>j. first_free (root_entries v is) = Some j \<longrightarrow> root_entries v' is = (root_entries v is)[j := en]"
      using Cons.IH[of ?v1] Cons.prems e by auto
    have "sec v' ?a = ?buf" using v'(4) Cons.prems(3) by auto
    moreover have "root_dir_start v' = root_dir_start v" using geom_eqD(3)[OF v'(2)] .
    ultimately have keep: "root_entries v' (i # is) = entries_of ?buf @ root_entries v' is" by (simp add: root_entries_def)
    have ffn: "first_free (root_entries v (i # is)) = map_option (\<lambda>k. 16 + k) (first_free (root_entries v is))"
      using none unfolding ff by simp
    have old: "root_entries v (i # is) = entries_of ?buf @ root_entries v is" by (simp add: root_entries_def)
    have "root_entries v' (i # is) = (root_entries v (i # is))[j := en]" if "first_free (root_entries v (i # is)) = Some j" for j
      using that[unfolded ffn] v'(5) unfolding keep old by (auto simp: list_update_append)
    moreover have "add_entry (i # is) en v = (first_free (root_entries v (i # is)) \<noteq> None, v')"
      using rd None v'(1) none unfolding ff by (simp del: upt_rec_numeral upt_Suc)
    ultimately show ?thesis using v'(2,3,4) by auto
  next
    case (Some e)
    obtain k where k: "k < 16" "[0..<16] ! k = e" "first_free (entries_of ?buf) = Some k"
      using free_slot_first(2)[OF len bnd Some] by (auto simp: entries_of_def simp del: upt_rec_numeral upt_Suc)
    then have "k = e" by (simp del: upt_rec_numeral upt_Suc)
    then have k': "e < 16" "first_free (entries_of ?buf) = Some e" using k by simp_all
    note sp = entries_splice[OF len k'(1) Cons.prems(4)]
    let ?v2 = "wr_sector ?a (splice ?buf (32 * e) en) ?v1"
    have w: "sec ?v2 = (sec v)(?a := splice ?buf (32 * e) en)" "geom ?v2 = geom v" "disk_ok (disk ?v2)"
      using wr_sector_props[of ?v1 ?a "splice ?buf (32 * e) en"] Cons.prems sp(2) by simp_all
    have rs: "root_dir_start ?v2 = root_dir_start v" using geom_eqD(3)[OF w(2)] .
    have ne: "root_dir_start v + of_nat x \<noteq> ?a" if "x \<in> set is" for x
      using Cons.prems(3) that by (metis (no_types, lifting) distinct.simps(2) image_eqI image_set list.map(2))
    have "map (\<lambda>i. entries_of (sec ?v2 (root_dir_start v + of_nat i))) is = map (\<lambda>i. entries_of (sec v (root_dir_start v + of_nat i))) is"
      by (intro map_cong refl) (simp add: w(1) ne del: add_left_cancel)
    then have same: "root_entries ?v2 is = root_entries v is" by (simp only: root_entries_def rs)
    have "sec ?v2 ?a = splice ?buf (32 * e) en" by (simp add: w(1))
    then have "root_entries ?v2 (i # is) = (entries_of ?buf)[e := en] @ root_entries v is"
      by (simp only: root_entries_Cons rs same sp(1))
    also have "\<dots> = (root_entries v (i # is))[e := en]"
      using k'(1) by (simp add: root_entries_def list_update_append entries_of_def)
    finally have upd: "root_entries ?v2 (i # is) = (root_entries v (i # is))[e := en]" .
    have "add_entry (i # is) en v = (True, ?v2)" using rd Some by (simp del: upt_rec_numeral upt_Suc)
    then show ?thesis
      using w upd k'(2) unfolding ff by auto
  qed
qed

section \<open>Lookups after an update\<close>

lemma lookup_new:
  "first_free bs = Some j \<Longrightarrow> lookup name8 ext3 bs = None \<Longrightarrow> \<not> is_free en \<Longrightarrow> names name8 ext3 en \<Longrightarrow>
   lookup name8 ext3 (bs[j := en]) = Some (dir_entry_at en 0)"
proof (induction bs arbitrary: j)
  case (Cons b bs)
  then show ?case by (cases j) (auto simp: is_free_def split: if_splits)
qed simp

lemma lookup_other:
  "first_free bs = Some j \<Longrightarrow> lookup name8 ext3 bs = Some x \<Longrightarrow> \<not> is_free en \<Longrightarrow> \<not> names name8 ext3 en \<Longrightarrow>
   lookup name8 ext3 (bs[j := en]) = Some x"
proof (induction bs arbitrary: j)
  case (Cons b bs)
  then show ?case by (cases j) (auto simp: is_free_def split: if_splits)
qed simp

lemma lookup_shadowed:
  "first_free bs = Some j \<Longrightarrow> lookup name8 ext3 bs = Some x \<Longrightarrow> bs ! j ! 0 = 0 \<Longrightarrow>
   lookup name8 ext3 (bs[j := en]) = Some x"
proof (induction bs arbitrary: j)
  case (Cons b bs)
  then show ?case by (cases j) (auto simp: is_free_def split: if_splits)
qed simp

lemma new_entry_props:
  assumes "length name8 = 8" "length ext3 = 3"
  shows "length (new_dir_entry name8 ext3 c sz) = 32" "new_dir_entry name8 ext3 c sz ! 0 = name8 ! 0"
    "new_dir_entry name8 ext3 c sz ! 11 = 0x20" "take 8 (new_dir_entry name8 ext3 c sz) = name8"
    "take 3 (drop 8 (new_dir_entry name8 ext3 c sz)) = ext3"
    "low_first_cluster (dir_entry_at (new_dir_entry name8 ext3 c sz) 0) = c"
    "file_size (dir_entry_at (new_dir_entry name8 ext3 c sz) 0) = sz"
proof -
  show "length (new_dir_entry name8 ext3 c sz) = 32" "new_dir_entry name8 ext3 c sz ! 0 = name8 ! 0"
    "new_dir_entry name8 ext3 c sz ! 11 = 0x20" "take 8 (new_dir_entry name8 ext3 c sz) = name8"
    "take 3 (drop 8 (new_dir_entry name8 ext3 c sz)) = ext3"
    using assms by (simp_all add: new_dir_entry_def nth_append)
  have n: "new_dir_entry name8 ext3 c sz ! 26 = ucast c" "new_dir_entry name8 ext3 c sz ! 27 = ucast (drop_bit 8 c)"
    "new_dir_entry name8 ext3 c sz ! 28 = ucast sz" "new_dir_entry name8 ext3 c sz ! 29 = ucast (drop_bit 8 sz)"
    "new_dir_entry name8 ext3 c sz ! 30 = ucast (drop_bit 16 sz)" "new_dir_entry name8 ext3 c sz ! 31 = ucast (drop_bit 24 sz)"
    using assms by (simp_all add: new_dir_entry_def nth_append)
  then show "low_first_cluster (dir_entry_at (new_dir_entry name8 ext3 c sz) 0) = c"
    "file_size (dir_entry_at (new_dir_entry name8 ext3 c sz) 0) = sz"
    by (simp_all add: dir_entry_at_def get16_def get32l_def le16_of_bytes le32_of_bytes)
qed

lemma strncmp_self: "0 \<le> n \<Longrightarrow> strncmp x x n = 0"
  by (simp add: strncmp_zero_take)

lemma names_new:
  "length name8 = 8 \<Longrightarrow> length ext3 = 3 \<Longrightarrow> names name8 ext3 (new_dir_entry name8 ext3 c sz)"
  using new_entry_props[of name8 ext3] by (simp add: names_def strncmp_self)

section \<open>Writing a file\<close>

lemma root_addrs:
  assumes "vol_ok v"
  shows "\<forall>i \<in> set [0..<unat (root_dir_sectors v)]. valid_lba (root_dir_start v + of_nat i)"
    "distinct (map (\<lambda>i. root_dir_start v + of_nat i) [0..<unat (root_dir_sectors v)])"
    "i < unat (root_dir_sectors v) \<Longrightarrow> unat (root_dir_start v + of_nat i) = unat (root_dir_start v) + i"
proof -
  have lim: "unat (root_dir_start v) + unat (root_dir_sectors v) < 268435456"
    using assms by (simp add: vol_ok_def word_le_nat_alt)
  show u: "unat (root_dir_start v + of_nat i) = unat (root_dir_start v) + i" if "i < unat (root_dir_sectors v)" for i
    using that lim by (subst unat_add_small) (simp_all add: unat_of_nat)
  show "\<forall>i \<in> set [0..<unat (root_dir_sectors v)]. valid_lba (root_dir_start v + of_nat i)"
    using u lim by (simp add: valid_lba_def)
  show "distinct (map (\<lambda>i. root_dir_start v + of_nat i) [0..<unat (root_dir_sectors v)])"
    using u by (auto simp: distinct_map inj_on_def) (metis add_left_cancel)
qed

text \<open>
  A file as it is on the volume: its chain in the table and its bytes in the sectors of the
  chain. The chain may be longer than the bytes need.
\<close>

definition stored :: "fat16_vol \<Rightarrow> u16 list \<Rightarrow> u8 list \<Rightarrow> bool" where
  "stored v cs bs \<longleftrightarrow> links (fat v) cs \<and> (\<forall>c \<in> set cs. in_data v c) \<and>
     take (length bs) (concat (map (sec v) (chain_addrs v cs))) = bs"

lemma fat_below_root:
  assumes "vol_ok v" "geom v' = geom v" "\<And>a. unat a < unat (root_dir_start v) \<Longrightarrow> sec v' a = sec v a" "unat c < nclusters v"
  shows "fat v' c = fat v c"
proof -
  have "unat (fat_sec v c) < unat (root_dir_start v)"
    using fat_sec_nat[OF assms(1,4)] assms(1) by (simp add: vol_ok_def)
  then show ?thesis using assms(3) geom_eqD(2)[OF assms(2)] by (simp add: fat_def fat_sec_def)
qed

text \<open>A file keeps its chain and bytes when neither its clusters nor their table entries change.\<close>

lemma stored_frame:
  assumes "stored v cs bs" "vol_ok v" "geom v' = geom v"
    and "\<And>c. c \<in> set cs \<Longrightarrow> fat v' c = fat v c" "\<And>a. a \<in> set (chain_addrs v cs) \<Longrightarrow> sec v' a = sec v a"
  shows "stored v' cs bs"
proof -
  have "links (fat v') cs = links (fat v) cs" by (rule links_cong) (rule assms(4))
  moreover have "map (sec v') (chain_addrs v cs) = map (sec v) (chain_addrs v cs)" using assms(5) by auto
  ultimately show ?thesis
    using assms(1) unfolding stored_def addrs_geom(2)[OF assms(3)] in_data_geom[OF assms(3)] by (simp del: map_eq_conv)
qed

definition clusters_needed :: "fat16_vol \<Rightarrow> u32 \<Rightarrow> nat" where
  "clusters_needed v sz = (unat sz + spc v * 512 - 1) div (spc v * 512)"

lemma clusters_needed_word:
  assumes "vol_ok v" "0 < sz" "unat sz < 2147483648"
  shows "(ucast (sectors_per_clustor (g_bpb v)) * ucast (bytes_per_sector (g_bpb v)) :: u32) \<noteq> 0"
    "unat ((sz + ucast (sectors_per_clustor (g_bpb v)) * ucast (bytes_per_sector (g_bpb v)) - 1) div
      (ucast (sectors_per_clustor (g_bpb v)) * ucast (bytes_per_sector (g_bpb v))) :: u32) = clusters_needed v sz"
    "0 < clusters_needed v sz" "unat sz \<le> clusters_needed v sz * spc v * 512"
proof -
  let ?cb = "ucast (sectors_per_clustor (g_bpb v)) * ucast (bytes_per_sector (g_bpb v)) :: u32"
  have bps: "(ucast (bytes_per_sector (g_bpb v)) :: u32) = 512" using assms(1) by (simp add: vol_ok_def)
  have cb: "unat ?cb = spc v * 512"
    using u8_bound[of "sectors_per_clustor (g_bpb v)"] by (simp add: bps unat_word_ariths spc_def)
  have s: "0 < spc v" "spc v < 256" "0 < unat sz"
    using assms u8_bound[of "sectors_per_clustor (g_bpb v)"] by (simp_all add: vol_ok_def spc_def word_less_nat_alt)
  show "?cb \<noteq> 0" using cb s by (auto simp: word_unat_eq_iff)
  have add: "unat (sz + ?cb) = unat sz + spc v * 512"
    using cb s assms(3) by (subst unat_add_small) simp_all
  then have "unat (sz + ?cb - 1) = unat sz + spc v * 512 - 1"
    using s by (subst unat_sub) (simp_all add: word_le_nat_alt)
  then show "unat ((sz + ?cb - 1) div ?cb) = clusters_needed v sz"
    by (simp add: unat_div cb clusters_needed_def)
  let ?d = "spc v * 512" and ?n = "unat sz + spc v * 512 - 1"
  have "?d * 1 \<le> ?n" using s by simp
  then show "0 < clusters_needed v sz" unfolding clusters_needed_def using s by (simp add: div_greater_zero_iff)
  have "?n < (?n div ?d) * ?d + ?d" using s dividend_less_div_times[of ?d ?n] by simp
  then show "unat sz \<le> clusters_needed v sz * spc v * 512" unfolding clusters_needed_def by (simp add: mult.assoc)
qed

lemma stored_written:
  assumes ok: "vol_ok v1" and cs: "links (fat v1) cs" "\<forall>c \<in> set cs. in_data v1 c" "distinct cs"
    and len: "length bs \<le> length cs * spc v1 * 512"
    and v2: "vol_ok v2" "geom v2 = geom v1" "sec v2 = put_blocks (zip (chain_addrs v1 cs) (chunks bs)) (sec v1)"
  shows "stored v2 cs bs" "unat a < unat (data_start_sector v1) \<or> a \<notin> set (chain_addrs v1 cs) \<Longrightarrow> sec v2 a = sec v1 a"
proof -
  note ca = chain_addrs_props[OF ok cs(2)]
  show keep: "sec v2 a = sec v1 a" if "unat a < unat (data_start_sector v1) \<or> a \<notin> set (chain_addrs v1 cs)" for a
  proof -
    have "a \<notin> set (chain_addrs v1 cs)" using that ca(1)[of a] by auto
    then show ?thesis unfolding v2(3) by (intro put_blocks_other) (auto dest: set_zip_leftD)
  qed
  have "unat (root_dir_start v1) \<le> unat (data_start_sector v1)" using ok by (simp add: vol_ok_def)
  then have "fat v2 c = fat v1 c" if "c \<in> set cs" for c
    using cs(2) that keep by (intro fat_below_root[OF ok v2(2)]) (auto simp: in_data_def)
  then have lk: "links (fat v2) cs" using cs(1) links_cong[of cs "fat v2" "fat v1"] by simp
  have "(length bs + 511) div 512 \<le> (length cs * spc v1 * 512 + 511) div 512" using len by (intro div_le_mono) simp
  also have "\<dots> = length cs * spc v1" by simp
  finally have m: "length (chunks bs) \<le> length (chain_addrs v1 cs)" by (simp add: chunks_props(1) ca(3))
  have blocks: "map (sec v2) (take (length (chunks bs)) (chain_addrs v1 cs)) = chunks bs"
    unfolding v2(3) by (rule put_blocks_zip[OF ca(2)[OF cs(3)] m])
  have "concat (map (sec v2) (chain_addrs v1 cs)) = concat (map (sec v2) (take (length (chunks bs)) (chain_addrs v1 cs))) @
      concat (map (sec v2) (drop (length (chunks bs)) (chain_addrs v1 cs)))"
    by (metis append_take_drop_id concat_append map_append)
  then have "concat (map (sec v2) (chain_addrs v1 cs)) =
      concat (chunks bs) @ concat (map (sec v2) (drop (length (chunks bs)) (chain_addrs v1 cs)))"
    by (simp only: blocks)
  moreover have "length bs \<le> length (concat (chunks bs))"
    using chunks_props(2)[of bs] by (metis length_take min.cobounded1)
  ultimately have "take (length bs) (concat (map (sec v2) (chain_addrs v1 cs))) = bs"
    using chunks_props(2)[of bs] by simp
  then show "stored v2 cs bs"
    using lk cs(2) unfolding stored_def addrs_geom(2)[OF v2(2)] in_data_geom[OF v2(2)] by simp
qed

text \<open>Allocation and the data: everything up to the directory entry.\<close>

lemma write_data_spec:
  assumes ok: "vol_ok v" and sz: "0 < sz" "unat sz < 2147483648" "unat sz \<le> length data"
    and room: "clusters_needed v sz \<le> card (free_clusters v)" and fuel: "clusters_needed v sz < fuel"
  shows "\<exists>v1 v2 cs. alloc_chain (clusters_needed v sz) 0 0 0 v = Inr (Some (hd cs), v1) \<and>
    write_chain fuel (hd cs) data sz 0 v1 = Inr v2 \<and> vol_ok v2 \<and> geom v2 = geom v \<and>
    length cs = clusters_needed v sz \<and> distinct cs \<and> cs \<noteq> [] \<and> set cs \<subseteq> free_clusters v \<and>
    stored v2 cs (take (unat sz) data) \<and>
    (\<forall>k. unat k < nclusters v \<longrightarrow> k \<notin> set cs \<longrightarrow> fat v2 k = fat v k) \<and>
    (\<forall>a. unat (root_dir_start v) \<le> unat a \<longrightarrow> a \<notin> set (chain_addrs v cs) \<longrightarrow> sec v2 a = sec v a)"
proof -
  let ?n = "clusters_needed v sz"
  note cn = clusters_needed_word[OF ok sz(1,2)]
  obtain r v1 where al: "alloc_post ?n [] v r v1"
    "alloc_chain ?n 0 0 0 v = Inr (map_option (\<lambda>cs. if ?n > 0 then hd cs else 0) r, v1)"
    using alloc_chain_eq[OF ok, of "[]" 0 0 ?n 0] by auto
  obtain cs where r: "r = Some cs" using al(1) room by (cases r) (auto simp: alloc_post_def)
  have v1: "vol_ok v1" "geom v1 = geom v" "length cs = ?n" "distinct cs" "set cs \<subseteq> free_clusters v" "links (fat v1) cs"
    "\<And>k. unat k < nclusters v \<Longrightarrow> k \<notin> set cs \<Longrightarrow> fat v1 k = fat v k"
    "\<And>a. unat (root_dir_start v) \<le> unat a \<Longrightarrow> sec v1 a = sec v a"
    using al(1) r by (auto simp: alloc_post_def)
  note g1 = geom_eqD[OF v1(2)]
  have ne: "cs \<noteq> []" "chain_head cs = hd cs" using v1(3) cn(3) by (cases cs; simp)+
  have dt: "\<forall>c \<in> set cs. in_data v1 c" using v1(5) g1(7) by (auto simp: free_clusters_def in_data_def)
  obtain v2 where v2: "write_chain fuel (chain_head cs) data sz 0 v1 = Inr v2" "vol_ok v2" "geom v2 = geom v1"
    "sec v2 = put_blocks (zip (chain_addrs v1 cs) (chunks (take (unat sz) data))) (sec v1)"
    using write_chain_eq[OF v1(1,6) dt, of fuel sz data 0] fuel v1(3) sz(3) by (auto simp: rest_def)
  have "length (take (unat sz) data) \<le> length cs * spc v1 * 512" using cn(4) v1(3) g1(6) sz(3) by simp
  note w = stored_written[OF v1(1,6) dt v1(4) this v2(2,3,4)]
  have "unat (root_dir_start v) \<le> unat (data_start_sector v)" using ok by (simp add: vol_ok_def)
  then have "fat v2 k = fat v1 k" if "unat k < nclusters v" for k
    using w(2) that g1 by (intro fat_below_root[OF v1(1) v2(3)]) auto
  then show ?thesis
    using al(2) r cn(3) v1 v2(1,2,3) ne w addrs_geom(2)[OF v1(2)]
    by (intro exI[of _ v1] exI[of _ v2] exI[of _ cs]) auto
qed

lemma root_frame:
  assumes "vol_ok v" "geom v' = geom v"
    "\<And>a. unat (root_dir_start v) \<le> unat a \<Longrightarrow> unat a < unat (data_start_sector v) \<Longrightarrow> sec v' a = sec v a"
  shows "root_list v' = root_list v"
proof -
  have "unat (root_dir_start v) + unat (root_dir_sectors v) \<le> unat (data_start_sector v)" using assms(1) by (simp add: vol_ok_def)
  then have "sec v' (root_dir_start v + of_nat i) = sec v (root_dir_start v + of_nat i)" if "i < unat (root_dir_sectors v)" for i
    using root_addrs(3)[OF assms(1) that] that by (intro assms(3)) simp_all
  then have "map (\<lambda>i. entries_of (sec v' (root_dir_start v + of_nat i))) [0..<unat (root_dir_sectors v)] =
      map (\<lambda>i. entries_of (sec v (root_dir_start v + of_nat i))) [0..<unat (root_dir_sectors v)]"
    by (intro map_cong) simp_all
  then show ?thesis using geom_eqD[OF assms(2)] by (simp only: root_entries_def)
qed

lemma add_entry_spec:
  assumes ok: "vol_ok v" and "first_free (root_list v) = Some j" "length en = 32"
  shows "\<exists>v'. add_entry [0..<unat (root_dir_sectors v)] en v = (True, v') \<and> vol_ok v' \<and> geom v' = geom v \<and>
    root_list v' = (root_list v)[j := en] \<and> (\<forall>k. unat k < nclusters v \<longrightarrow> fat v' k = fat v k) \<and>
    (\<forall>a. unat (data_start_sector v) \<le> unat a \<longrightarrow> sec v' a = sec v a)"
proof -
  obtain v' where v': "add_entry [0..<unat (root_dir_sectors v)] en v = (True, v')" "geom v' = geom v" "disk_ok (disk v')"
    "\<And>a. a \<notin> (\<lambda>i. root_dir_start v + of_nat i) ` set [0..<unat (root_dir_sectors v)] \<Longrightarrow> sec v' a = sec v a"
    "root_entries v' [0..<unat (root_dir_sectors v)] = (root_list v)[j := en]"
    using add_entry_eq[OF vol_disk_ok[OF ok] root_addrs(1,2)[OF ok] assms(3)] assms(2) by auto
  have rd: "unat (root_dir_start v) + unat (root_dir_sectors v) \<le> unat (data_start_sector v)" using ok by (simp add: vol_ok_def)
  have keep: "sec v' a = sec v a" if "unat a < unat (root_dir_start v) \<or> unat (data_start_sector v) \<le> unat a" for a
    using that root_addrs(3)[OF ok] rd by (intro v'(4)) auto
  then show ?thesis
    using v' vol_ok_geom[OF v'(2,3) ok] geom_eqD(4)[OF v'(2)] fat_below_root[OF ok v'(2)] by auto
qed

text \<open>fat16_write_file on a volume with room: the new file is stored and has an entry.\<close>

lemma write_file_spec:
  assumes ok: "vol_ok (vol s)" and nm: "length name8 = 8" "length ext3 = 3"
    and sz: "0 < sz" "unat sz < 2147483648" "unat sz \<le> length data"
    and room: "clusters_needed (vol s) sz \<le> card (free_clusters (vol s))" "first_free (root_list (vol s)) = Some j"
    and fuel: "clusters_needed (vol s) sz < fuel"
  shows "\<exists>v' cs. fat16_write_file fuel name8 ext3 data sz s =
      Inr (0, kprint (s\<lparr>vol := v'\<rparr>) (bytes ''fat16_write: file written!\<newline>'')) \<and>
    vol_ok v' \<and> geom v' = geom (vol s) \<and> length cs = clusters_needed (vol s) sz \<and> cs \<noteq> [] \<and>
    set cs \<subseteq> free_clusters (vol s) \<and> stored v' cs (take (unat sz) data) \<and>
    root_list v' = (root_list (vol s))[j := new_dir_entry name8 ext3 (hd cs) sz] \<and>
    (\<forall>k. unat k < nclusters (vol s) \<longrightarrow> k \<notin> set cs \<longrightarrow> fat v' k = fat (vol s) k) \<and>
    (\<forall>a. unat (data_start_sector (vol s)) \<le> unat a \<longrightarrow> a \<notin> set (chain_addrs (vol s) cs) \<longrightarrow> sec v' a = sec (vol s) a)"
proof -
  let ?v = "vol s"
  note cn = clusters_needed_word[OF ok sz(1,2)]
  obtain v1 v2 cs where v2: "alloc_chain (clusters_needed ?v sz) 0 0 0 ?v = Inr (Some (hd cs), v1)"
    "write_chain fuel (hd cs) data sz 0 v1 = Inr v2" "vol_ok v2" "geom v2 = geom ?v"
    "length cs = clusters_needed ?v sz" "distinct cs" "cs \<noteq> []" "set cs \<subseteq> free_clusters ?v" "stored v2 cs (take (unat sz) data)"
    "\<And>k. unat k < nclusters ?v \<Longrightarrow> k \<notin> set cs \<Longrightarrow> fat v2 k = fat ?v k"
    "\<And>a. unat (root_dir_start ?v) \<le> unat a \<Longrightarrow> a \<notin> set (chain_addrs ?v cs) \<Longrightarrow> sec v2 a = sec ?v a"
    using write_data_spec[OF ok sz room(1) fuel] by metis
  note g2 = geom_eqD[OF v2(4)]
  have dt: "\<forall>c \<in> set cs. in_data ?v c" using v2(8) by (auto simp: free_clusters_def in_data_def)
  have "root_list v2 = root_list ?v"
    using v2(11) chain_addrs_props(1)[OF ok dt] by (intro root_frame[OF ok v2(4)]) fastforce
  then have ff: "first_free (root_list v2) = Some j" "root_list v2 = root_list ?v" using room(2) by simp_all
  let ?en = "new_dir_entry name8 ext3 (hd cs) sz"
  obtain v3 where v3: "add_entry [0..<unat (root_dir_sectors v2)] ?en v2 = (True, v3)" "vol_ok v3" "geom v3 = geom v2"
    "root_list v3 = (root_list v2)[j := ?en]" "\<And>k. unat k < nclusters v2 \<Longrightarrow> fat v3 k = fat v2 k"
    "\<And>a. unat (data_start_sector v2) \<le> unat a \<Longrightarrow> sec v3 a = sec v2 a"
    using add_entry_spec[OF v2(3) ff(1) new_entry_props(1)[OF nm, of "hd cs" sz]] by blast
  have dt2: "\<forall>c \<in> set cs. in_data v2 c" using dt in_data_geom[OF v2(4)] by simp
  have st: "stored v3 cs (take (unat sz) data)"
    using dt2 chain_addrs_props(1)[OF v2(3) dt2]
    by (intro stored_frame[OF v2(9,3) v3(3)] v3(5,6)) (auto simp: in_data_def)
  have "(sz + ucast (sectors_per_clustor (g_bpb ?v)) * ucast (bytes_per_sector (g_bpb ?v)) - 1) div
      (ucast (sectors_per_clustor (g_bpb ?v)) * ucast (bytes_per_sector (g_bpb ?v))) \<noteq> 0"
    using cn(2,3) by (metis less_numeral_extra(3) unat_0)
  then have "fat16_write_file fuel name8 ext3 data sz s =
      Inr (0, kprint (s\<lparr>vol := v3\<rparr>) (bytes ''fat16_write: file written!\<newline>''))"
    using cn(1,2) v2(1,2) v3(1) by (simp only: fat16_write_file_def Let_def if_False bindE_Inr prod.case option.case if_True)
  then show ?thesis
    using v3(2-4) v2(4,5,7,8,10,11) ff(2) st v3(5,6) g2 ok
    by (intro exI[of _ v3] exI[of _ cs]) (auto simp: vol_ok_def)
qed

section \<open>Reading a file\<close>

lemma read_file_clamped:
  assumes ok: "vol_ok (vol s)" and en: "lookup name8 ext3 (root_list (vol s)) = Some en"
    and st: "stored (vol s) cs bs" "cs \<noteq> []" "hd cs = low_first_cluster en" "length bs = unat (file_size en)"
    and "length cs < fuel"
  shows "\<exists>s'. fat16_read_file fuel name8 ext3 max_size s = Inr (sint (file_size en), take (unat max_size) bs, s')"
proof -
  obtain v1 where v1: "scan_root [0..<unat (root_dir_sectors (vol s))] name8 ext3 (vol s) = (Some en, v1)" "same_vol (vol s) v1"
    using scan_root_lookup[OF vol_disk_ok[OF ok] root_addrs(1)[OF ok], of name8 ext3] en by auto
  have g: "geom v1 = geom (vol s)" "sec v1 = sec (vol s)" "fat v1 = fat (vol s)"
    using v1(2) fat_same[OF v1(2)] by (simp_all add: same_vol_def)
  have st1: "stored v1 cs bs" using g st(1) by (intro stored_frame[OF _ ok g(1)]) simp_all
  have hd: "chain_head cs = low_first_cluster en" using st(2,3) by (cases cs) simp_all
  let ?left = "if file_size en > max_size then max_size else file_size en"
  have left: "unat ?left = min (unat max_size) (length bs)" using st(4) by (auto simp: word_less_nat_alt)
  obtain v2 where r: "read_chain fuel (low_first_cluster en) ?left [] v1 =
      Inr (take (unat ?left) (concat (map (sec v1) (chain_addrs v1 cs))), v2)"
    using read_chain_eq[OF same_vol_ok[OF v1(2) ok], of cs fuel ?left "[]"] st1 assms(7) hd by (auto simp: stored_def)
  have "take (unat ?left) (concat (map (sec v1) (chain_addrs v1 cs))) =
      take (unat max_size) (take (length bs) (concat (map (sec v1) (chain_addrs v1 cs))))"
    unfolding left take_take ..
  also have "\<dots> = take (unat max_size) bs" using st1 by (simp add: stored_def)
  finally show ?thesis
    using v1(1) r by (simp only: fat16_read_file_def Let_def prod.case option.case fatsys.simps bindE_Inr) simp
qed

lemma read_file_stored:
  assumes "vol_ok (vol s)" "lookup name8 ext3 (root_list (vol s)) = Some en"
    and "stored (vol s) cs bs" "cs \<noteq> []" "hd cs = low_first_cluster en" "length bs = unat (file_size en)"
    and "file_size en \<le> max_size" "length cs < fuel"
  shows "\<exists>s'. fat16_read_file fuel name8 ext3 max_size s = Inr (sint (file_size en), bs, s')"
  using read_file_clamped[OF assms(1-6,8), of max_size] assms(6,7) by (simp add: word_le_nat_alt)

section \<open>Files that are not written\<close>

lemma links_used:
  assumes "links (fat v) cs" "\<forall>c \<in> set cs. in_data v c" "c \<in> set cs"
  shows "fat v c \<noteq> 0"
  using assms
proof (induction cs)
  case (Cons d cs)
  have "chain_head cs \<noteq> 0" using Cons.prems(2) by (cases cs) (auto simp: in_data_def)
  then show ?case using Cons by (auto simp: links_Cons)
qed simp

lemma chain_addrs_disjoint:
  assumes "vol_ok v" "\<forall>c \<in> set cs \<union> set ds. in_data v c" "set cs \<inter> set ds = {}"
  shows "set (chain_addrs v cs) \<inter> set (chain_addrs v ds) = {}"
proof (rule ccontr)
  assume "set (chain_addrs v cs) \<inter> set (chain_addrs v ds) \<noteq> {}"
  then obtain a c d where a: "c \<in> set cs" "d \<in> set ds" "a \<in> set (cluster_addrs v c)" "a \<in> set (cluster_addrs v d)"
    by (auto simp: chain_addrs_def)
  then have "unat c = unat d"
    using cluster_addrs_props(3)[OF assms(1) _ a(3)] cluster_addrs_props(3)[OF assms(1) _ a(4)] assms(2) by simp
  then have "c = d" by (simp only: word_unat_eq_iff)
  then show False using a(1,2) assms(3) by blast
qed

text \<open>A stored file survives a write that uses free clusters only.\<close>

lemma stored_survives:
  assumes "vol_ok v" "stored v ds bs" "set cs \<subseteq> free_clusters v" "geom v' = geom v"
    and "\<And>k. unat k < nclusters v \<Longrightarrow> k \<notin> set cs \<Longrightarrow> fat v' k = fat v k"
    and "\<And>a. unat (data_start_sector v) \<le> unat a \<Longrightarrow> a \<notin> set (chain_addrs v cs) \<Longrightarrow> sec v' a = sec v a"
  shows "stored v' ds bs"
proof -
  have d: "links (fat v) ds" "\<forall>c \<in> set ds. in_data v c" using assms(2) by (simp_all add: stored_def)
  have dis: "set ds \<inter> set cs = {}" using links_used[OF d] assms(3) by (auto simp: free_clusters_def)
  have "\<forall>c \<in> set ds \<union> set cs. in_data v c" using d(2) assms(3) by (auto simp: free_clusters_def in_data_def)
  note da = chain_addrs_disjoint[OF assms(1) this dis]
  show ?thesis
    using d(2) dis da chain_addrs_props(1)[OF assms(1) d(2)]
    by (intro stored_frame[OF assms(2,1,4)] assms(5,6)) (auto simp: in_data_def)
qed

text \<open>When the disk has too few free clusters.\<close>

lemma write_file_full:
  assumes ok: "vol_ok (vol s)" and sz: "0 < sz" "unat sz < 2147483648"
    and few: "card (free_clusters (vol s)) < clusters_needed (vol s) sz"
  shows "\<exists>v'. fat16_write_file fuel name8 ext3 data sz s =
      Inr (-1, kprint (s\<lparr>vol := v'\<rparr>) (bytes ''fat16_write: disk full!\<newline>'')) \<and> vol_ok v' \<and> free_clusters v' = {}"
proof -
  note cn = clusters_needed_word[OF ok sz]
  obtain r v1 where al: "alloc_post (clusters_needed (vol s) sz) [] (vol s) r v1"
    "alloc_chain (clusters_needed (vol s) sz) 0 0 0 (vol s) = Inr (map_option (\<lambda>cs. if clusters_needed (vol s) sz > 0 then hd cs else 0) r, v1)"
    using alloc_chain_eq[OF ok, of "[]" 0 0 "clusters_needed (vol s) sz" 0] by auto
  have r: "r = None" "vol_ok v1" "free_clusters v1 = {}" using al(1) few by (auto simp: alloc_post_def split: option.splits)
  have "(sz + ucast (sectors_per_clustor (g_bpb (vol s))) * ucast (bytes_per_sector (g_bpb (vol s))) - 1) div
      (ucast (sectors_per_clustor (g_bpb (vol s))) * ucast (bytes_per_sector (g_bpb (vol s)))) \<noteq> 0"
    using cn(2,3) by (metis less_numeral_extra(3) unat_0)
  then have "fat16_write_file fuel name8 ext3 data sz s =
      Inr (-1, kprint (s\<lparr>vol := v1\<rparr>) (bytes ''fat16_write: disk full!\<newline>''))"
    using cn(1,2) al(2) r(1) by (simp only: fat16_write_file_def Let_def if_False bindE_Inr prod.case option.case option.map)
  then show ?thesis using r(2,3) by blast
qed

section \<open>How much is read\<close>

lemma rd_sector_length: "rd_sector a v = (buf, v') \<Longrightarrow> length buf = 512"
  by (auto simp: rd_sector_def ata_read_sector_def bytes_of_length words_of_def Let_def)

lemma read_cluster_bound:
  "read_cluster ks lba bytes_left out v = (left', out', v') \<Longrightarrow> length out' + unat left' = length out + unat bytes_left"
proof (induction ks lba bytes_left out v rule: read_cluster.induct)
  case (2 k ks lba bytes_left out v)
  show ?case
  proof (cases "bytes_left > 0")
    case True
    obtain tmp v1 where rd: "rd_sector (lba + of_nat k) v = (tmp, v1)" by (cases "rd_sector (lba + of_nat k) v")
    let ?tc = "if bytes_left < 512 then bytes_left else 512"
    have tc: "unat ?tc \<le> 512" "unat ?tc \<le> unat bytes_left" "unat (bytes_left - ?tc) = unat bytes_left - unat ?tc"
      by (auto simp: word_less_nat_alt unat_sub word_le_nat_alt)
    have "read_cluster ks lba (bytes_left - ?tc) (out @ take (unat ?tc) tmp) v1 = (left', out', v')"
      using "2.prems" True rd by (simp only: read_cluster.simps Let_def if_True prod.case)
    then have "length out' + unat left' = length (out @ take (unat ?tc) tmp) + unat (bytes_left - ?tc)"
      using "2.IH"[OF True rd[symmetric]] by simp
    then show ?thesis using tc rd_sector_length[OF rd] by simp
  next
    case False
    then show ?thesis using "2.prems" by simp
  qed
qed simp

lemma read_chain_bound:
  "read_chain fuel c bytes_left out v = Inr (out', v') \<Longrightarrow> length out' \<le> length out + unat bytes_left"
proof (induction fuel c bytes_left out v rule: read_chain.induct)
  case (2 fuel c bytes_left out v)
  show ?case
  proof (cases "c \<ge> 2 \<and> c < 0xFFF8 \<and> bytes_left > 0")
    case True
    obtain l o1 v1 where r: "read_cluster [0..<unat (sectors_per_clustor (g_bpb v))] (fat16_cluster_to_lba c v) bytes_left out v = (l, o1, v1)"
      by (metis prod_cases3)
    obtain nxt v2 where f: "fat16_read_fat_entry c v1 = Inr (nxt, v2)" "read_chain fuel nxt l o1 v2 = Inr (out', v')"
      using "2.prems" True r by (auto simp: bindE_eq_Inr Let_def)
    have "length out' \<le> length o1 + unat l" using "2.IH"[OF True refl r[symmetric] refl refl f(1) refl f(2)] .
    then show ?thesis using read_cluster_bound[OF r] by simp
  next
    case False
    then show ?thesis using "2.prems" by auto
  qed
qed simp

section \<open>Initialisation\<close>

lemma rd_sector_snd: "rd_sector a v = (buf, v') \<Longrightarrow> v' = v\<lparr>disk := ata_select a (disk v)\<rparr>"
  by (auto simp: rd_sector_def ata_read_sector_def Let_def)

lemma ls_entries_vol: "ls_entries es buf fa s = (fin, fa', s') \<Longrightarrow> vol s' = vol s"
  by (induction es buf fa s rule: ls_entries.induct)
    (auto simp: Let_def kprint_def kprint_int_def split: if_splits)

lemma ls_sectors_vol: "ls_sectors is fa s = (fa', s') \<Longrightarrow> disk_ok (disk (vol s)) \<Longrightarrow> same_vol (vol s) (vol s')"
proof (induction "is" fa s rule: ls_sectors.induct)
  case (1 fa s)
  then show ?case by (simp add: same_vol_refl)
next
  case (2 i "is" fa s)
  obtain buf v where rd: "rd_sector (root_dir_start (vol s) + of_nat i) (vol s) = (buf, v)" by fastforce
  obtain fin fa1 s1 where en: "ls_entries [0..<16] buf fa (s\<lparr>vol := v\<rparr>) = (fin, fa1, s1)" by (metis prod_cases3)
  have v: "vol s1 = v" "same_vol (vol s) v"
    using ls_entries_vol[OF en] rd_sector_snd[OF rd] same_vol_touch[OF "2.prems"(2)] by simp_all
  show ?case
  proof (cases fin)
    case True
    then show ?thesis using "2.prems"(1) rd en v by (simp del: upt_rec_numeral upt_Suc)
  next
    case False
    then have r: "ls_sectors is fa1 s1 = (fa', s')" using "2.prems"(1) rd en by (simp del: upt_rec_numeral upt_Suc)
    have "same_vol (vol s1) (vol s')"
      using "2.IH"[OF rd[symmetric] refl en[symmetric] refl refl False r] v by (simp add: same_vol_def)
    then show ?thesis using v same_vol_trans by metis
  qed
qed

lemma fat16_ls_vol: "disk_ok (disk (vol s)) \<Longrightarrow> same_vol (vol s) (vol (fat16_ls s))"
  unfolding fat16_ls_def Let_def
  by (auto simp: kprint_def split: prod.splits dest!: ls_sectors_vol)

section \<open>A small volume\<close>

text \<open>
  For the witnesses: a volume of 14 sectors with one sector per table, root directory and
  cluster. \<open>sample_vol\<close> is empty, \<open>sample_vol1\<close> holds the file OLD.TXT with three bytes.
\<close>

definition sample_bpb :: fat16_bpb where
  "sample_bpb = (bpb_of (replicate 512 0))\<lparr>bytes_per_sector := 512, sectors_per_clustor := 1, reserved_sectors := 1,
     fat_count := 2, root_dir_entries := 16, total_sectors_small := 14, sectors_per_fat := 1\<rparr>"

definition sample_vol :: fat16_vol where
  "sample_vol = \<lparr>disk = sample_disk, g_bpb = sample_bpb, fat_start_sector = 1, root_dir_start = 3,
     root_dir_sectors = 1, data_start_sector = 4\<rparr>"

definition old_entry :: "u8 list" where
  "old_entry = new_dir_entry (bytes ''OLD     '') (bytes ''TXT'') 2 3"

definition sample_vol1 :: fat16_vol where
  "sample_vol1 = sample_vol\<lparr>disk := sample_disk\<lparr>sectors := (\<lambda>_. replicate 512 0)
     (1 := (replicate 512 0)[4 := 0xFF, 5 := 0xFF], 3 := old_entry @ replicate 480 0, 4 := bytes ''abc'' @ replicate 509 0)\<rparr>\<rparr>"

definition sample_fatsys :: "fat16_vol \<Rightarrow> fatsys" where
  "sample_fatsys v = vm.extend sample_vm \<lparr>vol = v\<rparr>"

lemma vol_sample [simp]: "vol (sample_fatsys v) = v"
  by (simp add: sample_fatsys_def vm.defs)

lemma sample_geom: "geom sample_vol1 = geom sample_vol" "spc sample_vol = 1" "nclusters sample_vol = 12"
  by (simp_all add: sample_vol1_def geom_def spc_def sample_vol_def sample_bpb_def nclusters_def total_sectors_def)

lemma sample_vol_ok: "vol_ok sample_vol" "vol_ok sample_vol1"
proof -
  have "length old_entry = 32"
    unfolding old_entry_def by (rule new_entry_props(1)) (simp_all add: bytes_def)
  then have "disk_ok (disk sample_vol1)"
    by (simp add: disk_ok_def sample_vol1_def bytes_def)
  moreover show ok: "vol_ok sample_vol"
    using sample_geom by (simp add: vol_ok_def disk_ok_def)
      (simp add: sample_vol_def sample_disk_def sample_bpb_def total_sectors_def)
  ultimately show "vol_ok sample_vol1" using vol_ok_geom[OF sample_geom(1)] by blast
qed

lemma sample_free: "2 \<in> free_clusters sample_vol" "3 \<in> free_clusters sample_vol1" "fat sample_vol1 2 = 0xFFFF"
  using sample_geom geom_eqD(7)[OF sample_geom(1)]
  by (simp_all add: free_clusters_def)
    (simp_all add: fat_def fat_sec_def sec_def sample_vol_def sample_vol1_def sample_disk_def get16_def le16_def)

lemma card_pos: "c \<in> free_clusters v \<Longrightarrow> 1 \<le> card (free_clusters v)"
  by (metis One_nat_def Suc_leI card_gt_0_iff empty_iff finite_free)

lemma sample_root:
  "root_list sample_vol = replicate 16 (replicate 32 0)" "root_list sample_vol1 = old_entry # replicate 15 (replicate 32 0)"
proof -
  have z: "entries_of (replicate 512 0) = replicate 16 (replicate 32 0)"
    by (rule nth_equalityI) (simp_all add: entries_of_def del: upt_rec_numeral upt_Suc)
  then show "root_list sample_vol = replicate 16 (replicate 32 0)"
    by (simp add: root_entries_def sec_def sample_vol_def sample_disk_def)
  have len: "length old_entry = 32"
    unfolding old_entry_def by (rule new_entry_props(1)) (simp_all add: bytes_def)
  have "entries_of (old_entry @ replicate 480 0) = old_entry # replicate 15 (replicate 32 0)"
  proof (rule nth_equalityI)
    fix i
    assume "i < length (entries_of (old_entry @ replicate 480 0))"
    then have i: "i < 16" by simp
    show "entries_of (old_entry @ replicate 480 0) ! i = (old_entry # replicate 15 (replicate 32 0)) ! i"
    proof (cases i)
      case (Suc n)
      then have "32 * n + 32 \<le> 480" "n < 15" using i by simp_all
      then show ?thesis using Suc i len by (simp add: entries_of_def del: upt_rec_numeral upt_Suc)
    qed (simp add: entries_of_def len del: upt_rec_numeral upt_Suc)
  qed simp
  then show "root_list sample_vol1 = old_entry # replicate 15 (replicate 32 0)"
    by (simp add: root_entries_def sec_def sample_vol1_def sample_vol_def)
qed

lemma old_bytes: "length (bytes ''OLD     '') = 8" "length (bytes ''TXT'') = 3" "bytes ''OLD     '' ! 0 = 79"
  by (simp_all add: bytes_def)

lemma sample_lookup:
  "first_free (root_list sample_vol) = Some 0" "lookup name8 ext3 (root_list sample_vol) = None"
  "first_free (root_list sample_vol1) = Some 1" "root_list sample_vol1 ! 1 ! 0 = 0"
  "lookup (bytes ''OLD     '') (bytes ''TXT'') (root_list sample_vol1) = Some (dir_entry_at old_entry 0)"
proof -
  have r: "replicate 16 x = x # replicate 15 x" "replicate 15 x = x # replicate 14 x" for x :: "u8 list"
    by (simp_all add: numeral_eq_Suc)
  have o: "old_entry ! 0 = 79" unfolding old_entry_def using new_entry_props(2)[OF old_bytes(1,2)] old_bytes(3) by simp
  show "first_free (root_list sample_vol) = Some 0" "lookup name8 ext3 (root_list sample_vol) = None"
    unfolding sample_root r by (simp_all add: is_free_def)
  show "first_free (root_list sample_vol1) = Some 1" "root_list sample_vol1 ! 1 ! 0 = 0"
    unfolding sample_root r(2) by (simp_all add: is_free_def o)
  show "lookup (bytes ''OLD     '') (bytes ''TXT'') (root_list sample_vol1) = Some (dir_entry_at old_entry 0)"
    unfolding sample_root using o names_new[OF old_bytes(1,2)] by (simp add: old_entry_def)
qed

lemma sample_stored: "stored sample_vol1 [2] (bytes ''abc'')"
proof -
  have "chain_addrs sample_vol1 [2] = [4]"
    using geom_eqD(6)[OF sample_geom(1)] sample_geom(2)
    by (simp add: chain_addrs_def cluster_addrs_def fat16_cluster_to_lba_def)
      (simp add: sample_vol1_def sample_vol_def sample_bpb_def)
  moreover have "sec sample_vol1 4 = bytes ''abc'' @ replicate 509 0" by (simp add: sec_def sample_vol1_def)
  ultimately show ?thesis
    using sample_free(3) geom_eqD(7)[OF sample_geom(1)] sample_geom(3)
    by (simp add: stored_def in_data_def bytes_def)
qed

section \<open>Properties\<close>

text \<open>
  C4: a file reads back as it was written. On a well-formed volume with enough free clusters
  and a free directory slot, under a name that is not in use, fat16_write_file succeeds, and
  fat16_read_file of the same name, with a buffer that is large enough, then answers the size
  and delivers exactly the bytes written. Fuel above the number of clusters is enough for both.
\<close>

theorem fat16_write_read:
  assumes "vol_ok (vol s)" "length name8 = 8" "length ext3 = 3" "name8 ! 0 \<noteq> 0" "name8 ! 0 \<noteq> 0xE5"
    and "0 < sz" "unat sz < 2147483648" "unat sz \<le> length data" "sz \<le> max_size"
    and "lookup name8 ext3 (root_list (vol s)) = None"
    and "clusters_needed (vol s) sz \<le> card (free_clusters (vol s))" "first_free (root_list (vol s)) = Some j"
    and "clusters_needed (vol s) sz < fuel"
  shows "\<exists>s' s''. fat16_write_file fuel name8 ext3 data sz s = Inr (0, s') \<and> vol_ok (vol s') \<and>
    fat16_read_file fuel name8 ext3 max_size s' = Inr (sint sz, take (unat sz) data, s'')"
proof -
  obtain v' cs where v': "fat16_write_file fuel name8 ext3 data sz s =
      Inr (0, kprint (s\<lparr>vol := v'\<rparr>) (bytes ''fat16_write: file written!\<newline>''))" "vol_ok v'"
    "length cs = clusters_needed (vol s) sz" "cs \<noteq> []" "stored v' cs (take (unat sz) data)"
    "root_list v' = (root_list (vol s))[j := new_dir_entry name8 ext3 (hd cs) sz]"
    using write_file_spec[OF assms(1-3,6-8,11-13)] by blast
  let ?en = "new_dir_entry name8 ext3 (hd cs) sz"
  let ?s' = "kprint (s\<lparr>vol := v'\<rparr>) (bytes ''fat16_write: file written!\<newline>'')"
  note np = new_entry_props[OF assms(2,3), of "hd cs" sz]
  have "\<not> is_free ?en" using np(2) assms(4,5) by (simp add: is_free_def)
  then have "lookup name8 ext3 (root_list v') = Some (dir_entry_at ?en 0)"
    unfolding v'(6) using lookup_new[OF assms(12,10)] names_new[OF assms(2,3)] by blast
  moreover have "vol ?s' = v'" by (simp add: kprint_def)
  ultimately show ?thesis
    using v' read_file_stored[of ?s' name8 ext3 "dir_entry_at ?en 0" cs "take (unat sz) data" max_size fuel] np(6,7) assms(8,9,13)
    by fastforce
qed

theorem fat16_write_read_witness:
  "\<exists>s' s''. fat16_write_file 2 (bytes ''OLD     '') (bytes ''TXT'') (bytes ''hello'') 5 (sample_fatsys sample_vol) = Inr (0, s') \<and>
    vol_ok (vol s') \<and>
    fat16_read_file 2 (bytes ''OLD     '') (bytes ''TXT'') 4096 s' = Inr (sint (5 :: u32), take (unat (5 :: u32)) (bytes ''hello''), s'')"
  by (rule fat16_write_read)
    (use sample_vol_ok(1) old_bytes sample_lookup card_pos[OF sample_free(1)] in
      \<open>simp_all add: bytes_def clusters_needed_def sample_geom\<close>)

text \<open>
  C17: writing a file leaves the others alone. A file whose chain is stored on the volume and
  whose directory entry is found before the write reads the same afterwards, when its name
  is not the one written.
\<close>

theorem fat16_write_keeps_others:
  assumes "vol_ok (vol s)" "length name8 = 8" "length ext3 = 3" "name8 ! 0 \<noteq> 0" "name8 ! 0 \<noteq> 0xE5"
    and "0 < sz" "unat sz < 2147483648" "unat sz \<le> length data"
    and "clusters_needed (vol s) sz \<le> card (free_clusters (vol s))" "first_free (root_list (vol s)) = Some j"
    and "clusters_needed (vol s) sz < fuel"
    and "lookup n8 e3 (root_list (vol s)) = Some en" "strncmp name8 n8 8 \<noteq> 0 \<or> strncmp ext3 e3 3 \<noteq> 0"
    and "stored (vol s) ds bs" "ds \<noteq> []" "hd ds = low_first_cluster en" "length bs = unat (file_size en)"
    and "file_size en \<le> max_size" "length ds < fuel2"
  shows "\<exists>s' s''. fat16_write_file fuel name8 ext3 data sz s = Inr (0, s') \<and>
    fat16_read_file fuel2 n8 e3 max_size s' = Inr (sint (file_size en), bs, s'')"
proof -
  obtain v' cs where v': "fat16_write_file fuel name8 ext3 data sz s =
      Inr (0, kprint (s\<lparr>vol := v'\<rparr>) (bytes ''fat16_write: file written!\<newline>''))" "vol_ok v'" "geom v' = geom (vol s)"
    "set cs \<subseteq> free_clusters (vol s)" "root_list v' = (root_list (vol s))[j := new_dir_entry name8 ext3 (hd cs) sz]"
    "\<And>k. unat k < nclusters (vol s) \<Longrightarrow> k \<notin> set cs \<Longrightarrow> fat v' k = fat (vol s) k"
    "\<And>a. unat (data_start_sector (vol s)) \<le> unat a \<Longrightarrow> a \<notin> set (chain_addrs (vol s) cs) \<Longrightarrow> sec v' a = sec (vol s) a"
    using write_file_spec[OF assms(1-3,6-8,9-11)] by blast
  let ?e = "new_dir_entry name8 ext3 (hd cs) sz"
  let ?s' = "kprint (s\<lparr>vol := v'\<rparr>) (bytes ''fat16_write: file written!\<newline>'')"
  note np = new_entry_props[OF assms(2,3), of "hd cs" sz]
  have "\<not> is_free ?e" "\<not> names n8 e3 ?e" using np assms(4,5,13) by (auto simp: is_free_def names_def)
  then have lk: "lookup n8 e3 (root_list v') = Some en" unfolding v'(5) using lookup_other[OF assms(10,12)] by blast
  have "stored v' ds bs" using stored_survives[OF assms(1,14) v'(4,3,6,7)] .
  moreover have "vol ?s' = v'" by (simp add: kprint_def)
  ultimately show ?thesis
    using v'(1,2) lk read_file_stored[of ?s' n8 e3 en ds bs max_size fuel2] assms(15-19) by fastforce
qed

theorem fat16_write_keeps_others_witness:
  "\<exists>s' s''. fat16_write_file 2 (bytes ''NEW     '') (bytes ''TXT'') (bytes ''hello'') 5 (sample_fatsys sample_vol1) = Inr (0, s') \<and>
    fat16_read_file 2 (bytes ''OLD     '') (bytes ''TXT'') 4096 s' =
      Inr (sint (file_size (dir_entry_at old_entry 0)), bytes ''abc'', s'')"
proof (rule fat16_write_keeps_others[where j = 1 and ds = "[2]"])
  have e: "low_first_cluster (dir_entry_at old_entry 0) = 2" "file_size (dir_entry_at old_entry 0) = 3"
    unfolding old_entry_def by (rule new_entry_props(6,7)[OF old_bytes(1,2)])+
  show "hd [2] = low_first_cluster (dir_entry_at old_entry 0)" "length (bytes ''abc'') = unat (file_size (dir_entry_at old_entry 0))"
    "file_size (dir_entry_at old_entry 0) \<le> 4096"
    unfolding e by (simp_all add: bytes_def)
  show "clusters_needed (vol (sample_fatsys sample_vol1)) 5 \<le> card (free_clusters (vol (sample_fatsys sample_vol1)))"
    "clusters_needed (vol (sample_fatsys sample_vol1)) 5 < 2"
    using card_pos[OF sample_free(2)] geom_eqD(6)[OF sample_geom(1)] by (simp_all add: clusters_needed_def sample_geom)
qed (use sample_vol_ok(2) sample_lookup sample_stored in \<open>simp_all add: strncmp.simps bytes_def\<close>)

text \<open>
  C38: a second write under the same name does not replace the file. When no deleted slot comes
  before the end mark of the directory, the new entry goes behind the old one, and a read
  still delivers the old bytes.
\<close>

theorem fat16_rewrite_reads_old:
  assumes "vol_ok (vol s)" "length name8 = 8" "length ext3 = 3"
    and "0 < sz" "unat sz < 2147483648" "unat sz \<le> length data"
    and "clusters_needed (vol s) sz \<le> card (free_clusters (vol s))" "first_free (root_list (vol s)) = Some j"
    and "clusters_needed (vol s) sz < fuel" "root_list (vol s) ! j ! 0 = 0"
    and "lookup name8 ext3 (root_list (vol s)) = Some en"
    and "stored (vol s) ds bs" "ds \<noteq> []" "hd ds = low_first_cluster en" "length bs = unat (file_size en)"
    and "file_size en \<le> max_size" "length ds < fuel2"
  shows "\<exists>s' s''. fat16_write_file fuel name8 ext3 data sz s = Inr (0, s') \<and>
    fat16_read_file fuel2 name8 ext3 max_size s' = Inr (sint (file_size en), bs, s'')"
proof -
  obtain v' cs where v': "fat16_write_file fuel name8 ext3 data sz s =
      Inr (0, kprint (s\<lparr>vol := v'\<rparr>) (bytes ''fat16_write: file written!\<newline>''))" "vol_ok v'" "geom v' = geom (vol s)"
    "set cs \<subseteq> free_clusters (vol s)" "root_list v' = (root_list (vol s))[j := new_dir_entry name8 ext3 (hd cs) sz]"
    "\<And>k. unat k < nclusters (vol s) \<Longrightarrow> k \<notin> set cs \<Longrightarrow> fat v' k = fat (vol s) k"
    "\<And>a. unat (data_start_sector (vol s)) \<le> unat a \<Longrightarrow> a \<notin> set (chain_addrs (vol s) cs) \<Longrightarrow> sec v' a = sec (vol s) a"
    using write_file_spec[OF assms(1-9)] by blast
  let ?s' = "kprint (s\<lparr>vol := v'\<rparr>) (bytes ''fat16_write: file written!\<newline>'')"
  have lk: "lookup name8 ext3 (root_list v') = Some en"
    unfolding v'(5) using lookup_shadowed[OF assms(8,11,10)] by blast
  have "stored v' ds bs" using stored_survives[OF assms(1,12) v'(4,3,6,7)] .
  moreover have "vol ?s' = v'" by (simp add: kprint_def)
  ultimately show ?thesis
    using v'(1,2) lk read_file_stored[of ?s' name8 ext3 en ds bs max_size fuel2] assms(13-17) by fastforce
qed

theorem fat16_rewrite_reads_old_witness:
  "\<exists>s' s''. fat16_write_file 2 (bytes ''OLD     '') (bytes ''TXT'') (bytes ''hello'') 5 (sample_fatsys sample_vol1) = Inr (0, s') \<and>
    fat16_read_file 2 (bytes ''OLD     '') (bytes ''TXT'') 4096 s' =
      Inr (sint (file_size (dir_entry_at old_entry 0)), bytes ''abc'', s'')"
proof (rule fat16_rewrite_reads_old[where j = 1 and ds = "[2]"])
  have e: "low_first_cluster (dir_entry_at old_entry 0) = 2" "file_size (dir_entry_at old_entry 0) = 3"
    unfolding old_entry_def by (rule new_entry_props(6,7)[OF old_bytes(1,2)])+
  show "hd [2] = low_first_cluster (dir_entry_at old_entry 0)" "length (bytes ''abc'') = unat (file_size (dir_entry_at old_entry 0))"
    "file_size (dir_entry_at old_entry 0) \<le> 4096"
    unfolding e by (simp_all add: bytes_def)
  show "clusters_needed (vol (sample_fatsys sample_vol1)) 5 \<le> card (free_clusters (vol (sample_fatsys sample_vol1)))"
    "clusters_needed (vol (sample_fatsys sample_vol1)) 5 < 2"
    using card_pos[OF sample_free(2)] geom_eqD(6)[OF sample_geom(1)] by (simp_all add: clusters_needed_def sample_geom)
qed (use sample_vol_ok(2) sample_lookup sample_stored in \<open>simp_all add: bytes_def\<close>)

text \<open>
  A write that runs out of clusters loses the disk's free space. fat16_write_file answers
  -1, but the clusters it had already chained stay marked: no cluster is free any more.
\<close>

theorem fat16_write_full_leaks:
  assumes "vol_ok (vol s)" "0 < sz" "unat sz < 2147483648" "card (free_clusters (vol s)) < clusters_needed (vol s) sz"
  shows "\<exists>s'. fat16_write_file fuel name8 ext3 data sz s = Inr (-1, s') \<and> free_clusters (vol s') = {}"
  using write_file_full[OF assms, of fuel name8 ext3 data] by (force simp: kprint_def)

theorem fat16_write_full_leaks_witness:
  "2 \<in> free_clusters sample_vol \<and> (\<exists>s'. fat16_write_file 20 (bytes ''BIG     '') (bytes ''DAT'') (replicate 10000 0) 10000
     (sample_fatsys sample_vol) = Inr (-1, s') \<and> free_clusters (vol s') = {})"
proof -
  have "unat ` free_clusters sample_vol \<subseteq> {2..<12}" using sample_geom(3) by (auto simp: free_clusters_def)
  then have "card (unat ` free_clusters sample_vol) \<le> card {2..<12 :: nat}" by (intro card_mono) simp_all
  then have "card (unat ` free_clusters sample_vol) \<le> 10" by simp
  moreover have "inj_on unat (free_clusters sample_vol)" by (simp add: inj_on_def word_unat_eq_iff)
  ultimately have "card (free_clusters sample_vol) \<le> 10" by (simp add: card_image)
  then show ?thesis
    using fat16_write_full_leaks[of "sample_fatsys sample_vol" 10000 20] sample_vol_ok(1) sample_free(1)
    by (simp add: clusters_needed_def sample_geom)
qed



text \<open>
  The answer of fat16_read_file is the size in the directory entry, not the number of bytes
  stored. For a file larger than the buffer the answer exceeds the buffer, and callers that
  index the buffer with it (fat-cat) or take it for the length of what they hold (run,
  spawn) leave the buffer.
\<close>

theorem fat16_read_answers_file_size:
  assumes "vol_ok (vol s)" "lookup name8 ext3 (root_list (vol s)) = Some en"
    and "stored (vol s) cs bs" "cs \<noteq> []" "hd cs = low_first_cluster en" "length bs = unat (file_size en)"
    and "length cs < fuel" "max_size < file_size en" "unat (file_size en) < 2147483648"
  shows "\<exists>out s'. fat16_read_file fuel name8 ext3 max_size s = Inr (int (length bs), out, s') \<and>
    length out = unat max_size \<and> length out < length bs"
proof -
  have "sint (file_size en) = int (length bs)"
    using assms(6) sint_small[OF assms(9)] by simp
  then show ?thesis
    using read_file_clamped[OF assms(1-7), of max_size] assms(6,8) by (auto simp: word_less_nat_alt)
qed

theorem fat16_read_answers_file_size_witness:
  "\<exists>out s'. fat16_read_file 2 (bytes ''OLD     '') (bytes ''TXT'') 2 (sample_fatsys sample_vol1) = Inr (int (length (bytes ''abc'')), out, s') \<and>
    length out = unat (2 :: u32) \<and> length out < length (bytes ''abc'')"
proof (rule fat16_read_answers_file_size[where cs = "[2]"])
  have e: "low_first_cluster (dir_entry_at old_entry 0) = 2" "file_size (dir_entry_at old_entry 0) = 3"
    unfolding old_entry_def by (rule new_entry_props(6,7)[OF old_bytes(1,2)])+
  show "hd [2] = low_first_cluster (dir_entry_at old_entry 0)" "length (bytes ''abc'') = unat (file_size (dir_entry_at old_entry 0))"
    "2 < file_size (dir_entry_at old_entry 0)" "unat (file_size (dir_entry_at old_entry 0)) < 2147483648"
    unfolding e by (simp_all add: bytes_def)
qed (use sample_vol_ok(2) sample_lookup sample_stored in simp_all)

text \<open>
  Names in 8.3 form. fat16_format_83 puts the first eight characters before the first dot
  and the first three after it into the two fields, in upper case and padded with blanks.
\<close>

theorem fat16_format_83_fields:
  "fat16_format_83 input = (pad 8 (map to_upper (stem input)), pad 3 (map to_upper (suffix_of input)))"
  by (rule fat16_format_83_eq)

text \<open>
  Fat16_init divides by the sector size it reads. On a disk whose first sector has a zero
  there (an unformatted disk), it ends in a divide error, and the kernel halts during boot.
\<close>

theorem fat16_init_blank_disk:
  assumes "disk_ok (disk (vol s))" "get16 (sec (vol s) 0) 11 = 0"
  shows "fat16_init s = Inl DivideError"
proof -
  have "rd_sector 0 (vol s) = (sec (vol s) 0, (vol s)\<lparr>disk := ata_select 0 (disk (vol s))\<rparr>)"
    using rd_sector_eq[OF assms(1), of 0] by (simp add: valid_lba_def)
  then show ?thesis using assms(2) by (simp add: fat16_init_def bpb_of_def Let_def)
qed

theorem fat16_init_blank_disk_witness: "fat16_init (sample_fatsys sample_vol) = Inl DivideError"
  by (rule fat16_init_blank_disk)
    (simp_all add: sample_vol_def sample_disk_def disk_ok_def sec_def get16_def le16_def)

text \<open>A boot sector whose areas fit on the disk, and the number of cluster numbers it describes.\<close>

definition bpb_sectors :: "fat16_bpb \<Rightarrow> u32" where
  "bpb_sectors b = (if total_sectors_small b \<noteq> 0 then ucast (total_sectors_small b) else total_sectors_large b)"

definition bpb_data_start :: "fat16_bpb \<Rightarrow> nat" where
  "bpb_data_start b = unat (reserved_sectors b) + 2 * unat (sectors_per_fat b) + unat (root_dir_entries b) * 32 div 512"

definition bpb_clusters :: "fat16_bpb \<Rightarrow> nat" where
  "bpb_clusters b = (unat (bpb_sectors b) - bpb_data_start b) div unat (sectors_per_clustor b) + 2"

definition bpb_fits :: "fat16_bpb \<Rightarrow> bool" where
  "bpb_fits b \<longleftrightarrow> bytes_per_sector b = 512 \<and> 0 < sectors_per_clustor b \<and> fat_count b = 2 \<and>
     bpb_data_start b \<le> unat (bpb_sectors b) \<and> unat (bpb_sectors b) < 268435456 \<and>
     bpb_clusters b \<le> 256 * unat (sectors_per_fat b) \<and> bpb_clusters b \<le> 0xFFF8"

lemma fat16_init_vol:
  assumes disk: "disk_ok (disk (vol s))" "b = bpb_of (sec (vol s) 0)" and fits: "bpb_fits b"
  shows "\<exists>s'. fat16_init s = Inr s' \<and> vol_ok (vol s') \<and> nclusters (vol s') = bpb_clusters b \<and> sec (vol s') = sec (vol s)"
proof -
  note b = fits[unfolded bpb_fits_def bpb_data_start_def]
  let ?rds = "ucast (reserved_sectors b) + ucast (fat_count b) * ucast (sectors_per_fat b) :: u32"
  let ?rdn = "(ucast (root_dir_entries b) * 32) div ucast (bytes_per_sector b) :: u32"
  let ?v1 = "(vol s)\<lparr>disk := ata_select 0 (disk (vol s)), g_bpb := b, fat_start_sector := ucast (reserved_sectors b),
      root_dir_start := ?rds, root_dir_sectors := ?rdn, data_start_sector := ?rds + ?rdn\<rparr>"
  have rd: "rd_sector 0 (vol s) = (sec (vol s) 0, (vol s)\<lparr>disk := ata_select 0 (disk (vol s))\<rparr>)"
    using rd_sector_eq[OF disk(1), of 0] by (simp add: valid_lba_def)
  obtain s9 where s9: "fat16_init s = Inr (fat16_ls s9)" "vol s9 = ?v1"
    using rd disk(2) b by (simp add: fat16_init_def Let_def kprint_def kprint_int_def)
  have sv: "same_vol ?v1 (vol (fat16_ls s9))" using fat16_ls_vol[of s9] s9(2) disk(1) by simp
  have rds: "unat ?rds = unat (reserved_sectors b) + 2 * unat (sectors_per_fat b)"
    using u16_bound[of "reserved_sectors b"] u16_bound[of "sectors_per_fat b"] b by (simp add: unat_word_ariths)
  have rdn: "unat ?rdn = unat (root_dir_entries b) * 32 div 512"
    using u16_bound[of "root_dir_entries b"] b by (simp add: unat_div unat_word_ariths)
  have ds: "unat (?rds + ?rdn) = bpb_data_start b"
    using rds rdn b by (subst unat_add_small) (simp_all add: bpb_data_start_def)
  have nc: "nclusters ?v1 = bpb_clusters b" "spc ?v1 = unat (sectors_per_clustor b)" "total_sectors ?v1 = bpb_sectors b"
    using ds by (simp_all add: nclusters_def total_sectors_def spc_def bpb_clusters_def bpb_sectors_def)
  have "vol_ok ?v1"
    unfolding vol_ok_def nc using disk(1) b rds rdn ds fits by (simp add: word_le_nat_alt word_less_nat_alt bpb_fits_def bpb_data_start_def)
  moreover have "sec ?v1 = sec (vol s)" by (simp add: sec_def)
  ultimately show ?thesis
    using s9(1) sv same_vol_ok[OF sv] geom_eqD(7)[of "vol (fat16_ls s9)" ?v1] nc(1) by (auto simp: same_vol_def)
qed


definition boot_sector :: "u8 list" where
  "boot_sector = (replicate 512 0)[12 := 2, 13 := 1, 14 := 1, 16 := 2, 17 := 16, 19 := 14, 22 := 1]"

lemma boot_sector_fields:
  "bytes_per_sector (bpb_of boot_sector) = 512" "sectors_per_clustor (bpb_of boot_sector) = 1"
  "reserved_sectors (bpb_of boot_sector) = 1" "fat_count (bpb_of boot_sector) = 2"
  "root_dir_entries (bpb_of boot_sector) = 16" "total_sectors_small (bpb_of boot_sector) = 14"
  "sectors_per_fat (bpb_of boot_sector) = 1" "length boot_sector = 512"
  by (simp_all add: boot_sector_def bpb_of_def get16_def le16_def)

definition formatted_disk :: ata_dev where
  "formatted_disk = sample_disk\<lparr>sectors := (\<lambda>_. replicate 512 0)(0 := boot_sector)\<rparr>"


end
