(* ===== verification/Initrd.thy ===== *)
theory Initrd
  imports Fat16_Files
begin

text \<open>
  The initial ramdisk of src/src/fs.c: a tar archive in memory, read through the kernel's
  pointers. The loops over the archive follow size fields found in memory and take fuel; a
  string that is printed from memory is read up to its NUL.
\<close>

section \<open>State and operations\<close>

record fssys = fatsys +
  initrd_address :: u32

definition init_fs :: "u32 \<Rightarrow> 'a fssys_scheme \<Rightarrow> 'a fssys_scheme" where
  "init_fs tar_address s =
     (let s1 = s\<lparr>initrd_address := tar_address\<rparr>;
          s2 = kprint s1 (bytes ''File system loaded at: '');
          s3 = kprint_hex s2 (initrd_address s2)
      in kprint s3 (bytes ''\<newline>''))"

fun octal_step :: "u8 \<Rightarrow> u32 \<Rightarrow> u32" where
  "octal_step c sz = (if c \<ge> 48 \<and> c \<le> 55 then sz * 8 + (ucast c - 48) else sz)"

definition parse_octal :: "u8 list \<Rightarrow> u32" where
  "parse_octal str = fold octal_step str 0"

text \<open>Reading \<open>n\<close> bytes, and a C string, from memory.\<close>

fun load_bytes :: "nat \<Rightarrow> machine \<Rightarrow> u32 \<Rightarrow> u8 list res" where
  "load_bytes 0 m a = Inr []"
| "load_bytes (Suc n) m a = bindE (ld8 m a) (\<lambda>b. bindE (load_bytes n m (a + 1)) (\<lambda>bs. Inr (b # bs)))"

fun load_string :: "nat \<Rightarrow> machine \<Rightarrow> u32 \<Rightarrow> u8 list res" where
  "load_string 0 m a = Inl StillRunning"
| "load_string (Suc n) m a =
     bindE (ld8 m a) (\<lambda>b. if b = 0 then Inr [] else bindE (load_string n m (a + 1)) (\<lambda>bs. Inr (b # bs)))"

text \<open>strcmp of a string in memory with a given one.\<close>

function strcmp_mem :: "machine \<Rightarrow> u32 \<Rightarrow> u8 list \<Rightarrow> int res" where
  "strcmp_mem m a s2 =
     bindE (ld8 m a) (\<lambda>b.
       if b \<noteq> 0 \<and> b = cur s2 then strcmp_mem m (a + 1) (tl s2) else Inr (uint b - uint (cur s2)))"
  by pat_completeness auto
termination
proof (relation "measure (\<lambda>(m, a, s2). length s2)")
  fix m a s2 x
  assume "(x :: u8) \<noteq> 0 \<and> x = cur s2"
  then show "((m, a + 1, tl s2), m, a, s2) \<in> measure (\<lambda>(m, a, s2). length s2)" by (cases s2) auto
qed simp

declare strcmp_mem.simps [simp del]

definition padded :: "u32 \<Rightarrow> u32" where
  "padded fsize = (if fsize mod 512 \<noteq> 0 then fsize + (512 - fsize mod 512) else fsize)"

fun tar_ls_loop :: "nat \<Rightarrow> u32 \<Rightarrow> 'a fssys_scheme \<Rightarrow> ('a fssys_scheme) res" where
  "tar_ls_loop 0 current_addr s = Inl StillRunning"
| "tar_ls_loop (Suc fuel) current_addr s =
     bindE (ld8 (mc s) current_addr) (\<lambda>first.
       if first = 0 then Inr s
       else
         bindE (load_bytes 11 (mc s) (current_addr + 124)) (\<lambda>digits.
         bindE (load_string fuel (mc s) current_addr) (\<lambda>name.
           let fsize = parse_octal digits;
               s1 = kprint s name;
               s2 = kprint s1 (bytes '' ('');
               s3 = kprint_int s2 (sint fsize);
               s4 = kprint s3 (bytes '' bytes)  '')
           in tar_ls_loop fuel (current_addr + 512 + padded fsize) s4)))"

definition tar_ls :: "nat \<Rightarrow> 'a fssys_scheme \<Rightarrow> ('a fssys_scheme) res" where
  "tar_ls fuel s =
     (if initrd_address s = 0 then Inr s
      else bindE (tar_ls_loop fuel (initrd_address s) s) (\<lambda>s1. Inr (kprint s1 (bytes ''\<newline>''))))"

text \<open>Printing the contents one character at a time.\<close>

fun cat_bytes :: "nat \<Rightarrow> u32 \<Rightarrow> 'a fssys_scheme \<Rightarrow> ('a fssys_scheme) res" where
  "cat_bytes 0 a s = Inr s"
| "cat_bytes (Suc n) a s = bindE (ld8 (mc s) a) (\<lambda>b. cat_bytes n (a + 1) (kprint s [b, 0]))"

fun tar_cat_loop :: "nat \<Rightarrow> u8 list \<Rightarrow> u32 \<Rightarrow> 'a fssys_scheme \<Rightarrow> ('a fssys_scheme) res" where
  "tar_cat_loop 0 name current_addr s = Inl StillRunning"
| "tar_cat_loop (Suc fuel) name current_addr s =
     bindE (ld8 (mc s) current_addr) (\<lambda>first.
       if first = 0 then Inr (kprint s (bytes ''File not found.\<newline>''))
       else
         bindE (load_bytes 11 (mc s) (current_addr + 124)) (\<lambda>digits.
         bindE (strcmp_mem (mc s) current_addr name) (\<lambda>r.
           let fsize = parse_octal digits
           in if r = 0 then
                bindE (cat_bytes (unat fsize) (current_addr + 512) s) (\<lambda>s1. Inr (kprint s1 (bytes ''\<newline>'')))
              else tar_cat_loop fuel name (current_addr + 512 + padded fsize) s)))"

definition tar_cat :: "nat \<Rightarrow> u8 list \<Rightarrow> 'a fssys_scheme \<Rightarrow> ('a fssys_scheme) res" where
  "tar_cat fuel name s =
     (if initrd_address s = 0 then Inr s else tar_cat_loop fuel name (initrd_address s) s)"

section \<open>Octal numerals\<close>

fun octal_digits :: "nat \<Rightarrow> nat \<Rightarrow> u8 list" where
  "octal_digits 0 n = []"
| "octal_digits (Suc k) n = octal_digits k (n div 8) @ [48 + of_nat (n mod 8)]"

lemma octal_digit:
  assumes "d < 8"
  shows "octal_step (48 + of_nat d) sz = sz * 8 + of_nat d"
proof -
  have "d \<in> {0, 1, 2, 3, 4, 5, 6, 7}" using assms by auto
  then show ?thesis by auto
qed

lemma fold_octal: "fold octal_step (octal_digits k n) acc = acc * 8 ^ k + of_nat (n mod 8 ^ k)"
proof (induction k arbitrary: n)
  case (Suc k)
  have "n mod 8 ^ Suc k = 8 * (n div 8 mod 8 ^ k) + n mod 8"
    by (simp add: mod_mult2_eq)
  then show ?case
    using Suc octal_digit[of "n mod 8"] by (simp add: algebra_simps del: octal_step.simps)
qed simp

lemma parse_octal_digits: "n < 8 ^ k \<Longrightarrow> parse_octal (octal_digits k n) = of_nat n"
  by (simp add: parse_octal_def fold_octal)

section \<open>Archives in memory\<close>

definition mem_bytes :: "machine \<Rightarrow> u32 \<Rightarrow> u8 list \<Rightarrow> bool" where
  "mem_bytes m a bs \<longleftrightarrow> (\<forall>i < length bs. ld8 m (a + of_nat i) = Inr (bs ! i))"

lemma mem_bytes_Cons: "mem_bytes m a (b # bs) \<longleftrightarrow> ld8 m a = Inr b \<and> mem_bytes m (a + 1) bs"
  by (auto simp: mem_bytes_def All_less_Suc2 algebra_simps)

lemma mem_bytes_Nil [simp]: "mem_bytes m a []"
  by (simp add: mem_bytes_def)

lemma load_bytes_mem: "mem_bytes m a bs \<Longrightarrow> load_bytes (length bs) m a = Inr bs"
  by (induction bs arbitrary: a) (auto simp: mem_bytes_Cons)

lemma load_string_mem: "mem_bytes m a (n @ [0]) \<Longrightarrow> 0 \<notin> set n \<Longrightarrow> length n < fuel \<Longrightarrow> load_string fuel m a = Inr n"
proof (induction n arbitrary: a fuel)
  case Nil
  then show ?case by (cases fuel) (auto simp: mem_bytes_Cons)
next
  case (Cons c n)
  then show ?case by (cases fuel) (auto simp: mem_bytes_Cons)
qed

lemma strcmp_mem_mem: "mem_bytes m a (n @ [0]) \<Longrightarrow> 0 \<notin> set n \<Longrightarrow> strcmp_mem m a s2 = Inr (strcmp n s2)"
proof (induction n arbitrary: a s2)
  case Nil
  then show ?case by (simp add: strcmp_mem.simps[of m a] strcmp.simps[of "[]"] mem_bytes_Cons)
next
  case (Cons c n)
  then show ?case by (simp add: strcmp_mem.simps[of m a] strcmp.simps[of "c # n"] mem_bytes_Cons)
qed

definition show_bytes :: "u8 list \<Rightarrow> 'a platform_scheme \<Rightarrow> 'a platform_scheme" where
  "show_bytes d s = fold (\<lambda>b s. kprint s [b, 0]) d s"

lemma mc_kprint [simp]: "mc (kprint s x) = mc s" "mc (kprint_int s i) = mc s" "mc (kprint_hex s w) = mc s"
  by (simp_all add: kprint_def kprint_int_def kprint_hex_def)

lemma cat_bytes_mem: "mem_bytes (mc s) a d \<Longrightarrow> cat_bytes (length d) a s = Inr (show_bytes d s)"
  by (induction d arbitrary: a s) (auto simp: mem_bytes_Cons show_bytes_def)

text \<open>
  \<open>tar_at m a files\<close>: memory holds a tar archive at \<open>a\<close> with the given names and contents:
  512-byte headers with the name at offset 0 and the size as eleven octal digits at offset
  124, each followed by the contents, padded to a multiple of 512, and a NUL at the end.
\<close>

fun tar_at :: "machine \<Rightarrow> u32 \<Rightarrow> (u8 list \<times> u8 list) list \<Rightarrow> bool" where
  "tar_at m a [] \<longleftrightarrow> ld8 m a = Inr 0"
| "tar_at m a ((n, d) # files) \<longleftrightarrow>
     n \<noteq> [] \<and> 0 \<notin> set n \<and> length n < 100 \<and> length d < 2 ^ 32 \<and>
     mem_bytes m a (n @ [0]) \<and> mem_bytes m (a + 124) (octal_digits 11 (length d)) \<and> mem_bytes m (a + 512) d \<and>
     tar_at m (a + 512 + padded (of_nat (length d))) files"

lemma octal_length [simp]: "length (octal_digits k n) = k"
  by (induction k arbitrary: n) auto

lemma tar_header:
  assumes "tar_at m a ((n, d) # files)"
  shows "\<exists>c. ld8 m a = Inr c \<and> c \<noteq> 0"
    "\<exists>ds. load_bytes 11 m (a + 124) = Inr ds \<and> parse_octal ds = of_nat (length d)" "unat (of_nat (length d) :: u32) = length d"
proof -
  obtain c n' where n: "n = c # n'" using assms by (cases n) auto
  show "\<exists>c. ld8 m a = Inr c \<and> c \<noteq> 0" using assms n by (auto simp: mem_bytes_Cons)
  have "length d < 8 ^ 11" using assms by simp
  then show "\<exists>ds. load_bytes 11 m (a + 124) = Inr ds \<and> parse_octal ds = of_nat (length d)"
    using load_bytes_mem[of m "a + 124" "octal_digits 11 (length d)"] parse_octal_digits assms by auto
  show "unat (of_nat (length d) :: u32) = length d" using assms by (simp add: unat_of_nat)
qed

definition file_named :: "u8 list \<Rightarrow> (u8 list \<times> u8 list) list \<Rightarrow> u8 list option" where
  "file_named name files = map_of files (cstr name)"

lemma tar_cat_loop_eq:
  "tar_at (mc s) a files \<Longrightarrow> length files < fuel \<Longrightarrow> tar_cat_loop fuel name a s =
     Inr (case file_named name files of
            Some d \<Rightarrow> kprint (show_bytes d s) (bytes ''\<newline>'')
          | None \<Rightarrow> kprint s (bytes ''File not found.\<newline>''))"
proof (induction files arbitrary: a fuel)
  case Nil
  then show ?case by (cases fuel) (auto simp: file_named_def)
next
  case (Cons f files)
  obtain n d where f: "f = (n, d)" by (cases f)
  then obtain k where fuel: "fuel = Suc k" "length files < k" using Cons.prems by (cases fuel) auto
  have tar: "tar_at (mc s) a ((n, d) # files)" using Cons.prems f by simp
  obtain c ds where h: "ld8 (mc s) a = Inr c" "c \<noteq> 0" "load_bytes 11 (mc s) (a + 124) = Inr ds"
    "parse_octal ds = of_nat (length d)"
    using tar_header[OF tar] by blast
  note sz = tar_header(3)[OF tar]
  have cmp: "strcmp_mem (mc s) a name = Inr (strcmp n name)" using tar by (intro strcmp_mem_mem) auto
  have eq: "strcmp n name = 0 \<longleftrightarrow> n = cstr name" using tar strcmp_zero_cstr[of n name] cstr_id[of n] by auto
  show ?case
  proof (cases "n = cstr name")
    case True
    then have "cat_bytes (length d) (a + 512) s = Inr (show_bytes d s)" using tar by (intro cat_bytes_mem) auto
    then show ?thesis using True h cmp eq sz unfolding fuel f by (simp add: file_named_def Let_def)
  next
    case False
    then show ?thesis
      using Cons.IH[of "a + 512 + padded (of_nat (length d))" k] fuel(2) tar h cmp eq
      unfolding fuel f by (simp add: file_named_def Let_def)
  qed
qed

definition list_line :: "u8 list \<times> u8 list \<Rightarrow> 'a platform_scheme \<Rightarrow> 'a platform_scheme" where
  "list_line f s = kprint (kprint_int (kprint (kprint s (fst f)) (bytes '' (''))
     (sint (of_nat (length (snd f)) :: u32))) (bytes '' bytes)  '')"

lemma mc_list_line [simp]: "mc (list_line f s) = mc s"
  by (simp add: list_line_def)

lemma tar_ls_loop_eq:
  "tar_at (mc s) a files \<Longrightarrow> length files + 100 < fuel \<Longrightarrow> tar_ls_loop fuel a s = Inr (fold list_line files s)"
proof (induction files arbitrary: a fuel s)
  case Nil
  then show ?case by (cases fuel) auto
next
  case (Cons f files)
  obtain n d where f: "f = (n, d)" by (cases f)
  then obtain k where fuel: "fuel = Suc k" "length files + 100 < k" using Cons.prems by (cases fuel) auto
  have tar: "tar_at (mc s) a ((n, d) # files)" using Cons.prems f by simp
  obtain c ds where h: "ld8 (mc s) a = Inr c" "c \<noteq> 0" "load_bytes 11 (mc s) (a + 124) = Inr ds"
    "parse_octal ds = of_nat (length d)"
    using tar_header[OF tar] by blast
  have "load_string k (mc s) a = Inr n" using tar fuel(2) by (intro load_string_mem) auto
  then show ?case
    using Cons.IH[of "list_line f s" "a + 512 + padded (of_nat (length d))" k] fuel(2) tar h
    unfolding fuel f by (simp add: Let_def list_line_def)
qed

section \<open>A small archive\<close>

definition tar_image :: "u8 list" where
  "tar_image = bytes ''a.txt'' @ replicate 119 0 @ octal_digits 11 3 @ replicate 377 0 @ bytes ''abc'' @ replicate 509 0"

definition sample_fssys :: fssys where
  "sample_fssys = fatsys.extend ((sample_fatsys sample_vol)\<lparr>mc :=
       \<lparr>phys = (\<lambda>a. if unat a < length tar_image + 0x1000 then tar_image ! (unat a - 0x1000) else 0), cr0 = 0, cr3 = 0\<rparr>\<rparr>)
     \<lparr>initrd_address = 0x1000\<rparr>"

lemma sample_fssys_mc: "ld8 (mc sample_fssys) a = Inr (if unat a < length tar_image + 0x1000 then tar_image ! (unat a - 0x1000) else 0)"
  by (simp add: sample_fssys_def fatsys.defs ld8_def translate_def paging_on_def)

lemma image_bytes:
  assumes "k + length bs \<le> length tar_image" "take (length bs) (drop k tar_image) = bs"
  shows "mem_bytes (mc sample_fssys) (0x1000 + of_nat k) bs"
proof -
  have len: "length tar_image = 1024" by (simp add: tar_image_def bytes_def)
  have "unat (0x1000 + of_nat k + of_nat i :: u32) = 0x1000 + (k + i)" if "i < length bs" for i
  proof -
    have "0x1000 + of_nat k + of_nat i = (of_nat (0x1000 + (k + i)) :: u32)" by simp
    then show ?thesis using that assms(1) len by (simp only: unat_of_nat) simp
  qed
  moreover have "bs ! i = tar_image ! (k + i)" if "i < length bs" for i
    using assms that by (metis add_leD1 nth_drop nth_take)
  ultimately show ?thesis
    using assms(1) by (simp add: mem_bytes_def sample_fssys_mc)
qed

lemma sample_tar: "tar_at (mc sample_fssys) 0x1000 [(bytes ''a.txt'', bytes ''abc'')]"
proof -
  have len: "length tar_image = 1024" by (simp add: tar_image_def bytes_def)
  have "mem_bytes (mc sample_fssys) (0x1000 + of_nat 0) (bytes ''a.txt'' @ [0])"
    by (rule image_bytes) (simp_all add: len, simp_all add: tar_image_def bytes_def)
  moreover have "mem_bytes (mc sample_fssys) (0x1000 + of_nat 124) (octal_digits 11 3)"
    by (rule image_bytes) (simp add: len, simp add: tar_image_def bytes_def del: octal_digits.simps)
  moreover have "mem_bytes (mc sample_fssys) (0x1000 + of_nat 512) (bytes ''abc'')"
    by (rule image_bytes) (simp_all add: len, simp_all add: tar_image_def bytes_def)
  moreover have "ld8 (mc sample_fssys) 0x1400 = Inr 0" by (simp add: sample_fssys_mc len)
  ultimately show ?thesis by (simp add: bytes_def padded_def numeral_3_eq_3)
qed

section \<open>Properties\<close>

text \<open>
  C35: tar_cat prints the file. When the ramdisk holds an archive, it prints the contents of the
  first file with the given name, one character at a time, and a newline, and a message when
  there is none; one step more than the archive has files is enough fuel.
\<close>

theorem tar_cat_prints:
  assumes "initrd_address s \<noteq> 0" "tar_at (mc s) (initrd_address s) files" "length files < fuel"
  shows "tar_cat fuel name s = Inr (case file_named name files of
            Some d \<Rightarrow> kprint (show_bytes d s) (bytes ''\<newline>'')
          | None \<Rightarrow> kprint s (bytes ''File not found.\<newline>''))"
  using assms tar_cat_loop_eq[OF assms(2,3)] by (simp add: tar_cat_def)

theorem tar_cat_prints_witness:
  "tar_cat 2 (bytes ''a.txt'') sample_fssys = Inr (case file_named (bytes ''a.txt'') [(bytes ''a.txt'', bytes ''abc'')] of
            Some d \<Rightarrow> kprint (show_bytes d sample_fssys) (bytes ''\<newline>'')
          | None \<Rightarrow> kprint sample_fssys (bytes ''File not found.\<newline>''))"
proof (rule tar_cat_prints)
  have "initrd_address sample_fssys = 0x1000" by (simp add: sample_fssys_def fatsys.defs)
  then show "initrd_address sample_fssys \<noteq> 0" "tar_at (mc sample_fssys) (initrd_address sample_fssys) [(bytes ''a.txt'', bytes ''abc'')]"
    using sample_tar by simp_all
qed simp

text \<open>
  Tar_ls lists the archive: one entry with the name and the size of each file, in the
  order of the archive. Sizes are read from octal numerals.
\<close>

theorem tar_ls_lists:
  assumes "initrd_address s \<noteq> 0" "tar_at (mc s) (initrd_address s) files" "length files + 100 < fuel"
  shows "tar_ls fuel s = Inr (kprint (fold list_line files s) (bytes ''\<newline>''))"
  using assms tar_ls_loop_eq[OF assms(2,3)] by (simp add: tar_ls_def)

theorem tar_ls_lists_witness:
  "tar_ls 102 sample_fssys = Inr (kprint (fold list_line [(bytes ''a.txt'', bytes ''abc'')] sample_fssys) (bytes ''\<newline>''))"
proof (rule tar_ls_lists)
  have "initrd_address sample_fssys = 0x1000" by (simp add: sample_fssys_def fatsys.defs)
  then show "initrd_address sample_fssys \<noteq> 0" "tar_at (mc sample_fssys) (initrd_address sample_fssys) [(bytes ''a.txt'', bytes ''abc'')]"
    using sample_tar by simp_all
qed simp

end
