(* ===== verification/Process.thy ===== *)
theory Process
  imports Prelude
begin

text \<open>
  Processes and the ready queue of src/src/process.c and src/include/process.h. The queue is
  the linked list of the source: process structures in a typed heap, a head and a tail pointer
  and a next field, with 0 for NULL. Its abstraction is the list of addresses from the head;
  queue_push and queue_pop are shown to be a first-in first-out queue on it, and the
  scheduling operations are described in terms of it. Loads and stores through a NULL pointer
  do not occur: the code checks every pointer first, except the tail, which the invariant
  shows to be non-NULL.
\<close>

section \<open>Data\<close>

record regs =
  edi :: u32
  esi :: u32
  ebp :: u32
  esp_r :: u32
  ebx :: u32
  edx :: u32
  ecx :: u32
  eax :: u32

definition zero_regs :: regs where
  "zero_regs = \<lparr>edi = 0, esi = 0, ebp = 0, esp_r = 0, ebx = 0, edx = 0, ecx = 0, eax = 0\<rparr>"

datatype fd_type_t = FD_TYPE_NONE | FD_TYPE_STUDIO | FD_TYPE_FAT16

record fd_entry =
  fd_type :: fd_type_t
  fd_name8 :: "u8 list"
  fd_ext3 :: "u8 list"
  fd_offset :: u32

datatype proc_state = PROC_NEW | PROC_READY | PROC_RUNNING | PROC_BLOCKED | PROC_EXITED

definition PROC_MAX_FDS :: nat where "PROC_MAX_FDS = 8"

record process =
  pid :: u32
  pstate :: proc_state
  entry :: u32
  esp :: u32
  user_stack_top :: u32
  pregs :: regs
  saved_eip :: u32
  kernel_stack :: u32
  page_dir :: u32
  next_p :: u32
  fds :: "fd_entry list"

text \<open>A process structure after the byte loop that clears it.\<close>

definition zero_process :: process where
  "zero_process = \<lparr>pid = 0, pstate = PROC_NEW, entry = 0, esp = 0, user_stack_top = 0, pregs = zero_regs,
     saved_eip = 0, kernel_stack = 0, page_dir = 0, next_p = 0,
     fds = replicate PROC_MAX_FDS \<lparr>fd_type = FD_TYPE_NONE, fd_name8 = replicate 9 0, fd_ext3 = replicate 4 0, fd_offset = 0\<rparr>\<rparr>"

record procs =
  heap :: "u32 \<Rightarrow> process"
  curr_proc :: u32
  ready_head :: u32
  ready_tail :: u32
  next_pid :: u32

definition upd_proc :: "u32 \<Rightarrow> (process \<Rightarrow> process) \<Rightarrow> procs \<Rightarrow> procs" where
  "upd_proc p f s = s\<lparr>heap := (heap s)(p := f (heap s p))\<rparr>"

section \<open>Operations\<close>

definition queue_push :: "u32 \<Rightarrow> procs \<Rightarrow> procs" where
  "queue_push p s =
     (if p = 0 then s
      else
        (let s1 = upd_proc p (next_p_update (\<lambda>_. 0)) s
         in if ready_head s1 = 0 then s1\<lparr>ready_head := p, ready_tail := p\<rparr>
            else (upd_proc (ready_tail s1) (next_p_update (\<lambda>_. p)) s1)\<lparr>ready_tail := p\<rparr>))"

definition queue_pop :: "procs \<Rightarrow> u32 \<times> procs" where
  "queue_pop s =
     (let p = ready_head s
      in if p = 0 then (0, s)
         else
           (let s1 = s\<lparr>ready_head := next_p (heap s p)\<rparr>;
                s2 = (if ready_head s1 = 0 then s1\<lparr>ready_tail := 0\<rparr> else s1)
            in (p, upd_proc p (next_p_update (\<lambda>_. 0)) s2)))"

definition process_init :: "procs \<Rightarrow> procs" where
  "process_init s = s\<lparr>curr_proc := 0, ready_head := 0, ready_tail := 0, next_pid := 1\<rparr>"

definition get_curr_proc :: "procs \<Rightarrow> u32" where
  "get_curr_proc s = curr_proc s"

definition proc_next_ready :: "procs \<Rightarrow> u32" where
  "proc_next_ready s = ready_head s"

text \<open>The walk of get_proc_by_pid over the queue; fuel, since a cyclic list would never end it.\<close>

fun find_pid :: "nat \<Rightarrow> u32 \<Rightarrow> u32 \<Rightarrow> procs \<Rightarrow> u32 option res" where
  "find_pid 0 q p s = Inl StillRunning"
| "find_pid (Suc fuel) q p s =
     (if p = 0 then Inr None
      else if pid (heap s p) = q then Inr (Some p)
      else find_pid fuel q (next_p (heap s p)) s)"

definition get_proc_by_pid :: "nat \<Rightarrow> u32 \<Rightarrow> procs \<Rightarrow> u32 res" where
  "get_proc_by_pid fuel q s =
     bindE (find_pid fuel q (ready_head s) s) (\<lambda>r.
       case r of
         Some p \<Rightarrow> Inr p
       | None \<Rightarrow> Inr (if curr_proc s \<noteq> 0 \<and> pid (heap s (curr_proc s)) = q then curr_proc s else 0))"

definition proc_enqueue :: "u32 \<Rightarrow> procs \<Rightarrow> procs" where
  "proc_enqueue p s =
     (if p = 0 then s else queue_push p (upd_proc p (pstate_update (\<lambda>_. PROC_READY)) s))"

definition proc_dequeue :: "procs \<Rightarrow> u32 \<times> procs" where
  "proc_dequeue s =
     (let (nxt, s1) = queue_pop s
      in if nxt = 0 then (0, s1)
         else (nxt, (upd_proc nxt (pstate_update (\<lambda>_. PROC_RUNNING)) s1)\<lparr>curr_proc := nxt\<rparr>))"

definition proc_yield :: "procs \<Rightarrow> procs" where
  "proc_yield s =
     (if curr_proc s = 0 then s
      else
        (let s1 = upd_proc (curr_proc s) (pstate_update (\<lambda>_. PROC_READY)) s;
             s2 = queue_push (curr_proc s1) s1;
             (nxt, s3) = queue_pop s2
         in if nxt = 0 then s3\<lparr>curr_proc := 0\<rparr>
            else (upd_proc nxt (pstate_update (\<lambda>_. PROC_RUNNING)) s3)\<lparr>curr_proc := nxt\<rparr>))"

section \<open>The queue as a list\<close>

text \<open>\<open>linked h p q\<close>: following the next fields from \<open>p\<close> visits exactly the addresses of \<open>q\<close>.\<close>

fun linked :: "(u32 \<Rightarrow> process) \<Rightarrow> u32 \<Rightarrow> u32 list \<Rightarrow> bool" where
  "linked h p [] \<longleftrightarrow> p = 0"
| "linked h p (a # as) \<longleftrightarrow> p = a \<and> a \<noteq> 0 \<and> linked h (next_p (h a)) as"

definition queue_is :: "procs \<Rightarrow> u32 list \<Rightarrow> bool" where
  "queue_is s q \<longleftrightarrow> linked (heap s) (ready_head s) q \<and> distinct q \<and> (if q = [] then True else ready_tail s = last q)"

lemma linked_fun: "linked h p q \<Longrightarrow> linked h p q' \<Longrightarrow> q = q'"
proof (induction q arbitrary: p q')
  case Nil
  then show ?case by (cases q') auto
next
  case (Cons a q)
  then show ?case by (cases q') auto
qed

lemma linked_cong: "(\<And>a. a \<in> set q \<Longrightarrow> next_p (h' a) = next_p (h a)) \<Longrightarrow> linked h' p q = linked h p q"
  by (induction q arbitrary: p) auto

lemma linked_snoc:
  "linked h p (q @ [a]) \<Longrightarrow> distinct (q @ [a]) \<Longrightarrow> b \<notin> set (q @ [a]) \<Longrightarrow> b \<noteq> 0 \<Longrightarrow> next_p (h' b) = 0 \<Longrightarrow>
   next_p (h' a) = b \<Longrightarrow> (\<And>c. c \<in> set q \<Longrightarrow> next_p (h' c) = next_p (h c)) \<Longrightarrow> linked h' p (q @ [a, b])"
  by (induction q arbitrary: p) auto

lemma queue_is_fun: "queue_is s q \<Longrightarrow> queue_is s q' \<Longrightarrow> q = q'"
  unfolding queue_is_def using linked_fun by blast

lemma linked_no_null: "linked h p q \<Longrightarrow> 0 \<notin> set q"
  by (induction q arbitrary: p) auto

lemma queue_head: "queue_is s q \<Longrightarrow> ready_head s = 0 \<longleftrightarrow> q = []"
  by (cases q) (auto simp: queue_is_def)

lemma upd_proc_simps [simp]:
  "curr_proc (upd_proc p f s) = curr_proc s" "ready_head (upd_proc p f s) = ready_head s"
  "ready_tail (upd_proc p f s) = ready_tail s" "next_pid (upd_proc p f s) = next_pid s"
  "heap (upd_proc p f s) = (heap s)(p := f (heap s p))"
  by (simp_all add: upd_proc_def)

lemma queue_is_upd: "(\<And>r. next_p (f r) = next_p r) \<Longrightarrow> queue_is (upd_proc p f s) q = queue_is s q"
  unfolding queue_is_def using linked_cong[of q "heap (upd_proc p f s)" "heap s"] by simp

lemma queue_is_curr [simp]: "queue_is (s\<lparr>curr_proc := c\<rparr>) q = queue_is s q" "queue_is (s\<lparr>next_pid := n\<rparr>) q = queue_is s q"
  by (simp_all add: queue_is_def)

lemma queue_push_is:
  assumes "queue_is s q" "p \<noteq> 0" "p \<notin> set q"
  shows "queue_is (queue_push p s) (q @ [p])"
proof (cases q rule: rev_cases)
  case Nil
  then show ?thesis using assms by (auto simp: queue_push_def queue_is_def Let_def)
next
  case (snoc r a)
  let ?h = "heap s"
  let ?h' = "(?h(p := (?h p)\<lparr>next_p := 0\<rparr>))(a := (?h a)\<lparr>next_p := p\<rparr>)"
  have l: "linked ?h (ready_head s) (r @ [a])" "distinct (r @ [a])" "ready_tail s = a" "a \<noteq> p"
    using assms snoc by (auto simp: queue_is_def)
  have "ready_head s \<noteq> 0" using queue_head[OF assms(1)] snoc by simp
  then have "heap (queue_push p s) = ?h'" "ready_head (queue_push p s) = ready_head s" "ready_tail (queue_push p s) = p"
    using assms(2) l(3,4) by (simp_all add: queue_push_def Let_def)
  moreover have "linked ?h' (ready_head s) (r @ [a, p])"
    by (rule linked_snoc[OF l(1,2)]) (use assms(2,3) snoc l in auto)
  ultimately show ?thesis
    using l assms(3) snoc by (simp add: queue_is_def)
qed

lemma queue_pop_empty: "queue_is s [] \<Longrightarrow> queue_pop s = (0, s)"
  by (simp add: queue_pop_def queue_is_def)

lemma queue_pop_is:
  assumes "queue_is s (p # q)"
  shows "\<exists>s'. queue_pop s = (p, s') \<and> queue_is s' q \<and> p \<noteq> 0 \<and> p \<notin> set q"
proof -
  let ?s1 = "s\<lparr>ready_head := next_p (heap s p)\<rparr>"
  let ?s2 = "if next_p (heap s p) = 0 then ?s1\<lparr>ready_tail := 0\<rparr> else ?s1"
  have h: "ready_head s = p" "p \<noteq> 0" "linked (heap s) (next_p (heap s p)) q" "distinct q" "p \<notin> set q"
    using assms by (auto simp: queue_is_def)
  have e: "next_p (heap s p) = 0 \<longleftrightarrow> q = []" using h(3) by (cases q) auto
  have "queue_pop s = (p, upd_proc p (next_p_update (\<lambda>_. 0)) ?s2)"
    using h(1,2) by (simp add: queue_pop_def Let_def)
  moreover have "linked ((heap s)(p := (heap s p)\<lparr>next_p := 0\<rparr>)) x q = linked (heap s) x q" for x
    by (rule linked_cong) (use h(5) in auto)
  ultimately show ?thesis
    using assms h e by (auto simp: queue_is_def)
qed

section \<open>The queue's contract and round robin\<close>

text \<open>
  A first-in first-out queue of addresses: what the scheduler relies on. \<open>contents s q\<close> says
  that state \<open>s\<close> holds the addresses \<open>q\<close>, oldest first.
\<close>

locale fifo_queue =
  fixes push :: "'e \<Rightarrow> 's \<Rightarrow> 's"
    and pop :: "'s \<Rightarrow> 'e \<times> 's"
    and none :: 'e
    and contents :: "'s \<Rightarrow> 'e list \<Rightarrow> bool"
  assumes push_contents: "contents s q \<Longrightarrow> x \<noteq> none \<Longrightarrow> x \<notin> set q \<Longrightarrow> contents (push x s) (q @ [x])"
    and pop_empty: "contents s [] \<Longrightarrow> pop s = (none, s)"
    and pop_contents: "contents s (x # q) \<Longrightarrow> \<exists>s'. pop s = (x, s') \<and> contents s' q \<and> x \<noteq> none \<and> x \<notin> set q"
begin

fun push_all :: "'e list \<Rightarrow> 's \<Rightarrow> 's" where
  "push_all [] s = s"
| "push_all (x # xs) s = push_all xs (push x s)"

fun pop_n :: "nat \<Rightarrow> 's \<Rightarrow> 'e list \<times> 's" where
  "pop_n 0 s = ([], s)"
| "pop_n (Suc n) s = (let (x, s1) = pop s; (xs, s2) = pop_n n s1 in (x # xs, s2))"

lemma push_all_contents:
  "contents s q \<Longrightarrow> none \<notin> set xs \<Longrightarrow> distinct xs \<Longrightarrow> set q \<inter> set xs = {} \<Longrightarrow> contents (push_all xs s) (q @ xs)"
proof (induction xs arbitrary: s q)
  case (Cons x xs)
  then have "contents (push x s) (q @ [x])" using push_contents[OF Cons.prems(1), of x] by auto
  from Cons.IH[OF this] Cons.prems show ?case by auto
qed simp

lemma pop_n_contents: "contents s (xs @ q) \<Longrightarrow> \<exists>s'. pop_n (length xs) s = (xs, s') \<and> contents s' q"
proof (induction xs arbitrary: s)
  case (Cons x xs)
  then obtain s1 where "pop s = (x, s1)" "contents s1 (xs @ q)"
    using pop_contents[of s x "xs @ q"] by auto
  then show ?case using Cons.IH[of s1] by auto
qed simp

text \<open>What goes in comes out, in order, after what was there before.\<close>

lemma fifo_order:
  assumes "contents s q" "none \<notin> set xs" "distinct xs" "set q \<inter> set xs = {}"
  shows "\<exists>s'. pop_n (length q + length xs) (push_all xs s) = (q @ xs, s') \<and> contents s' []"
  using pop_n_contents[of "push_all xs s" "q @ xs" "[]"] push_all_contents[OF assms] by simp

lemma push_pop_rotates:
  assumes "contents s q" "x \<noteq> none" "x \<notin> set q"
  shows "\<exists>s'. pop (push x s) = (hd (q @ [x]), s') \<and> contents s' (tl (q @ [x]))"
proof -
  have "contents (push x s) (hd (q @ [x]) # tl (q @ [x]))" using push_contents[OF assms] by (cases q) auto
  from pop_contents[OF this] show ?thesis by blast
qed

end

interpretation ready: fifo_queue queue_push queue_pop 0 queue_is
  by unfold_locales (auto simp: queue_push_is queue_pop_empty dest: queue_pop_is)

section \<open>Scheduling\<close>

text \<open>What queue operations leave alone: every field but the next pointers, head and tail.\<close>

lemma queue_push_keeps [simp]:
  "curr_proc (queue_push p s) = curr_proc s" "next_pid (queue_push p s) = next_pid s"
  "pstate (heap (queue_push p s) a) = pstate (heap s a)" "pid (heap (queue_push p s) a) = pid (heap s a)"
  by (auto simp: queue_push_def Let_def)

lemma queue_pop_keeps:
  "queue_pop s = (p, s') \<Longrightarrow> curr_proc s' = curr_proc s \<and> next_pid s' = next_pid s \<and>
     pstate (heap s' a) = pstate (heap s a) \<and> pid (heap s' a) = pid (heap s a)"
  by (auto simp: queue_pop_def Let_def split: if_splits)

text \<open>
  The abstract scheduler: a list with the running process first and the ready ones after it,
  in the order in which they will run.
\<close>

definition sched :: "procs \<Rightarrow> u32 list \<Rightarrow> bool" where
  "sched s xs \<longleftrightarrow> xs \<noteq> [] \<and> distinct xs \<and> hd xs \<noteq> 0 \<and> curr_proc s = hd xs \<and> queue_is s (tl xs) \<and>
     pstate (heap s (hd xs)) = PROC_RUNNING \<and> (\<forall>a \<in> set (tl xs). pstate (heap s a) = PROC_READY)"

lemma sched_dispatch:
  assumes "queue_is s (p # q)" "\<forall>a \<in> set (p # q). pstate (heap s a) = PROC_READY"
  shows "\<exists>s'. proc_dequeue s = (p, s') \<and> sched s' (p # q) \<and> next_pid s' = next_pid s"
proof -
  obtain s1 where s1: "queue_pop s = (p, s1)" "queue_is s1 q" "p \<noteq> 0" "p \<notin> set q"
    using queue_pop_is[OF assms(1)] by blast
  have "distinct q" using assms(1) by (simp add: queue_is_def)
  moreover have "pstate (heap s1 a) = pstate (heap s a)" "next_pid s1 = next_pid s" for a
    using queue_pop_keeps[OF s1(1)] by auto
  ultimately show ?thesis
    using s1 assms(2) by (auto simp: proc_dequeue_def sched_def queue_is_upd)
qed

lemma enqueue_is:
  assumes "queue_is s q" "p \<noteq> 0" "p \<notin> set q"
  shows "queue_is (proc_enqueue p s) (q @ [p])" "curr_proc (proc_enqueue p s) = curr_proc s"
    "pstate (heap (proc_enqueue p s) a) = (if a = p then PROC_READY else pstate (heap s a))"
    "next_pid (proc_enqueue p s) = next_pid s"
  using queue_push_is[of "upd_proc p (pstate_update (\<lambda>_. PROC_READY)) s" q p] assms
  by (simp_all add: proc_enqueue_def queue_is_upd)

text \<open>Giving up the processor by proc_yield is proc_enqueue followed by proc_dequeue.\<close>

lemma proc_yield_enqueue_dequeue:
  assumes "queue_is s q" "curr_proc s \<noteq> 0" "curr_proc s \<notin> set q"
  shows "proc_yield s = snd (proc_dequeue (proc_enqueue (curr_proc s) s))"
proof -
  have "queue_is (proc_enqueue (curr_proc s) s) (q @ [curr_proc s])" using enqueue_is(1)[OF assms] .
  then obtain p r where "queue_is (proc_enqueue (curr_proc s) s) (p # r)" by (cases q) auto
  then obtain s' where "queue_pop (proc_enqueue (curr_proc s) s) = (p, s')" "p \<noteq> 0"
    using queue_pop_is by blast
  then show ?thesis
    using assms(2) by (simp add: proc_yield_def proc_dequeue_def proc_enqueue_def Let_def)
qed

lemma yield_rotates:
  assumes "sched s xs"
  shows "sched (proc_yield s) (rotate1 xs)"
proof -
  obtain c q where xs: "xs = c # q" using assms by (cases xs) (auto simp: sched_def)
  have q: "queue_is s q" "c \<noteq> 0" "c \<notin> set q" "curr_proc s = c" using assms xs by (auto simp: sched_def)
  note en = enqueue_is[OF q(1-3)]
  obtain p r where pr: "q @ [c] = p # r" by (cases q) auto
  have "\<forall>a \<in> set (p # r). pstate (heap (proc_enqueue c s) a) = PROC_READY"
    using assms xs unfolding pr[symmetric] by (auto simp: en(3) sched_def)
  from sched_dispatch[OF en(1)[unfolded pr] this]
  show ?thesis
    using proc_yield_enqueue_dequeue[OF q(1)] q xs pr by auto
qed

lemma yields_rotate: "sched s xs \<Longrightarrow> sched ((proc_yield ^^ k) s) (rotate k xs)"
  by (induction k) (auto intro: yield_rotates)

section \<open>Looking up a process\<close>

definition first_with_pid :: "u32 \<Rightarrow> u32 list \<Rightarrow> procs \<Rightarrow> u32" where
  "first_with_pid q as s = (case find (\<lambda>a. pid (heap s a) = q) as of Some a \<Rightarrow> a | None \<Rightarrow> 0)"

lemma find_pid_linked:
  "linked (heap s) p as \<Longrightarrow> length as < fuel \<Longrightarrow> find_pid fuel q p s = Inr (find (\<lambda>a. pid (heap s a) = q) as)"
proof (induction as arbitrary: p fuel)
  case Nil
  then show ?case by (cases fuel) auto
next
  case (Cons a as)
  then show ?case by (cases fuel) auto
qed

lemma find_append: "find P (xs @ ys) = (case find P xs of Some x \<Rightarrow> Some x | None \<Rightarrow> find P ys)"
  by (induction xs) auto

section \<open>Runs of the process table\<close>

text \<open>
  What the kernel does to the process table: start it, enter a new process structure (at an
  address no queued or running process has), dispatch the next process, and yield.
\<close>

inductive proc_step :: "procs \<Rightarrow> procs \<Rightarrow> bool" where
  create: "queue_is s q \<Longrightarrow> p \<noteq> 0 \<Longrightarrow> p \<notin> set q \<Longrightarrow> p \<noteq> curr_proc s \<Longrightarrow>
     proc_step s (proc_enqueue p (s\<lparr>heap := (heap s)(p := r), next_pid := next_pid s + 1\<rparr>))"
| dispatch: "proc_step s (snd (proc_dequeue s))"
| yielding: "proc_step s (proc_yield s)"

inductive_cases proc_stepE: "proc_step s s'"

definition proc_inv :: "procs \<Rightarrow> bool" where
  "proc_inv s \<longleftrightarrow> (\<exists>q. queue_is s q \<and> curr_proc s \<notin> set q \<and> (\<forall>a \<in> set q. pstate (heap s a) = PROC_READY) \<and>
     (curr_proc s \<noteq> 0 \<longrightarrow> pstate (heap s (curr_proc s)) = PROC_RUNNING))"

lemma sched_inv: "sched s xs \<Longrightarrow> proc_inv s"
  unfolding proc_inv_def sched_def by (cases xs) auto

lemma proc_inv_sched:
  assumes "proc_inv s" "curr_proc s \<noteq> 0"
  obtains xs where "sched s xs"
proof -
  obtain q where "queue_is s q" "curr_proc s \<notin> set q" "\<forall>a \<in> set q. pstate (heap s a) = PROC_READY"
      "pstate (heap s (curr_proc s)) = PROC_RUNNING"
    using assms by (auto simp: proc_inv_def)
  then have "sched s (curr_proc s # q)" using assms(2) by (auto simp: sched_def queue_is_def)
  then show ?thesis by (rule that)
qed

lemma proc_inv_init: "proc_inv (process_init s)"
  by (auto simp: proc_inv_def process_init_def queue_is_def intro: exI[of _ "[]"])

lemma proc_inv_create:
  assumes "proc_inv s" "queue_is s q" "p \<noteq> 0" "p \<notin> set q" "p \<noteq> curr_proc s"
  shows "proc_inv (proc_enqueue p (s\<lparr>heap := (heap s)(p := r), next_pid := n\<rparr>))"
proof -
  let ?s1 = "s\<lparr>heap := (heap s)(p := r), next_pid := n\<rparr>"
  have q: "curr_proc s \<notin> set q" "\<forall>a \<in> set q. pstate (heap s a) = PROC_READY"
    "curr_proc s \<noteq> 0 \<longrightarrow> pstate (heap s (curr_proc s)) = PROC_RUNNING"
    using assms(1) queue_is_fun[OF assms(2)] by (auto simp: proc_inv_def)
  have "linked ((heap s)(p := r)) x q = linked (heap s) x q" for x
    by (rule linked_cong) (use assms(4) in auto)
  then have "queue_is ?s1 q" using assms(2) by (simp add: queue_is_def)
  note en = enqueue_is[OF this assms(3,4)]
  show ?thesis
    unfolding proc_inv_def
    by (rule exI[of _ "q @ [p]"]) (use en q assms(3-5) in auto)
qed

lemma proc_inv_dequeue:
  assumes "proc_inv s"
  shows "proc_inv (snd (proc_dequeue s))"
proof -
  obtain q where q: "queue_is s q" "curr_proc s \<notin> set q" "\<forall>a \<in> set q. pstate (heap s a) = PROC_READY"
    using assms by (auto simp: proc_inv_def)
  show ?thesis
  proof (cases q)
    case Nil
    then have "proc_dequeue s = (0, s)" using q(1) queue_pop_empty by (simp add: proc_dequeue_def)
    then show ?thesis using assms by simp
  next
    case (Cons p r)
    then show ?thesis using sched_dispatch[of s p r] q sched_inv by auto
  qed
qed

lemma proc_inv_yield: "proc_inv s \<Longrightarrow> proc_inv (proc_yield s)"
proof (cases "curr_proc s = 0")
  case True
  then show "proc_inv s \<Longrightarrow> proc_inv (proc_yield s)" by (simp add: proc_yield_def)
next
  case False
  then show "proc_inv s \<Longrightarrow> proc_inv (proc_yield s)"
    using yield_rotates sched_inv by (metis proc_inv_sched)
qed

lemma proc_step_inv: "proc_step s s' \<Longrightarrow> proc_inv s \<Longrightarrow> proc_inv s'"
  by (erule proc_stepE) (auto intro: proc_inv_create proc_inv_dequeue proc_inv_yield)

section \<open>Properties\<close>

text \<open>
  C8: round robin. From a state with a running process and a ready queue, the process that
  runs after \<open>k\<close> calls of proc_yield is the one at position \<open>k\<close>, modulo the number of
  processes, of the list of the running process and the ready ones; the queue stays well
  formed, the running process is in state RUNNING and all others READY.
\<close>

theorem round_robin:
  assumes "sched s xs"
  shows "curr_proc ((proc_yield ^^ k) s) = xs ! (k mod length xs) \<and>
    queue_is ((proc_yield ^^ k) s) (tl (rotate k xs)) \<and>
    pstate (heap ((proc_yield ^^ k) s) (xs ! (k mod length xs))) = PROC_RUNNING"
proof -
  have "sched ((proc_yield ^^ k) s) (rotate k xs)" using yields_rotate[OF assms] .
  moreover have "hd (rotate k xs) = xs ! (k mod length xs)"
    using assms by (auto simp: sched_def hd_rotate_conv_nth)
  ultimately show ?thesis by (simp add: sched_def)
qed

definition sample_ready :: procs where
  "sample_ready = proc_enqueue 0x3000 (proc_enqueue 0x2000 (proc_enqueue 0x1000 (process_init
     \<lparr>heap = (\<lambda>a. zero_process\<lparr>pid := a div 0x1000\<rparr>), curr_proc = 0, ready_head = 0, ready_tail = 0, next_pid = 4\<rparr>)))"

definition sample_procs :: procs where
  "sample_procs = snd (proc_dequeue sample_ready)"

lemma sample_sched: "sched sample_procs [0x1000, 0x2000, 0x3000]"
proof -
  let ?i = "process_init \<lparr>heap = (\<lambda>a. zero_process\<lparr>pid := a div 0x1000\<rparr>), curr_proc = 0, ready_head = 0, ready_tail = 0, next_pid = 4\<rparr>"
  have q0: "queue_is ?i []" by (simp add: queue_is_def process_init_def)
  have q1: "queue_is (proc_enqueue 0x1000 ?i) [0x1000]" using enqueue_is(1)[OF q0, of "0x1000"] by simp
  have q2: "queue_is (proc_enqueue 0x2000 (proc_enqueue 0x1000 ?i)) [0x1000, 0x2000]"
    using enqueue_is(1)[OF q1, of "0x2000"] by simp
  have q3: "queue_is sample_ready [0x1000, 0x2000, 0x3000]"
    using enqueue_is(1)[OF q2, of "0x3000"] by (simp add: sample_ready_def)
  have "pstate (heap sample_ready a) = PROC_READY" if "a \<in> set [0x1000, 0x2000, 0x3000]" for a
    using that enqueue_is(3)[OF q0, of "0x1000" a] enqueue_is(3)[OF q1, of "0x2000" a] enqueue_is(3)[OF q2, of "0x3000" a]
    by (auto simp: sample_ready_def)
  then show ?thesis using sched_dispatch[OF q3] by (auto simp: sample_procs_def)
qed

theorem round_robin_witness:
  "sched sample_procs [0x1000, 0x2000, 0x3000] \<and> curr_proc ((proc_yield ^^ 5) sample_procs) = 0x3000"
proof -
  have "[0x1000, 0x2000, 0x3000] ! (5 mod length [0x1000, 0x2000, 0x3000 :: u32]) = (0x3000 :: u32)" by simp
  then show ?thesis using round_robin[OF sample_sched, of 5] sample_sched by metis
qed



text \<open>
  The ready queue is first in, first out. Processes pushed onto a well-formed queue are
  popped in the order in which they were pushed, after those that were queued before, and the
  queue is then empty.
\<close>

theorem ready_queue_fifo:
  assumes "queue_is s q" "0 \<notin> set xs" "distinct xs" "set q \<inter> set xs = {}"
  shows "\<exists>s'. ready.pop_n (length q + length xs) (ready.push_all xs s) = (q @ xs, s') \<and> queue_is s' []"
  using assms by (rule ready.fifo_order)

theorem ready_queue_fifo_witness:
  "\<exists>s'. ready.pop_n (length [0x2000, 0x3000 :: u32] + length [0x5000, 0x4000 :: u32]) (ready.push_all [0x5000, 0x4000] sample_procs)
     = ([0x2000, 0x3000] @ [0x5000, 0x4000], s') \<and> queue_is s' []"
  by (rule ready_queue_fifo) (use sample_sched in \<open>simp_all add: sched_def\<close>)

text \<open>
  Get_proc_by_pid searches the ready queue in order, then the running process, and
  answers 0 when neither has the pid; one step more than the queue is long is enough fuel.
\<close>

theorem get_proc_by_pid_finds:
  assumes "queue_is s q" "length q < fuel"
  shows "get_proc_by_pid fuel n s = Inr (first_with_pid n (q @ (if curr_proc s = 0 then [] else [curr_proc s])) s)"
  using assms find_pid_linked[of s "ready_head s" q fuel n]
  by (auto simp: get_proc_by_pid_def queue_is_def first_with_pid_def find_append split: option.splits)

theorem get_proc_by_pid_finds_witness:
  "get_proc_by_pid 3 1 sample_procs = Inr (first_with_pid 1 ([0x2000, 0x3000] @
     (if curr_proc sample_procs = 0 then [] else [curr_proc sample_procs])) sample_procs)"
  by (rule get_proc_by_pid_finds) (use sample_sched in \<open>simp_all add: sched_def\<close>)



end
