(* ===== verification/Devices.thy ===== *)
theory Devices
  imports Memory
begin

text \<open>
  The processor tables and the port-mapped devices: descriptor and task state segment of
  src/src/gdt.c, interrupt gates and exception handler of src/src/idt.c, interrupt controller,
  interval timer and serial port (src/src/pic.c, src/src/timer.c, init_serial of
  src/src/screen.c). What the code sends to a port is a log of writes; the documented reaction
  of the interrupt controller and of the timer to such a log is \<open>pic_write\<close> and \<open>pit_write\<close>.
\<close>

section \<open>Data\<close>

record tss_entry =
  prev_tss :: u32
  tss_esp0 :: u32
  tss_ss0 :: u32
  tss_esp1 :: u32
  tss_ss1 :: u32
  tss_esp2 :: u32
  tss_ss2 :: u32
  tss_cr3 :: u32
  tss_eip :: u32
  tss_eflags :: u32
  tss_gprs :: "u32 list"
  tss_es :: u32
  tss_cs :: u32
  tss_ss :: u32
  tss_ds :: u32
  tss_fs :: u32
  tss_gs :: u32
  tss_ldt :: u32
  tss_trap :: u16
  tss_iomap_base :: u16

record idt_entry =
  base_low :: u16
  selector :: u16
  always_zero :: u8
  gate_flags :: u8
  base_high :: u16

record devices =
  io :: "(u16 \<times> u8) list"
  tss :: tss_entry
  gdt_tss :: "u8 list"
  task_register :: u16
  idt :: "idt_entry list"
  idtr :: "u16 \<times> u32"
  timer_ticks :: u32
  yield_flag :: u32
  interrupts_on :: bool

definition outb :: "u16 \<Rightarrow> u8 \<Rightarrow> devices \<Rightarrow> devices" where
  "outb port data d = d\<lparr>io := io d @ [(port, data)]\<rparr>"

section \<open>Task state segment\<close>

definition KERNEL_CODE_SEG :: u32 where "KERNEL_CODE_SEG = 0x08"
definition KERNEL_DATA_SEG :: u32 where "KERNEL_DATA_SEG = 0x10"
definition TSS_SEG :: u16 where "TSS_SEG = 0x28"

text \<open>Twenty-five 32-bit and two 16-bit fields, packed.\<close>

definition sizeof_tss :: u32 where "sizeof_tss = 104"

definition memset_tss :: "devices \<Rightarrow> devices" where
  "memset_tss d = d\<lparr>tss := \<lparr>prev_tss = 0, tss_esp0 = 0, tss_ss0 = 0, tss_esp1 = 0, tss_ss1 = 0, tss_esp2 = 0,
     tss_ss2 = 0, tss_cr3 = 0, tss_eip = 0, tss_eflags = 0, tss_gprs = replicate 8 0, tss_es = 0, tss_cs = 0,
     tss_ss = 0, tss_ds = 0, tss_fs = 0, tss_gs = 0, tss_ldt = 0, tss_trap = 0, tss_iomap_base = 0\<rparr>\<rparr>"

definition write_tss_descriptor :: "u32 \<Rightarrow> u32 \<Rightarrow> devices \<Rightarrow> devices" where
  "write_tss_descriptor base limit d =
     (let e0 = replicate 16 0;
          e1 = e0[0 := ucast (limit AND 0xFF)];
          e2 = e1[1 := ucast (drop_bit 8 limit AND 0xFF)];
          e3 = e2[2 := ucast (base AND 0xFF)];
          e4 = e3[3 := ucast (drop_bit 8 base AND 0xFF)];
          e5 = e4[4 := ucast (drop_bit 16 base AND 0xFF)];
          e6 = e5[5 := 0x89];
          e7 = e6[6 := ucast ((drop_bit 16 limit AND 0x0F) OR 0x40)];
          e8 = e7[7 := ucast (drop_bit 24 base AND 0xFF)]
      in d\<lparr>gdt_tss := e8\<rparr>)"

text \<open>\<open>tss_addr\<close> is the address of the C object; tss_flush loads the task register.\<close>

definition gdt_init_tss :: "u32 \<Rightarrow> u32 \<Rightarrow> devices \<Rightarrow> devices" where
  "gdt_init_tss tss_addr kernel_stack_top d =
     (let d1 = memset_tss d;
          d2 = d1\<lparr>tss := (tss d1)\<lparr>tss_ss0 := KERNEL_DATA_SEG, tss_esp0 := kernel_stack_top, tss_cs := KERNEL_CODE_SEG,
                 tss_ds := KERNEL_DATA_SEG, tss_es := KERNEL_DATA_SEG, tss_fs := KERNEL_DATA_SEG,
                 tss_gs := KERNEL_DATA_SEG, tss_ss := KERNEL_DATA_SEG, tss_iomap_base := ucast sizeof_tss\<rparr>\<rparr>;
          d3 = write_tss_descriptor tss_addr (sizeof_tss - 1) d2
      in d3\<lparr>task_register := TSS_SEG\<rparr>)"

definition tss_set_kernel_stack :: "u32 \<Rightarrow> devices \<Rightarrow> devices" where
  "tss_set_kernel_stack kernel_stack_top d = d\<lparr>tss := (tss d)\<lparr>tss_esp0 := kernel_stack_top\<rparr>\<rparr>"

section \<open>Interrupt gates\<close>

definition idt_init :: "u32 \<Rightarrow> devices \<Rightarrow> devices" where
  "idt_init idt_addr d = d\<lparr>idtr := (8 * 256 - 1, idt_addr)\<rparr>"

definition idt_set_gate :: "u8 \<Rightarrow> u32 \<Rightarrow> u16 \<Rightarrow> u8 \<Rightarrow> devices \<Rightarrow> devices res" where
  "idt_set_gate num base sel fl d =
     (if unat num < length (idt d)
      then Inr (d\<lparr>idt := (idt d)[unat num := (idt d ! unat num)\<lparr>base_low := ucast (base AND 0xFFFF),
             base_high := ucast (drop_bit 16 base AND 0xFFFF), selector := sel, always_zero := 0, gate_flags := fl\<rparr>]\<rparr>)
      else Inl (OutOfArray (unat num)))"

section \<open>Interrupt controller, timer, serial port\<close>

definition pic_remap :: "devices \<Rightarrow> devices" where
  "pic_remap d =
     outb 0xA1 0xFF (outb 0x21 0xFC (outb 0xA1 0x01 (outb 0x21 0x01 (outb 0xA1 0x02 (outb 0x21 0x04
       (outb 0xA1 0x28 (outb 0x21 0x20 (outb 0xA0 0x11 (outb 0x20 0x11 d)))))))))"

definition init_timer :: "u32 \<Rightarrow> devices \<Rightarrow> devices res" where
  "init_timer freq d =
     (if freq = 0 then Inl DivideError
      else
        (let divisor = 1193180 div freq;
             low = ucast (divisor AND 0xFF);
             high = ucast (drop_bit 8 divisor AND 0xFF)
         in Inr (outb 0x40 high (outb 0x40 low (outb 0x43 0x36 d)))))"

definition timer_handler :: "devices \<Rightarrow> devices" where
  "timer_handler d =
     (let d1 = d\<lparr>timer_ticks := timer_ticks d + 1\<rparr>;
          d2 = outb 0x20 0x20 d1
      in if yield_flag d2 \<noteq> 0 then d2\<lparr>yield_flag := 0\<rparr> else d2)"

definition init_serial :: "devices \<Rightarrow> devices" where
  "init_serial d =
     outb 0x3FC 0x0B (outb 0x3FA 0xC7 (outb 0x3FB 0x03 (outb 0x3F9 0x00 (outb 0x3F8 0x01
       (outb 0x3FB 0x80 (outb 0x3F9 0x00 d))))))"

section \<open>Exceptions\<close>

text \<open>The frame that the exception stubs build.\<close>

record registers =
  int_no :: u32
  err_code :: u32
  r_eip :: u32
  r_cs :: u32

definition exception_messages :: "u8 list list" where
  "exception_messages = map bytes
     [''Division By Zero'', ''Debug'', ''Non Maskable Interrupt'', ''Breakpoint'',
      ''Into Detected Overflow'', ''Out of Bounds'', ''Invalid Opcode'', ''No Coprocessor'',
      ''Double Fault'', ''Coprocessor Segment Overrun'', ''Bad TSS'', ''Segment Not Present'',
      ''Stack Fault'', ''General Protection Fault'', ''Page Fault'', ''Unknown Interrupt'',
      ''Coprocessor Fault'', ''Alignment Check'', ''Machine Check'', ''Reserved'',
      ''Reserved'', ''Reserved'', ''Reserved'', ''Reserved'', ''Reserved'', ''Reserved'',
      ''Reserved'', ''Reserved'', ''Reserved'', ''Reserved'', ''Reserved'', ''Reserved'']"

text \<open>
  The handler prints and halts: \<open>Inl\<close> is the state in which the processor stays halted,
  \<open>Inr\<close> a return from the handler. \<open>cr2\<close> is the faulting address the processor reports.
\<close>

definition page_fault_report :: "registers \<Rightarrow> u32 \<Rightarrow> 'a platform_scheme \<Rightarrow> 'a platform_scheme" where
  "page_fault_report r cr2 s =
     (let s1 = kprint (kprint_hex (kprint s (bytes ''  CR2 (fault addr): '')) cr2) (bytes ''\<newline>'');
          s2 = kprint s1 (bytes ''  Cause: '');
          s3 = kprint s2 (if err_code r AND 1 \<noteq> 0 then bytes ''protection violation'' else bytes ''not present'');
          s4 = kprint s3 (if err_code r AND 2 \<noteq> 0 then bytes '', write'' else bytes '', read'');
          s5 = kprint s4 (if err_code r AND 4 \<noteq> 0 then bytes '', user mode'' else bytes '', kernel mode'')
      in kprint s5 (bytes ''\<newline>''))"

definition fault_handler :: "registers \<Rightarrow> u32 \<Rightarrow> 'a platform_scheme \<Rightarrow> 'a platform_scheme + 'a platform_scheme" where
  "fault_handler r cr2 s =
     (if int_no r < 32 then
        (let s1 = kprint (kprint (kprint s (bytes ''EXCEPTION: '')) (exception_messages ! unat (int_no r))) (bytes ''\<newline>'');
             s2 = kprint_hex (kprint s1 (bytes ''  EIP: '')) (r_eip r);
             s3 = kprint (kprint_hex (kprint s2 (bytes ''  CS:  '')) (r_cs r)) (bytes ''\<newline>'');
             s4 = kprint (kprint_hex (kprint s3 (bytes ''  ERR: '')) (err_code r)) (bytes ''\<newline>'');
             s5 = (if int_no r = 14 then page_fault_report r cr2 s4 else s4)
         in Inl (kprint s5 (bytes ''System Halted!\<newline>'')))
      else Inr s)"

section \<open>What the processor reads in the tables\<close>

text \<open>The handler address of a gate, and the base and limit of a segment descriptor.\<close>

definition gate_target :: "idt_entry \<Rightarrow> u32" where
  "gate_target g = push_bit 16 (ucast (base_high g)) OR ucast (base_low g)"

definition desc_base :: "u8 list \<Rightarrow> u32" where
  "desc_base e = push_bit 24 (ucast (e ! 7)) OR push_bit 16 (ucast (e ! 4)) OR push_bit 8 (ucast (e ! 3)) OR ucast (e ! 2)"

definition desc_limit :: "u8 list \<Rightarrow> u32" where
  "desc_limit e = push_bit 16 (ucast (e ! 6) AND 0x0F) OR push_bit 8 (ucast (e ! 1)) OR ucast (e ! 0)"

lemma word_masks: "(0xFF :: u32) = mask 8" "(0xFFFF :: u32) = mask 16" "(0x0F :: u32) = mask 4"
  by (simp_all add: mask_eq_exp_minus_1)

lemma split_halves:
  "push_bit 16 (ucast (ucast (drop_bit 16 a AND 0xFFFF) :: u16)) OR ucast (ucast (a AND 0xFFFF) :: u16) = (a :: u32)"
  unfolding word_masks by (rule bit_word_eqI) (auto simp: bit_simps)

lemma low_byte: "ucast (a AND 0xFF :: u32) = (ucast a :: u8)"
  unfolding word_masks by (rule bit_word_eqI) (auto simp: bit_simps)

lemma split_bytes:
  "push_bit 24 (ucast (ucast (drop_bit 24 a AND 0xFF) :: u8)) OR push_bit 16 (ucast (ucast (drop_bit 16 a AND 0xFF) :: u8)) OR
   push_bit 8 (ucast (ucast (drop_bit 8 a AND 0xFF) :: u8)) OR ucast (ucast (a AND 0xFF) :: u8) = (a :: u32)"
  using le32_of_bytes[of a] unfolding low_byte le32_def by (simp only: ac_simps)

lemma split_limit:
  assumes "l < 0x100000"
  shows "push_bit 16 (ucast (ucast ((drop_bit 16 l AND 0x0F) OR 0x40) :: u8) AND 0x0F) OR
   push_bit 8 (ucast (ucast (drop_bit 8 l AND 0xFF) :: u8)) OR ucast (ucast (l AND 0xFF) :: u8) = (l :: u32)"
proof (rule bit_word_eqI)
  fix n :: nat
  assume n: "n < LENGTH(32)"
  have "unat (take_bit 20 l) = unat l" using assms by (simp add: unsigned_take_bit_eq take_bit_eq_mod word_less_nat_alt unat_mod)
  then have "take_bit 20 l = l" by (simp add: word_unat_eq_iff)
  then have hi: "bit l n \<Longrightarrow> n < 20" by (metis bit_take_bit_iff)
  have "\<not> bit (64 :: u32) k" if "k < 4" for k
    using that by (auto simp: less_Suc_eq numeral_eq_Suc)
  note hi = hi this
  consider "n < 8" | "8 \<le> n" "n < 16" | "16 \<le> n" "n < 20" | "20 \<le> n" by linarith
  then show "bit (push_bit 16 (ucast (ucast ((drop_bit 16 l AND 0x0F) OR 0x40) :: u8) AND 0x0F) OR
   push_bit 8 (ucast (ucast (drop_bit 8 l AND 0xFF) :: u8)) OR ucast (ucast (l AND 0xFF) :: u8) :: u32) n = bit l n"
    unfolding word_masks using n hi by cases (auto simp: bit_simps)
qed

lemma gate_set:
  assumes "length (idt d) = 256"
  shows "\<exists>d'. idt_set_gate num base sel fl d = Inr d' \<and> d' = d\<lparr>idt := idt d'\<rparr> \<and> length (idt d') = 256 \<and>
    gate_target (idt d' ! unat num) = base \<and> selector (idt d' ! unat num) = sel \<and> gate_flags (idt d' ! unat num) = fl \<and>
    (\<forall>n < 256. n \<noteq> unat num \<longrightarrow> idt d' ! n = idt d ! n)"
proof -
  have "unat num < length (idt d)" using assms u8_bound[of num] by simp
  then show ?thesis by (auto simp: idt_set_gate_def gate_target_def split_halves assms)
qed

section \<open>The controller and the timer\<close>

text \<open>
  One 8259A controller: initialisation word 1 (bit 4 set) on the command port starts the
  sequence in which the next three data bytes are the vector offset, the cascade wiring and the
  mode; afterwards a data byte is the interrupt mask.
\<close>

record pic =
  pic_step :: nat
  pic_offset :: u8
  pic_cascade :: u8
  pic_mode :: u8
  pic_mask :: u8

definition pic_write :: "bool \<Rightarrow> u8 \<Rightarrow> pic \<Rightarrow> pic" where
  "pic_write command v c =
     (if command then (if v AND 0x10 \<noteq> 0 then c\<lparr>pic_step := 1, pic_mask := 0\<rparr> else c)
      else if pic_step c = 1 then c\<lparr>pic_step := 2, pic_offset := v\<rparr>
      else if pic_step c = 2 then c\<lparr>pic_step := 3, pic_cascade := v\<rparr>
      else if pic_step c = 3 then c\<lparr>pic_step := 0, pic_mode := v\<rparr>
      else c\<lparr>pic_mask := v\<rparr>)"

definition pic_at :: "u16 \<Rightarrow> u16 \<times> u8 \<Rightarrow> pic \<Rightarrow> pic" where
  "pic_at port w c = (if fst w = port then pic_write True (snd w) c else if fst w = port + 1 then pic_write False (snd w) c else c)"

definition master :: "(u16 \<times> u8) list \<Rightarrow> pic \<Rightarrow> pic" where
  "master log c = fold (pic_at 0x20) log c"

definition slave :: "(u16 \<times> u8) list \<Rightarrow> pic \<Rightarrow> pic" where
  "slave log c = fold (pic_at 0xA0) log c"

text \<open>The vector of an interrupt line, and whether the line is let through.\<close>

definition irq_vector :: "pic \<Rightarrow> pic \<Rightarrow> nat \<Rightarrow> u8 option" where
  "irq_vector m s n =
     (if n < 8 then Some (pic_offset m + of_nat n) else if n < 16 then Some (pic_offset s + of_nat (n - 8)) else None)"

definition irq_enabled :: "pic \<Rightarrow> pic \<Rightarrow> nat \<Rightarrow> bool" where
  "irq_enabled m s n \<longleftrightarrow>
     (if n < 8 then \<not> bit (pic_mask m) n else n < 16 \<and> \<not> bit (pic_mask m) 2 \<and> \<not> bit (pic_mask s) (n - 8))"

definition m0 :: pic where
  "m0 = \<lparr>pic_step = 0, pic_offset = 0, pic_cascade = 0, pic_mode = 0, pic_mask = 0xFF\<rparr>"

text \<open>Channel 0 of the 8253 timer in mode 3: control word 0x36, then low and high byte.\<close>

record pit =
  pit_step :: nat
  pit_reload :: u16

definition pit_write :: "u16 \<times> u8 \<Rightarrow> pit \<Rightarrow> pit" where
  "pit_write w c =
     (if w = (0x43, 0x36) then c\<lparr>pit_step := 1\<rparr>
      else if fst w = 0x40 \<and> pit_step c = 1 then c\<lparr>pit_step := 2, pit_reload := ucast (snd w)\<rparr>
      else if fst w = 0x40 \<and> pit_step c = 2 then c\<lparr>pit_step := 0, pit_reload := pit_reload c OR push_bit 8 (ucast (snd w))\<rparr>
      else c)"

lemma io_outb [simp]: "io (outb p v d) = io d @ [(p, v)]"
  by (simp add: outb_def)

lemma divisor_word: "(ucast (ucast (d AND 0xFF) :: u8) OR push_bit 8 (ucast (ucast (drop_bit 8 d AND 0xFF) :: u8)) :: u16) = ucast (d :: u32)"
  unfolding word_masks by (rule bit_word_eqI) (auto simp: bit_simps)

text \<open>Whatever was written before, pic_remap leaves the two controllers in these states.\<close>

definition master_ready :: pic where
  "master_ready = \<lparr>pic_step = 0, pic_offset = 32, pic_cascade = 4, pic_mode = 1, pic_mask = 0xFC\<rparr>"

definition slave_ready :: pic where
  "slave_ready = \<lparr>pic_step = 0, pic_offset = 40, pic_cascade = 2, pic_mode = 1, pic_mask = 0xFF\<rparr>"

lemma pic_remap_state: "master (io (pic_remap d)) m = master_ready" "slave (io (pic_remap d)) m = slave_ready"
  by (rule pic.equality; simp add: pic_remap_def pic_at_def pic_write_def master_def slave_def master_ready_def slave_ready_def)+

lemma pic_programmed:
  "irq_vector master_ready slave_ready n = (if n < 16 then Some (32 + of_nat n) else None) \<and>
   (irq_enabled master_ready slave_ready n \<longleftrightarrow> n = 0 \<or> n = 1)"
proof -
  have masks: "bit (0xFC :: u8) n \<longleftrightarrow> n \<notin> {0, 1}" if "n < 8" for n
    using that by (auto simp: less_Suc_eq numeral_eq_Suc)
  have ff: "bit (0xFF :: u8) n" if "n < 8" for n
    using that by (auto simp: less_Suc_eq numeral_eq_Suc)
  show ?thesis
    using masks[of n] ff[of "n - 8"] by (auto simp: irq_vector_def irq_enabled_def master_ready_def slave_ready_def)
qed

section \<open>Properties\<close>

definition sample_devices :: devices where
  "sample_devices = \<lparr>io = [], tss = \<lparr>prev_tss = 0, tss_esp0 = 0, tss_ss0 = 0, tss_esp1 = 0, tss_ss1 = 0, tss_esp2 = 0,
     tss_ss2 = 0, tss_cr3 = 0, tss_eip = 0, tss_eflags = 0, tss_gprs = [], tss_es = 0, tss_cs = 0,
     tss_ss = 0, tss_ds = 0, tss_fs = 0, tss_gs = 0, tss_ldt = 0, tss_trap = 0, tss_iomap_base = 0\<rparr>,
     gdt_tss = [], task_register = 0,
     idt = replicate 256 \<lparr>base_low = 0, selector = 0, always_zero = 0, gate_flags = 0, base_high = 0\<rparr>,
     idtr = (0, 0), timer_ticks = 0, yield_flag = 0, interrupts_on = False\<rparr>"

text \<open>
  A gate is found where it was put. idt_set_gate never leaves the table, the processor
  reads back the handler, selector and flags it was given, and no other gate changes.
\<close>

theorem idt_gate_roundtrip:
  assumes "length (idt d) = 256"
  shows "\<exists>d'. idt_set_gate num base sel fl d = Inr d' \<and> d' = d\<lparr>idt := idt d'\<rparr> \<and> length (idt d') = 256 \<and>
    gate_target (idt d' ! unat num) = base \<and> selector (idt d' ! unat num) = sel \<and> gate_flags (idt d' ! unat num) = fl \<and>
    (\<forall>n < 256. n \<noteq> unat num \<longrightarrow> idt d' ! n = idt d ! n)"
  using gate_set[OF assms] .

theorem idt_gate_roundtrip_witness:
  "\<exists>d'. idt_set_gate 0x80 0x101234 8 0xEE sample_devices = Inr d' \<and> gate_target (idt d' ! 128) = 0x101234"
  using idt_gate_roundtrip[of sample_devices "0x80" "0x101234" 8 "0xEE"] by (auto simp: sample_devices_def)

text \<open>
  C37: the descriptor of the task state segment describes it: the processor reads back the
  address and the limit that gdt_init_tss wrote, and the segment switches to the kernel stack.
\<close>

theorem gdt_init_tss_descriptor:
  "let d' = gdt_init_tss tss_addr stack d
   in desc_base (gdt_tss d') = tss_addr \<and> desc_limit (gdt_tss d') = 103 \<and> gdt_tss d' ! 5 = 0x89 \<and>
      tss_esp0 (tss d') = stack \<and> tss_ss0 (tss d') = KERNEL_DATA_SEG \<and>
      unat (tss_iomap_base (tss d')) > unat (desc_limit (gdt_tss d'))"
proof -
  have base: "desc_base (gdt_tss (write_tss_descriptor b l x)) = b" for b l x
    by (simp add: write_tss_descriptor_def desc_base_def Let_def split_bytes)
  have limit: "desc_limit (gdt_tss (write_tss_descriptor b l x)) = l" if "l < 0x100000" for b l x
    using split_limit[OF that] by (simp add: write_tss_descriptor_def desc_limit_def Let_def)
  have five: "gdt_tss (write_tss_descriptor b l x) ! 5 = 0x89" for b l x
    by (simp add: write_tss_descriptor_def Let_def)
  show ?thesis
    by (simp add: gdt_init_tss_def Let_def sizeof_tss_def base limit five)
      (simp add: write_tss_descriptor_def Let_def memset_tss_def)
qed

text \<open>
  Pic_remap makes the controllers deliver interrupt line \<open>n\<close> as vector 32 + \<open>n\<close>, and of
  the sixteen lines lets through exactly the timer (0) and the keyboard (1).
\<close>

theorem pic_remap_programs:
  "irq_vector (master (io (pic_remap d)) m) (slave (io (pic_remap d)) m') n = (if n < 16 then Some (32 + of_nat n) else None) \<and>
   (irq_enabled (master (io (pic_remap d)) m) (slave (io (pic_remap d)) m') n \<longleftrightarrow> n = 0 \<or> n = 1)"
  unfolding pic_remap_state by (rule pic_programmed)

text \<open>
  Init_timer programs the interval timer with the divisor of its clock for every
  frequency of 19 Hz and more; below, the divisor does not fit into the 16-bit counter.
\<close>

theorem init_timer_divisor:
  assumes "freq \<ge> 19" "io d = []"
  shows "\<exists>d'. init_timer freq d = Inr d' \<and> unat (pit_reload (fold pit_write (io d') c)) = 1193180 div unat freq"
proof -
  let ?div = "1193180 div freq"
  have f: "unat freq \<ge> 19" using assms(1) by (simp add: word_le_nat_alt)
  have n: "unat ?div = 1193180 div unat freq" by (simp add: unat_div)
  also have "\<dots> \<le> 1193180 div 19" using f by (intro div_le_mono2) auto
  finally have small: "unat ?div < 65536" by simp
  have "fold pit_write [(0x43, 0x36), (0x40, ucast (?div AND 0xFF)), (0x40, ucast (drop_bit 8 ?div AND 0xFF))] c
      = c\<lparr>pit_step := 0, pit_reload := ucast ?div\<rparr>"
    by (simp add: pit_write_def divisor_word)
  moreover have "unat (ucast ?div :: u16) = unat ?div"
    using small by (simp add: unsigned_ucast_eq take_bit_nat_eq_self_iff)
  moreover have "freq \<noteq> 0" using f by auto
  ultimately show ?thesis using n assms(2) by (simp add: init_timer_def Let_def)
qed

theorem init_timer_divisor_witness:
  "\<exists>d'. init_timer 100 sample_devices = Inr d' \<and> unat (pit_reload (fold pit_write (io d') \<lparr>pit_step = 0, pit_reload = 0\<rparr>)) = 11931"
  using init_timer_divisor[of 100 sample_devices "\<lparr>pit_step = 0, pit_reload = 0\<rparr>"] by (simp add: sample_devices_def)

end
