(* ===== verification/Syscall.thy ===== *)
theory Syscall
  imports Address_Space Initrd Process Devices
begin

text \<open>
  The system calls of src/src/syscall.c, entered by isr128 of src/src/isr.asm, and the way into
  and out of user mode (src/src/usermode.asm). The trap frame is what the processor and pusha
  leave on the kernel stack. A user program is a function from the frame and the memory it is
  resumed with to those with which it issues its next system call; it may change both at will.
\<close>

section \<open>State\<close>

record kernel = fssys +
  ps :: procs
  dev :: devices
  syscall_exit_requested :: u32
  last_exit_status :: u32
  syscall_kernel_fallback :: u32

record trap =
  t_regs :: regs
  t_eip :: u32
  t_cs :: u32
  t_eflags :: u32
  t_useresp :: u32
  t_ss :: u32

definition SYS_EXIT :: u32 where "SYS_EXIT = 0"
definition SYS_WRITE :: u32 where "SYS_WRITE = 1"
definition SYS_OPEN :: u32 where "SYS_OPEN = 2"
definition SYS_CLOSE :: u32 where "SYS_CLOSE = 3"
definition SYS_READ :: u32 where "SYS_READ = 4"
definition SYS_YIELD :: u32 where "SYS_YIELD = 5"

definition FD_STDIN :: u32 where "FD_STDIN = 0"
definition FD_STDOUT :: u32 where "FD_STDOUT = 1"
definition FD_STDERR :: u32 where "FD_STDERR = 2"

lemmas sys_numbers = SYS_EXIT_def SYS_WRITE_def SYS_OPEN_def SYS_CLOSE_def SYS_READ_def SYS_YIELD_def
lemmas fd_numbers = FD_STDIN_def FD_STDOUT_def FD_STDERR_def

section \<open>User memory\<close>

definition validate_user_ptr :: "u32 \<Rightarrow> u32 \<Rightarrow> 'a kernel_scheme \<Rightarrow> int res" where
  "validate_user_ptr ptr len s =
     (if ptr = 0 then Inr 0
      else if syscall_kernel_fallback s \<noteq> 0 then Inr 1
      else validate_user_region ptr len s)"

text \<open>Kernel buffers are C arrays, \<open>None\<close> a NULL pointer; a byte loop into one starts at index \<open>i\<close>.\<close>

fun copy_in :: "nat \<Rightarrow> nat \<Rightarrow> u8 list \<Rightarrow> u32 \<Rightarrow> machine \<Rightarrow> u8 list res" where
  "copy_in 0 i d src m = Inr d"
| "copy_in (Suc n) i d src m =
     bindE (ld8 m src) (\<lambda>b. if i < length d then copy_in n (Suc i) (d[i := b]) (src + 1) m else Inl (OutOfArray i))"

fun copy_out :: "nat \<Rightarrow> nat \<Rightarrow> u32 \<Rightarrow> u8 list \<Rightarrow> machine \<Rightarrow> machine res" where
  "copy_out 0 i dst src m = Inr m"
| "copy_out (Suc n) i dst src m =
     (if i < length src then bindE (st8 m dst (src ! i)) (\<lambda>m1. copy_out n (Suc i) (dst + 1) src m1) else Inl (OutOfArray i))"

definition copy_from_user :: "u8 list option \<Rightarrow> u32 \<Rightarrow> u32 \<Rightarrow> 'a kernel_scheme \<Rightarrow> (int \<times> u8 list option) res" where
  "copy_from_user dst user_src len s =
     (case dst of
        None \<Rightarrow> Inr (- 1, dst)
      | Some d \<Rightarrow>
          if user_src = 0 then Inr (- 1, dst)
          else bindE (validate_user_ptr user_src len s) (\<lambda>ok.
            if ok = 0 then Inr (- 1, dst)
            else bindE (copy_in (unat len) 0 d user_src (mc s)) (\<lambda>d1. Inr (0, Some d1))))"

definition copy_to_user :: "u32 \<Rightarrow> u8 list option \<Rightarrow> u32 \<Rightarrow> 'a kernel_scheme \<Rightarrow> (int \<times> 'a kernel_scheme) res" where
  "copy_to_user user_dst src len s =
     (case src of
        None \<Rightarrow> Inr (- 1, s)
      | Some d \<Rightarrow>
          if user_dst = 0 then Inr (- 1, s)
          else bindE (validate_user_ptr user_dst len s) (\<lambda>ok.
            if ok = 0 then Inr (- 1, s)
            else bindE (copy_out (unat len) 0 user_dst d (mc s)) (\<lambda>m. Inr (0, s\<lparr>mc := m\<rparr>))))"

section \<open>System calls\<close>

definition set_eax :: "u32 \<Rightarrow> trap \<Rightarrow> trap" where
  "set_eax v f = f\<lparr>t_regs := (t_regs f)\<lparr>eax := v\<rparr>\<rparr>"

definition sys_exit :: "trap \<Rightarrow> 'a kernel_scheme \<Rightarrow> trap \<times> 'a kernel_scheme" where
  "sys_exit f s = (set_eax 0 f, s\<lparr>last_exit_status := ebx (t_regs f), syscall_exit_requested := 1\<rparr>)"

text \<open>
  The loop of SYS_WRITE. \<open>tmp\<close> is the buffer of 1025 bytes; \<open>km\<close> is kernel_mode_call. The answer
  is the number of bytes written when the loop ends or a chunk is refused.
\<close>

function write_loop :: "bool \<Rightarrow> u32 \<Rightarrow> u32 \<Rightarrow> u32 \<Rightarrow> u32 \<Rightarrow> u8 list \<Rightarrow> 'a kernel_scheme \<Rightarrow> (u32 \<times> 'a kernel_scheme) res" where
  "write_loop km user_buf len offset written tmp s =
     (if offset < len then
        (let chunk = (if len - offset > 1024 then 1024 else len - offset)
         in bindE
              (if km then bindE (copy_in (unat chunk) 0 tmp (user_buf + offset) (mc s)) (\<lambda>t. Inr (Some t))
               else bindE (copy_from_user (Some tmp) (user_buf + offset) chunk s) (\<lambda>(r, t). Inr (if r < 0 then None else t)))
              (\<lambda>r. case r of
                 None \<Rightarrow> Inr (written, s)
               | Some t \<Rightarrow>
                   if unat chunk < length t
                   then write_loop km user_buf len (offset + chunk) (written + chunk) (t[unat chunk := 0]) (kprint s (t[unat chunk := 0]))
                   else Inl (OutOfArray (unat chunk))))
      else Inr (written, s))"
  by pat_completeness auto

lemma write_progress:
  fixes offset len :: u32
  assumes "offset < len" "chunk = (if len - offset > 1024 then 1024 else len - offset)"
  shows "unat (offset + chunk) = unat offset + unat chunk" "0 < unat chunk" "unat chunk \<le> 1024" "unat chunk \<le> unat len - unat offset"
proof -
  have d: "unat (len - offset) = unat len - unat offset" using assms(1) by (simp add: unat_sub less_imp_le)
  have lt: "unat offset < unat len" using assms(1) by (simp add: word_less_nat_alt)
  show t: "0 < unat chunk" "unat chunk \<le> 1024" "unat chunk \<le> unat len - unat offset"
    using assms(2) d lt by (auto simp: word_less_nat_alt split: if_splits)
  show "unat (offset + chunk) = unat offset + unat chunk"
    using t lt u32_bound[of len] by (intro unat_add_small) linarith
qed

termination write_loop
proof (relation "measure (\<lambda>(km, user_buf, len, offset, rest). unat len - unat offset)")
  fix km user_buf and len offset written :: u32 and tmp and s :: "'a kernel_scheme" and chunk x x2
  assume "offset < len" "chunk = (if len - offset > 1024 then 1024 else len - offset)"
  from write_progress[OF this] \<open>offset < len\<close>
  show "((km, user_buf, len, offset + chunk, written + chunk, x2[unat chunk := 0], kprint s (x2[unat chunk := 0])),
      km, user_buf, len, offset, written, tmp, s) \<in> measure (\<lambda>(km, user_buf, len, offset, rest). unat len - unat offset)"
    by (auto simp: word_less_nat_alt)
qed simp

declare write_loop.simps [simp del]

definition sys_write :: "trap \<Rightarrow> 'a kernel_scheme \<Rightarrow> (trap \<times> 'a kernel_scheme) res" where
  "sys_write f s =
     (let fd = ebx (t_regs f); user_buf = ecx (t_regs f); len = edx (t_regs f)
      in if fd = FD_STDOUT \<or> fd = FD_STDERR then
           bindE (write_loop (syscall_kernel_fallback s \<noteq> 0) user_buf len 0 0 (replicate 1025 0) s) (\<lambda>(written, s1).
             Inr (set_eax written f, s1))
         else
           (let proc = get_curr_proc (ps s)
            in if proc \<noteq> 0 \<and> sint fd \<ge> 0 \<and> sint fd < int PROC_MAX_FDS then
                 (if fd_type (fds (heap (ps s) proc) ! unat fd) = FD_TYPE_FAT16 then Inr (set_eax (- 1) f, s)
                  else Inr (set_eax (- 1) f, s))
               else Inr (set_eax (- 1) f, s)))"

definition sys_read :: "trap \<Rightarrow> 'a kernel_scheme \<Rightarrow> trap \<times> 'a kernel_scheme" where
  "sys_read f s = (if ebx (t_regs f) = FD_STDIN then (set_eax 0 f, s) else (set_eax (- 1) f, s))"

definition sys_open :: "trap \<Rightarrow> 'a kernel_scheme \<Rightarrow> (trap \<times> 'a kernel_scheme) res" where
  "sys_open f s =
     (let path = ebx (t_regs f)
      in if path = 0 then Inr (set_eax (- 1) f, s)
         else bindE (if syscall_kernel_fallback s \<noteq> 0 then Inr 1 else validate_user_ptr path 1 s) (\<lambda>ok.
           if ok = 0 then Inr (set_eax (- 1) f, s)
           else bindE (ld8 (mc s) path) (\<lambda>c.
             if c = 47 \<or> c = 46 then Inr (set_eax FD_STDOUT f, s) else Inr (set_eax (- 1) f, s))))"

definition sys_close :: "trap \<Rightarrow> 'a kernel_scheme \<Rightarrow> trap \<times> 'a kernel_scheme" where
  "sys_close f s =
     (let fd = ebx (t_regs f)
      in if fd = FD_STDIN \<or> fd = FD_STDOUT \<or> fd = FD_STDERR then (set_eax 0 f, s) else (set_eax (- 1) f, s))"

text \<open>Saving the frame in the process that gives up the processor, and the frame of the next one.\<close>

definition save_frame :: "u32 \<Rightarrow> trap \<Rightarrow> procs \<Rightarrow> procs" where
  "save_frame prev f q =
     (if prev = 0 then q
      else proc_enqueue prev (upd_proc prev (\<lambda>p. p\<lparr>pregs := t_regs f, esp := esp_r (t_regs f), saved_eip := t_eip f\<rparr>) q))"

definition has_regs :: "regs \<Rightarrow> bool" where
  "has_regs r \<longleftrightarrow> edi r \<noteq> 0 \<or> eax r \<noteq> 0 \<or> ebx r \<noteq> 0 \<or> ecx r \<noteq> 0 \<or> edx r \<noteq> 0 \<or> ebp r \<noteq> 0 \<or> esi r \<noteq> 0"

definition next_regs :: "process \<Rightarrow> regs \<Rightarrow> regs" where
  "next_regs p r =
     (if has_regs (pregs p) then pregs p
      else zero_regs\<lparr>esp_r := (if esp p \<noteq> 0 then esp p else if user_stack_top p \<noteq> 0 then user_stack_top p else esp_r r)\<rparr>)"

definition sys_yield :: "trap \<Rightarrow> 'a kernel_scheme \<Rightarrow> trap \<times> 'a kernel_scheme" where
  "sys_yield f s =
     (let q1 = save_frame (get_curr_proc (ps s)) f (ps s);
          (nxt, q2) = proc_dequeue q1;
          s1 = s\<lparr>ps := q2\<rparr>
      in if nxt = 0 then (set_eax 0 f, s1)
         else
           (let p = heap q2 nxt;
                f1 = f\<lparr>t_regs := next_regs p (t_regs f), t_eip := (if saved_eip p \<noteq> 0 then saved_eip p else entry p)\<rparr>
            in (set_eax 0 f1, s1)))"

definition handle_syscall :: "trap \<Rightarrow> 'a kernel_scheme \<Rightarrow> (trap \<times> 'a kernel_scheme) res" where
  "handle_syscall f s =
     (let num = eax (t_regs f)
      in if num = SYS_EXIT then Inr (sys_exit f s)
         else if num = SYS_WRITE then sys_write f s
         else if num = SYS_READ then Inr (sys_read f s)
         else if num = SYS_OPEN then sys_open f s
         else if num = SYS_CLOSE then Inr (sys_close f s)
         else if num = SYS_YIELD then Inr (sys_yield f s)
         else Inr (set_eax (- 1) f, s))"

section \<open>User mode\<close>

type_synonym user = "trap \<Rightarrow> machine \<Rightarrow> (trap \<times> machine) res"

text \<open>isr128: \<open>None\<close> is the jump to kernel_return, otherwise the frame is resumed.\<close>

definition isr128 :: "trap \<Rightarrow> 'a kernel_scheme \<Rightarrow> (trap option \<times> 'a kernel_scheme) res" where
  "isr128 f s =
     bindE (handle_syscall f s) (\<lambda>(f1, s1).
       if syscall_exit_requested s1 \<noteq> 0 then Inr (None, s1\<lparr>syscall_exit_requested := 0\<rparr>) else Inr (Some f1, s1))"

fun run_user :: "nat \<Rightarrow> user \<Rightarrow> trap \<Rightarrow> 'a kernel_scheme \<Rightarrow> ('a kernel_scheme) res" where
  "run_user 0 U f s = Inl StillRunning"
| "run_user (Suc n) U f s =
     bindE (U f (mc s)) (\<lambda>(f1, m). bindE (isr128 f1 (s\<lparr>mc := m\<rparr>)) (\<lambda>(r, s1).
       case r of None \<Rightarrow> Inr s1 | Some f2 \<Rightarrow> run_user n U f2 s1))"

text \<open>The processor state in which the kernel calls jump_to_usermode.\<close>

record cpu =
  c_regs :: regs
  c_eflags :: u32
  c_esp :: u32

definition jump_to_usermode :: "nat \<Rightarrow> user \<Rightarrow> cpu \<Rightarrow> u32 \<Rightarrow> u32 \<Rightarrow> 'a kernel_scheme \<Rightarrow> ('a kernel_scheme) res" where
  "jump_to_usermode n U c user_stack user_entry s =
     run_user n U \<lparr>t_regs = c_regs c, t_eip = user_entry, t_cs = 0x1B, t_eflags = c_eflags c OR 0x200,
         t_useresp = user_stack, t_ss = 0x23\<rparr>
       (s\<lparr>dev := tss_set_kernel_stack (c_esp c) (dev s)\<rparr>)"

section \<open>Console output\<close>

lemma print_loop_cstr: "print_loop t msg = print_loop t (cstr msg)"
  by (induction msg arbitrary: t) auto

lemma print_loop_append: "0 \<notin> set a \<Longrightarrow> print_loop t (a @ b) = print_loop (print_loop t a) b"
  by (induction a arbitrary: t) auto

lemma print_char_crtc: "print_char (t\<lparr>crtc := c\<rparr>) x = (print_char t x)\<lparr>crtc := c\<rparr>"
  by (simp add: print_char_def scroll_screen_def debug_putc_def Let_def)

lemma print_loop_crtc: "print_loop (t\<lparr>crtc := c\<rparr>) msg = (print_loop t msg)\<lparr>crtc := c\<rparr>"
  by (induction msg arbitrary: t) (simp_all add: print_char_crtc)

lemma crtc_print_loop: "crtc (print_loop t msg) = crtc t"
  by (induction msg arbitrary: t) (simp_all add: print_char_def scroll_screen_def debug_putc_def Let_def)

lemma print_append: "0 \<notin> set a \<Longrightarrow> print (print t a) b = print t (a @ b)"
  by (simp add: print_def update_cursor_def Let_def print_loop_crtc print_loop_append crtc_print_loop fun_upd_twist)

lemma kprint_append: "0 \<notin> set a \<Longrightarrow> kprint (kprint s a) b = kprint s (a @ b)"
  by (simp add: kprint_def print_append)

lemma kprint_cstr: "kprint s msg = kprint s (cstr msg)"
  by (simp add: kprint_def print_def print_loop_cstr[of _ msg])

lemma kprint_kernel [simp]:
  "ptes (kprint s x) = ptes s" "paging_ok L (kprint s x) = paging_ok L s" "pm (kprint s x) = pm s"
  by (auto simp: kprint_def paging_ok_def ptes_def)

lemma kprint_fields [simp]:
  "syscall_kernel_fallback (kprint s x) = syscall_kernel_fallback s" "ps (kprint s x) = ps s"
  "syscall_exit_requested (kprint s x) = syscall_exit_requested s" "dev (kprint s x) = dev s"
  "fatsys.more (kprint s x) = fatsys.more s" "page_direc (kprint s x) = page_direc s"
  by (simp_all add: kprint_def)

section \<open>Copying\<close>

lemma copy_in_mem:
  "mem_bytes m a bs \<Longrightarrow> i + length bs \<le> length d \<Longrightarrow> copy_in (length bs) i d a m = Inr (take i d @ bs @ drop (i + length bs) d)"
proof (induction bs arbitrary: i a d)
  case (Cons b bs)
  then have "copy_in (length bs) (Suc i) (d[i := b]) (a + 1) m =
      Inr (take (Suc i) (d[i := b]) @ bs @ drop (Suc i + length bs) (d[i := b]))"
    by (intro Cons.IH) (auto simp: mem_bytes_Cons)
  then show ?case using Cons.prems by (simp add: mem_bytes_Cons take_Suc_conv_app_nth list_update_append)
qed simp

lemma mem_bytes_append: "mem_bytes m a (xs @ ys) \<longleftrightarrow> mem_bytes m a xs \<and> mem_bytes m (a + of_nat (length xs)) ys"
  by (induction xs arbitrary: a) (auto simp: mem_bytes_Cons algebra_simps)

definition user_region :: "'a vm_scheme \<Rightarrow> u32 \<Rightarrow> nat \<Rightarrow> bool" where
  "user_region s a n \<longleftrightarrow> 0x100000 \<le> unat a \<and> unat a + n \<le> 0xC0000000 \<and> (\<forall>i < n. user_page s (a + of_nat i))"

lemma user_region_part:
  assumes "user_region s a n" "c + k \<le> n"
  shows "user_region s (a + of_nat c) k"
proof -
  have "unat (a + of_nat c) = unat a + c"
    using assms by (subst unat_add_small) (simp_all add: user_region_def unat_of_nat)
  moreover have "user_page s (a + of_nat c + of_nat i)" if "i < k" for i
    using assms that by (auto simp: user_region_def add.assoc of_nat_add[symmetric] simp del: of_nat_add)
  ultimately show ?thesis using assms by (simp add: user_region_def)
qed

lemma validate_region:
  assumes "paging_ok L s" "user_region s a (unat n)"
  shows "validate_user_region a n s = Inr 1"
  using assms(2) unfolding validate_user_region_iff[OF assms(1)] user_region_def by auto

lemma copy_from_user_ok:
  assumes "paging_ok L s" "syscall_kernel_fallback s = 0" "user_region s a (unat n)" "mem_bytes (mc s) a bs" "length bs = unat n"
    and "unat n \<le> length d"
  shows "copy_from_user (Some d) a n s = Inr (0, Some (bs @ drop (unat n) d))"
proof -
  have "a \<noteq> 0" using assms(3) by (auto simp: user_region_def)
  then show ?thesis
    using validate_region[OF assms(1,3)] copy_in_mem[OF assms(4), of 0 d] assms(2,5,6)
    by (simp add: copy_from_user_def validate_user_ptr_def)
qed

section \<open>SYS\_WRITE\<close>

lemma write_loop_prints:
  assumes "paging_ok L s" "syscall_kernel_fallback s = 0" "user_region s b (unat len)" "mem_bytes (mc s) b d" "length d = unat len"
    and "0 \<notin> set d" "offset \<le> len" "length tmp = 1025"
  shows "write_loop False b len offset written tmp s =
    Inr (written + (len - offset), if offset < len then kprint s (drop (unat offset) d) else s)"
  using assms
proof (induction "unat len - unat offset" arbitrary: offset written tmp s rule: less_induct)
  case less
  show ?case
  proof (cases "offset < len")
    case False
    then have "offset = len" using less.prems(7) by auto
    then show ?thesis by (subst write_loop.simps) simp
  next
    case True
    define chunk where "chunk = (if len - offset > 1024 then 1024 else len - offset)"
    note pr = write_progress[OF True chunk_def]
    let ?n = "unat chunk"
    let ?bs = "take ?n (drop (unat offset) d)"
    let ?t = "(?bs @ drop ?n tmp)[?n := 0]"
    have lt: "unat offset < unat len" using True by (simp add: word_less_nat_alt)
    have len: "length ?bs = ?n" using less.prems(5) pr(4) by simp
    have d: "d = take (unat offset) d @ ?bs @ drop (unat offset + ?n) d"
      by (metis append_take_drop_id drop_drop add.commute)
    have "mem_bytes (mc s) b (take (unat offset) d @ ?bs @ drop (unat offset + ?n) d)"
      using less.prems(4) by (simp only: d[symmetric])
    moreover have "length (take (unat offset) d) = unat offset" using lt less.prems(5) by simp
    ultimately have mem: "mem_bytes (mc s) (b + offset) ?bs"
      by (simp only: mem_bytes_append u32_of_unat)
    have reg: "user_region s (b + offset) ?n"
      using user_region_part[OF less.prems(3), of "unat offset" ?n] pr(4) lt by simp
    have cp: "copy_from_user (Some tmp) (b + offset) chunk s = Inr (0, Some (?bs @ drop ?n tmp))"
      using pr(3) less.prems(8) by (intro copy_from_user_ok[OF less.prems(1,2) reg mem len]) simp
    have nz: "0 \<notin> set ?bs" using less.prems(6) by (meson in_set_dropD in_set_takeD)
    have "?t = ?bs @ 0 # tl (drop ?n tmp)" using len pr(3) less.prems(8) by (cases "drop ?n tmp") (simp_all add: list_update_append)
    then have cs: "cstr ?t = ?bs" using cstr_id[OF nz] nz by (simp add: cstr_def takeWhile_append2)
    have out: "kprint s ?t = kprint s ?bs" using kprint_cstr[of s ?t] cs by simp
    have step: "write_loop False b len offset written tmp s = write_loop False b len (offset + chunk) (written + chunk) ?t (kprint s ?bs)"
      using True cp pr(3) less.prems(8) len
      by (subst write_loop.simps) (simp add: chunk_def[symmetric] Let_def out)
    have le: "offset + chunk \<le> len" using pr(1,4) lt by (simp add: word_le_nat_alt)
    have "write_loop False b len (offset + chunk) (written + chunk) ?t (kprint s ?bs) =
        Inr (written + chunk + (len - (offset + chunk)),
          if offset + chunk < len then kprint (kprint s ?bs) (drop (unat (offset + chunk)) d) else kprint s ?bs)"
      using less.prems pr lt len le
      by (intro less.hyps) (simp_all add: user_region_def user_page_def)
    moreover have "(if offset + chunk < len then kprint (kprint s ?bs) (drop (unat (offset + chunk)) d) else kprint s ?bs) =
        kprint s (drop (unat offset) d)"
    proof -
      have split: "?bs @ drop (unat (offset + chunk)) d = drop (unat offset) d"
        using pr(1) by (metis append_take_drop_id drop_drop add.commute)
      have "drop (unat (offset + chunk)) d = []" if "\<not> offset + chunk < len"
        using that le less.prems(5) by (simp add: word_le_nat_alt word_less_nat_alt)
      then have "\<not> offset + chunk < len \<Longrightarrow> ?bs = drop (unat offset) d" using split by (metis append_Nil2)
      then show ?thesis using kprint_append[OF nz, of s "drop (unat (offset + chunk)) d"] split by auto
    qed
    ultimately show ?thesis using True step by (simp add: algebra_simps)
  qed
qed

text \<open>A chunk that starts at a multiple of 1024 lies in one page, so that the check of its first byte is enough.\<close>

lemma chunk_page:
  assumes "unat a mod 1024 = 0" "i < 1024"
  shows "frame (a + of_nat i) = frame a"
proof -
  obtain q where q: "unat a = 1024 * q" using assms(1) by auto
  have "q < 4194304" using u32_bound[of a] q by simp
  then have "unat a + i < 4294967296" using assms(2) q by simp
  then have "unat (a + of_nat i) = 1024 * q + i" by (subst unat_add_small) (simp_all add: unat_of_nat q)
  moreover have "(1024 * q + i) div 4096 = q div 4" using assms(2) div_mult2_eq[of "1024 * q + i" 1024 4] by simp
  moreover have "(1024 * q) div 4096 = q div 4" using div_mult2_eq[of "1024 * q" 1024 4] by simp
  ultimately show ?thesis by (simp add: word_unat_eq_iff frame_nat q)
qed

lemma validated_chunk:
  assumes "paging_ok L s" "unat a mod 1024 = 0" "unat n \<le> 1024" "0 < unat n"
  shows "validate_user_region a n s = Inr (if user_region s a (unat n) then 1 else 0)"
proof -
  have page: "user_page s (a + of_nat i) \<longleftrightarrow> user_page s a" if "i < unat n" for i
    using user_page_cong[OF chunk_page[OF assms(2), of i]] that assms(3) by simp
  have zero: "k = 0" if "4096 * k < unat n" for k using that assms(3) by (cases k) auto
  have "(\<forall>k. 4096 * k < unat n \<longrightarrow> user_page s (a + of_nat (4096 * k))) \<longleftrightarrow> user_page s a"
  proof (intro iffI allI impI)
    assume "\<forall>k. 4096 * k < unat n \<longrightarrow> user_page s (a + of_nat (4096 * k))"
    from spec[OF this, of 0] show "user_page s a" using assms(4) by simp
  next
    fix k
    assume "user_page s a" "4096 * k < unat n"
    with zero[of k] show "user_page s (a + of_nat (4096 * k))" by simp
  qed
  moreover have "(\<forall>i < unat n. user_page s (a + of_nat i)) \<longleftrightarrow> user_page s a" using page assms(4) by auto
  ultimately show ?thesis
    unfolding validate_user_region_iff[OF assms(1)] user_region_def using assms(4) by auto
qed

lemma user_bytes:
  assumes "paging_ok L s" "user_region s a n"
  shows "\<exists>bs. length bs = n \<and> mem_bytes (mc s) a bs"
proof -
  have "\<exists>b. ld8 (mc s) (a + of_nat i) = Inr b" if "i < n" for i
    using assms(2) that paging_translate[OF assms(1), of "a + of_nat i"] by (auto simp: user_region_def user_page_def ld8_def)
  then obtain g where "\<And>i. i < n \<Longrightarrow> ld8 (mc s) (a + of_nat i) = Inr (g i)" by metis
  then show ?thesis by (intro exI[of _ "map g [0..<n]"]) (simp add: mem_bytes_def)
qed

lemma write_loop_total:
  assumes "paging_ok L s" "syscall_kernel_fallback s = 0" "unat b mod 1024 = 0" "offset < len \<longrightarrow> unat offset mod 1024 = 0"
    and "length tmp = 1025"
  shows "\<exists>w s'. write_loop False b len offset written tmp s = Inr (w, s') \<and> mc s' = mc s"
  using assms
proof (induction "unat len - unat offset" arbitrary: offset written tmp s rule: less_induct)
  case less
  show ?case
  proof (cases "offset < len")
    case False
    then show ?thesis by (subst write_loop.simps) simp
  next
    case True
    define chunk where "chunk = (if len - offset > 1024 then 1024 else len - offset)"
    note pr = write_progress[OF True chunk_def]
    have lt: "unat offset < unat len" using True by (simp add: word_less_nat_alt)
    have al: "unat (b + offset) mod 1024 = 0"
    proof -
      obtain p where "unat b = 1024 * p" using less.prems(3) by auto
      moreover have "unat offset mod 1024 = 0" using less.prems(4) True by blast
      then obtain q where "unat offset = 1024 * q" by auto
      ultimately have "unat (b + offset) = (1024 * (p + q)) mod 4294967296"
        by (simp only: unat_word_ariths) (simp add: distrib_left)
      moreover have "(1024 * (p + q)) mod 4294967296 mod (1024 :: nat) = (1024 * (p + q)) mod 1024"
        by (rule mod_mod_cancel) simp
      ultimately show ?thesis by simp
    qed
    note v = validated_chunk[OF less.prems(1) al pr(3,2)]
    show ?thesis
    proof (cases "b + offset \<noteq> 0 \<and> user_region s (b + offset) (unat chunk)")
      case False
      then have "copy_from_user (Some tmp) (b + offset) chunk s = Inr (- 1, Some tmp)"
        using v less.prems(2) by (auto simp: copy_from_user_def validate_user_ptr_def)
      then show ?thesis using True by (subst write_loop.simps) (simp add: chunk_def[symmetric] Let_def)
    next
      case reg: True
      then obtain bs where bs: "length bs = unat chunk" "mem_bytes (mc s) (b + offset) bs"
        using user_bytes[OF less.prems(1)] by blast
      have len: "unat chunk \<le> length tmp" using pr(3) less.prems(5) by simp
      have cp: "copy_from_user (Some tmp) (b + offset) chunk s = Inr (0, Some (bs @ drop (unat chunk) tmp))"
        using copy_from_user_ok[OF less.prems(1,2) _ bs(2,1) len] reg by simp
      let ?t = "(bs @ drop (unat chunk) tmp)[unat chunk := 0]"
      have step: "write_loop False b len offset written tmp s = write_loop False b len (offset + chunk) (written + chunk) ?t (kprint s ?t)"
        using True cp bs(1) pr(3) less.prems(5) by (subst write_loop.simps) (simp add: chunk_def[symmetric] Let_def)
      have "unat (offset + chunk) mod 1024 = 0" if "offset + chunk < len"
      proof -
        have "unat (len - offset) = unat len - unat offset" using True by (simp add: unat_sub less_imp_le)
        moreover have "unat offset + unat chunk < unat len" using that pr(1) by (simp add: word_less_nat_alt)
        ultimately have "chunk \<noteq> len - offset" by auto
        then have "chunk = 1024" by (auto simp: chunk_def split: if_splits)
        then show ?thesis using pr(1) less.prems(4) True by (simp add: mod_add_right_eq[symmetric])
      qed
      then have "\<exists>w s'. write_loop False b len (offset + chunk) (written + chunk) ?t (kprint s ?t) = Inr (w, s') \<and> mc s' = mc (kprint s ?t)"
        using less.prems pr lt bs(1) by (intro less.hyps) (simp_all)
      then show ?thesis using step by simp
    qed
  qed
qed

section \<open>What system calls change\<close>

lemma write_loop_effect:
  "write_loop km b len offset written tmp s = Inr (w, s') \<Longrightarrow> \<exists>c. s' = s\<lparr>scr := c\<rparr>"
proof (induction km b len offset written tmp s arbitrary: w s' rule: write_loop.induct)
  case (1 km b len offset written tmp s)
  show ?case
  proof (cases "offset < len")
    case False
    then show ?thesis using 1(2) by (subst (asm) write_loop.simps) (auto intro: exI[of _ "scr s"])
  next
    case True
    define chunk where "chunk = (if len - offset > 1024 then 1024 else len - offset)"
    let ?c = "if km then bindE (copy_in (unat chunk) 0 tmp (b + offset) (mc s)) (\<lambda>t. Inr (Some t))
               else bindE (copy_from_user (Some tmp) (b + offset) chunk s) (\<lambda>(r, t). Inr (if r < 0 then None else t))"
    obtain r where r: "?c = Inr r"
      using 1(2) True by (subst (asm) write_loop.simps) (auto simp: chunk_def[symmetric] Let_def bindE_eq_Inr)
    show ?thesis
    proof (cases r)
      case None
      then show ?thesis
        using 1(2) True r by (subst (asm) write_loop.simps) (auto simp: chunk_def[symmetric] Let_def intro: exI[of _ "scr s"])
    next
      case (Some t)
      have run: "write_loop km b len (offset + chunk) (written + chunk) (t[unat chunk := 0]) (kprint s (t[unat chunk := 0])) = Inr (w, s')"
        "unat chunk < length t"
        using 1(2) True r Some by (subst (asm) write_loop.simps; auto simp: chunk_def[symmetric] Let_def split: if_splits)+
      from 1(1)[OF True chunk_def r Some run(2) run(1)] show ?thesis by (auto simp: kprint_def)
    qed
  qed
qed

section \<open>SYS\_YIELD\<close>

text \<open>A process without the fields the queue and the scheduler change.\<close>

definition ctx :: "process \<Rightarrow> process" where
  "ctx p = p\<lparr>next_p := 0, pstate := PROC_NEW\<rparr>"

lemma ctx_fields:
  "ctx p = ctx q \<Longrightarrow> pregs p = pregs q \<and> saved_eip p = saved_eip q \<and> entry p = entry q \<and> esp p = esp q \<and> user_stack_top p = user_stack_top q"
  by (cases p; cases q) (simp add: ctx_def)

lemma ctx_push: "ctx (heap (queue_push p q) a) = ctx (heap q a)"
  by (simp add: queue_push_def Let_def ctx_def upd_proc_def)

lemma ctx_enqueue: "ctx (heap (proc_enqueue p q) a) = ctx (heap q a)"
  by (simp add: proc_enqueue_def ctx_push) (simp add: ctx_def upd_proc_def)

lemma ctx_pop: "queue_pop q = (p, q') \<Longrightarrow> ctx (heap q' a) = ctx (heap q a)"
  by (auto simp: queue_pop_def Let_def ctx_def upd_proc_def split: if_splits)

lemma ctx_dequeue: "proc_dequeue q = (p, q') \<Longrightarrow> ctx (heap q' a) = ctx (heap q a)"
  using ctx_pop[of q "fst (queue_pop q)" "snd (queue_pop q)" a]
  by (auto simp: proc_dequeue_def split: prod.splits if_splits) (auto simp: ctx_def upd_proc_def)

definition saved :: "trap \<Rightarrow> process \<Rightarrow> process" where
  "saved f p = p\<lparr>pregs := t_regs f, esp := esp_r (t_regs f), saved_eip := t_eip f\<rparr>"

definition resume :: "trap \<Rightarrow> process \<Rightarrow> trap" where
  "resume f p = set_eax 0 (f\<lparr>t_regs := next_regs p (t_regs f), t_eip := (if saved_eip p \<noteq> 0 then saved_eip p else entry p)\<rparr>)"

lemma resume_cong: "ctx p = ctx q \<Longrightarrow> resume f p = resume f q"
  using ctx_fields[of p q] by (simp add: resume_def next_regs_def)

text \<open>The process at the head of the list yields to the one after it.\<close>

lemma sys_yield_step:
  assumes "sched (ps s) (c # q)" "q @ [c] = x # r"
  shows "\<exists>q'. sys_yield f s = (resume f (heap q' x), s\<lparr>ps := q'\<rparr>) \<and> sched q' (x # r) \<and>
    ctx (heap q' c) = ctx (saved f (heap (ps s) c)) \<and> (\<forall>a. a \<noteq> c \<longrightarrow> ctx (heap q' a) = ctx (heap (ps s) a))"
proof -
  let ?h = "upd_proc c (saved f) (ps s)"
  have c: "c \<noteq> 0" "c \<notin> set q" "curr_proc (ps s) = c" "queue_is (ps s) q" "\<forall>a \<in> set q. pstate (heap (ps s) a) = PROC_READY"
    using assms(1) by (auto simp: sched_def)
  have "queue_is ?h q" using c(4) by (simp add: queue_is_upd saved_def)
  note en = enqueue_is[OF this c(1,2)]
  have ready: "\<forall>a \<in> set (x # r). pstate (heap (proc_enqueue c ?h) a) = PROC_READY"
    unfolding assms(2)[symmetric] using c(2,5) by (auto simp: en(3))
  obtain q' where q': "proc_dequeue (proc_enqueue c ?h) = (x, q')" "sched q' (x # r)"
    using sched_dispatch[OF en(1)[unfolded assms(2)] ready] by blast
  have "x \<noteq> 0" using q'(2) by (simp add: sched_def)
  moreover have "save_frame c f (ps s) = proc_enqueue c ?h" using c(1) by (simp add: save_frame_def saved_def[abs_def])
  ultimately have run: "sys_yield f s = (resume f (heap q' x), s\<lparr>ps := q'\<rparr>)"
    using q'(1) c(3) by (simp add: sys_yield_def get_curr_proc_def Let_def resume_def)
  have "ctx (heap q' a) = ctx (heap ?h a)" for a
    using ctx_dequeue[OF q'(1), of a] ctx_enqueue[of c ?h a] by simp
  then show ?thesis using run q'(2) by (auto simp: upd_proc_def)
qed

lemma handle_yield: "eax (t_regs f) = SYS_YIELD \<Longrightarrow> handle_syscall f s = Inr (sys_yield f s)"
  by (simp add: handle_syscall_def sys_numbers)

text \<open>The system calls of a sequence of frames, one after the other.\<close>

definition syscalls :: "trap list \<Rightarrow> 'a kernel_scheme \<Rightarrow> ('a kernel_scheme) res" where
  "syscalls fs s = foldE (\<lambda>f s. bindE (handle_syscall f s) (\<lambda>(f1, s1). Inr s1)) fs s"

lemma yields_back:
  assumes "sched (ps s) (q @ c # r)" "length fs = length q" "q \<noteq> []" "\<forall>f \<in> set fs. eax (t_regs f) = SYS_YIELD"
  shows "\<exists>s1 q'. syscalls (butlast fs) s = Inr s1 \<and> handle_syscall (last fs) s1 = Inr (resume (last fs) (heap (ps s) c), s\<lparr>ps := q'\<rparr>) \<and>
    sched q' (c # r @ q)"
  using assms
proof (induction q arbitrary: r fs s)
  case (Cons d q)
  obtain f fs' where fs: "fs = f # fs'" "length fs' = length q" using Cons.prems(2) by (cases fs) auto
  have f: "eax (t_regs f) = SYS_YIELD" using Cons.prems(4) fs by simp
  have dc: "d \<noteq> c" using Cons.prems(1) by (auto simp: sched_def)
  obtain x r' where xr: "(q @ c # r) @ [d] = x # r'" by (cases q) auto
  obtain q1 where q1: "sys_yield f s = (resume f (heap q1 x), s\<lparr>ps := q1\<rparr>)" "sched q1 (x # r')"
    "ctx (heap q1 c) = ctx (heap (ps s) c)"
    using sys_yield_step[OF _ xr, of s f] Cons.prems(1) dc by auto
  show ?case
  proof (cases "q = []")
    case True
    then have "x = c" "r' = r @ [d]" "fs' = []" using xr fs by auto
    then show ?thesis
      using True fs q1 handle_yield[OF f, of s] resume_cong[OF q1(3)]
      by (intro exI[of _ s] exI[of _ q1]) (simp add: syscalls_def)
  next
    case False
    have sch: "sched (ps (s\<lparr>ps := q1\<rparr>)) (q @ c # (r @ [d]))" using q1(2) xr by simp
    have "fs' \<noteq> []" using False fs by auto
    moreover have "\<forall>f \<in> set fs'. eax (t_regs f) = SYS_YIELD" using Cons.prems(4) fs by simp
    moreover obtain s1 q' where "syscalls (butlast fs') (s\<lparr>ps := q1\<rparr>) = Inr s1"
      "handle_syscall (last fs') s1 = Inr (resume (last fs') (heap q1 c), s\<lparr>ps := q'\<rparr>)" "sched q' (c # (r @ [d]) @ q)"
      using Cons.IH[OF sch fs(2) False calculation(2)] by auto
    ultimately show ?thesis
      using fs q1(1) handle_yield[OF f, of s] resume_cong[OF q1(3)]
      by (intro exI[of _ s1] exI[of _ q']) (simp add: syscalls_def)
  qed
qed simp

section \<open>A small kernel state\<close>

definition sample_mem :: machine where
  "sample_mem = (mc sample_vm)\<lparr>phys := (phys (mc sample_vm))(0x200000 := 72, 0x200001 := 105)\<rparr>"

definition sample_kernel :: kernel where
  "sample_kernel = fssys.extend (sample_fssys\<lparr>mc := sample_mem, pm := pm sample_vm, page_direc := page_direc sample_vm\<rparr>)
     \<lparr>ps = sample_procs, dev = sample_devices, syscall_exit_requested = 0, last_exit_status = 0, syscall_kernel_fallback = 0\<rparr>"

lemma sample_kernel_fields [simp]:
  "mc sample_kernel = sample_mem" "pm sample_kernel = pm sample_vm" "page_direc sample_kernel = page_direc sample_vm"
  "ps sample_kernel = sample_procs" "syscall_kernel_fallback sample_kernel = 0"
  by (simp_all add: sample_kernel_def fssys.defs)

lemma sample_mem_tables: "same_tables (mc sample_vm) sample_mem"
proof -
  have "x \<noteq> 0x200000 \<and> x \<noteq> 0x200001" if "frame x \<in> table_frames (phys (mc sample_vm)) (page_direc sample_vm)" for x
  proof -
    have "frame x = 1 \<or> frame x = 2"
      using that by (auto simp: table_frames_def sample_vm_def sample_dir frame_def split: if_splits)
    then show ?thesis by (auto simp: frame_def)
  qed
  moreover have "cr3 (mc sample_vm) = page_direc sample_vm" by (simp add: sample_vm_def)
  ultimately show ?thesis by (auto simp: same_tables_def sample_mem_def)
qed

lemma sample_vm_space: "space_ok 1024 sample_vm"
proof -
  have "\<not> present sample_vm x" if "1024 \<le> unat (frame x)" for x
    using that by (simp add: sample_ptes frame_nat)
  then show ?thesis using sample_paging_ok by (auto simp: space_ok_def)
qed

lemma sample_kernel_space: "space_ok 1024 sample_kernel"
  and sample_kernel_ptes: "ptes sample_kernel = ptes sample_vm"
proof -
  note v = view_cong[of sample_kernel "sample_vm\<lparr>mc := sample_mem\<rparr>"]
  note t = space_same_tables[OF sample_vm_space sample_mem_tables]
  show "space_ok 1024 sample_kernel" using v(3)[of 1024] t(1) by simp
  show "ptes sample_kernel = ptes sample_vm" using v(1) t(2) by simp
qed

lemma sample_kernel_paging: "paging_ok 1024 sample_kernel"
  using sample_kernel_space by (rule space_paging)

lemma sample_kernel_user: "unat a < 0x400000 \<Longrightarrow> user_page sample_kernel a"
proof -
  have "(x OR 7 :: u32) AND 4 \<noteq> 0" for x
    using test_bit_zero[of "x OR 7" 2] by (simp add: bit_or_iff)
  then show "unat a < 0x400000 \<Longrightarrow> user_page sample_kernel a"
    by (simp add: user_page_def sample_kernel_ptes sample_ptes)
qed

definition write_frame :: "u32 \<Rightarrow> u32 \<Rightarrow> trap" where
  "write_frame buf n = \<lparr>t_regs = zero_regs\<lparr>eax := SYS_WRITE, ebx := FD_STDOUT, ecx := buf, edx := n\<rparr>,
     t_eip = 0x40000010, t_cs = 0x1B, t_eflags = 0x202, t_useresp = 0x80000FFC, t_ss = 0x23\<rparr>"

lemma sample_text: "mem_bytes sample_mem 0x200000 [72, 105]"
proof -
  have tr: "translate sample_mem a = Inr a" if "unat a < 0x400000" for a
    using window_identity[OF sample_kernel_paging, of a] that by (simp add: frame_nat)
  show ?thesis using tr[of "0x200000"] tr[of "0x200001"] by (simp add: mem_bytes_Cons ld8_def sample_mem_def)
qed

section \<open>Properties\<close>

text \<open>
  C11: SYS\_WRITE prints the buffer. For a buffer of user pages without a NUL, whatever its
  length and alignment, a write to stdout or stderr behaves like one print of its contents and
  answers its length.
\<close>

theorem sys_write_prints:
  assumes "paging_ok L s" "syscall_kernel_fallback s = 0" "eax (t_regs f) = SYS_WRITE" "ebx (t_regs f) \<in> {FD_STDOUT, FD_STDERR}"
    and "user_region s (ecx (t_regs f)) (length d)" "mem_bytes (mc s) (ecx (t_regs f)) d" "length d = unat (edx (t_regs f))"
    and "0 \<notin> set d" "d \<noteq> []"
  shows "handle_syscall f s = Inr (set_eax (edx (t_regs f)) f, kprint s d)"
proof -
  have "0 < edx (t_regs f)" using assms(7,9) by (cases d) (auto simp: word_gt_0)
  then show ?thesis
    using write_loop_prints[OF assms(1,2) _ assms(6-8), of 0 "replicate 1025 0" 0] assms
    by (auto simp: handle_syscall_def sys_write_def sys_numbers Let_def)
qed

theorem sys_write_prints_witness:
  "handle_syscall (write_frame 0x200000 2) sample_kernel = Inr (set_eax 2 (write_frame 0x200000 2), kprint sample_kernel [72, 105])"
proof -
  have "user_region sample_kernel 0x200000 2"
  proof -
    have "unat (0x200000 + of_nat i :: u32) < 0x400000" if "i < 2" for i
      using less_2_cases[OF that] by auto
    then show ?thesis using sample_kernel_user by (simp add: user_region_def)
  qed
  then have "user_region sample_kernel 0x200000 (Suc (Suc 0))" by (metis numeral_2_eq_2)
  then show ?thesis
    using sys_write_prints[OF sample_kernel_paging, of "write_frame 0x200000 2" "[72, 105]"] sample_text
    by (simp add: write_frame_def)
qed

text \<open>
  C28: SYS\_WRITE never faults on a buffer that starts at a multiple of 1024. Whatever the
  pointer and the length are, the call returns, and it changes nothing but the console.
\<close>

theorem sys_write_aligned_total:
  assumes "paging_ok L s" "syscall_kernel_fallback s = 0" "eax (t_regs f) = SYS_WRITE" "unat (ecx (t_regs f)) mod 1024 = 0"
  shows "\<exists>v c. handle_syscall f s = Inr (set_eax v f, s\<lparr>scr := c\<rparr>)"
proof (cases "ebx (t_regs f) = FD_STDOUT \<or> ebx (t_regs f) = FD_STDERR")
  case True
  obtain w s' where w: "write_loop False (ecx (t_regs f)) (edx (t_regs f)) 0 0 (replicate 1025 0) s = Inr (w, s')"
    using write_loop_total[OF assms(1,2,4), of 0 "edx (t_regs f)" "replicate 1025 0" 0] by auto
  obtain c where "s' = s\<lparr>scr := c\<rparr>" using write_loop_effect[OF w] by blast
  then show ?thesis
    using True w assms(2,3) by (auto simp: handle_syscall_def sys_write_def sys_numbers Let_def)
next
  case False
  then have "handle_syscall f s = Inr (set_eax (- 1) f, s\<lparr>scr := scr s\<rparr>)"
    using assms(3) by (auto simp: handle_syscall_def sys_write_def sys_numbers Let_def)
  then show ?thesis by blast
qed

theorem sys_write_aligned_total_witness:
  "\<exists>v c. handle_syscall (write_frame 0xBFFFFC00 0xFFFFFFFF) sample_kernel = Inr (set_eax v (write_frame 0xBFFFFC00 0xFFFFFFFF), sample_kernel\<lparr>scr := c\<rparr>)"
  by (rule sys_write_aligned_total[OF sample_kernel_paging]) (simp_all add: write_frame_def)

text \<open>
  C29: a user program can crash the kernel by SYS\_WRITE. A two-byte buffer across the end of a
  user page that is followed by an unmapped one passes the check, and the copy ends in a page
  fault in kernel mode.
\<close>

theorem sys_write_unaligned_faults:
  assumes "paging_ok L s" "syscall_kernel_fallback s = 0" "eax (t_regs f) = SYS_WRITE" "ebx (t_regs f) = FD_STDOUT"
    and "unat page mod 4096 = 0" "0x100000 \<le> unat page" "unat page + 0x1000 < 0xC0000000"
    and "user_page s page" "ptes s (page + 0x1000) AND 1 = 0"
    and "ecx (t_regs f) = page + 0xFFF" "edx (t_regs f) = 2"
  shows "handle_syscall f s = Inl (PageFault (page + 0x1000))"
proof -
  have u: "unat (page + 0xFFF) = unat page + 0xFFF" using assms(7) by (subst unat_add_small) simp_all
  obtain q where q: "unat page = 4096 * q" using assms(5) by auto
  have fr: "frame (page + 0xFFF) = frame page" unfolding word_unat_eq_iff frame_nat u q by simp
  then have up: "user_page s (page + 0xFFF)" using assms(8) user_page_cong by blast
  have "0 < k \<Longrightarrow> \<not> 4096 * k < unat (2 :: u32)" for k by simp
  then have v: "validate_user_region (page + 0xFFF) 2 s = Inr 1"
    using up assms(6,7) u by (auto simp: validate_user_region_iff[OF assms(1)])
  obtain b where b: "ld8 (mc s) (page + 0xFFF) = Inr b"
    using paging_translate[OF assms(1), of "page + 0xFFF"] up by (auto simp: user_page_def ld8_def)
  have bad: "ld8 (mc s) (page + 0x1000) = Inl (PageFault (page + 0x1000))"
    using paging_translate[OF assms(1), of "page + 0x1000"] assms(9) by (simp add: ld8_def)
  have "page + 0xFFF + 1 = page + 0x1000" by simp
  then have "copy_in 2 0 d (page + 0xFFF) (mc s) = Inl (PageFault (page + 0x1000))" if "length d = 1025" for d
    using b bad that by (simp add: numeral_2_eq_2 add.commute[of 4096])
  moreover have "page + 0xFFF \<noteq> 0" using u by auto
  ultimately have "copy_from_user (Some (replicate 1025 0)) (page + 0xFFF) 2 s = Inl (PageFault (page + 0x1000))"
    using v assms(2) by (simp add: copy_from_user_def validate_user_ptr_def)
  then show ?thesis
    using assms(2-4,10,11) by (simp add: handle_syscall_def sys_write_def sys_numbers Let_def write_loop.simps[of False "page + 0xFFF" 2])
qed

theorem sys_write_unaligned_faults_witness:
  "handle_syscall (write_frame 0x3FFFFF 2) sample_kernel = Inl (PageFault (0x3FF000 + 0x1000))"
proof (rule sys_write_unaligned_faults[OF sample_kernel_paging, where page = "0x3FF000"])
  show "user_page sample_kernel 0x3FF000" by (rule sample_kernel_user) simp
  show "ptes sample_kernel (0x3FF000 + 0x1000) AND 1 = 0" by (simp add: sample_kernel_ptes sample_ptes)
qed (simp_all add: write_frame_def)

lemma syscall_effect:
  assumes "handle_syscall f s = Inr (f', s')"
  shows "(\<exists>c q e x. s' = s\<lparr>scr := c, ps := q, syscall_exit_requested := e, last_exit_status := x\<rparr>) \<and>
    f' = f\<lparr>t_regs := t_regs f', t_eip := t_eip f'\<rparr>"
proof -
  have id: "\<exists>c q e x. s = s\<lparr>scr := c, ps := q, syscall_exit_requested := e, last_exit_status := x\<rparr>"
    by (intro exI[of _ "scr s"] exI[of _ "ps s"] exI[of _ "syscall_exit_requested s"] exI[of _ "last_exit_status s"]) simp
  have fr: "set_eax v f = f\<lparr>t_regs := t_regs (set_eax v f), t_eip := t_eip (set_eax v f)\<rparr>" for v by (simp add: set_eax_def)
  consider "eax (t_regs f) = SYS_EXIT" | "eax (t_regs f) = SYS_WRITE" | "eax (t_regs f) = SYS_YIELD"
    | "eax (t_regs f) \<notin> {SYS_EXIT, SYS_WRITE, SYS_YIELD}" by auto
  then show ?thesis
  proof cases
    case 1
    then have "s' = s\<lparr>scr := scr s, ps := ps s, syscall_exit_requested := 1, last_exit_status := ebx (t_regs f)\<rparr>" "f' = set_eax 0 f"
      using assms by (auto simp: handle_syscall_def sys_exit_def)
    then show ?thesis using fr[of 0] by blast
  next
    case 2
    show ?thesis
    proof (cases "ebx (t_regs f) = FD_STDOUT \<or> ebx (t_regs f) = FD_STDERR")
      case True
      then obtain w where w: "write_loop (syscall_kernel_fallback s \<noteq> 0) (ecx (t_regs f)) (edx (t_regs f)) 0 0 (replicate 1025 0) s = Inr (w, s')"
        "f' = set_eax w f"
        using assms 2 by (auto simp: handle_syscall_def sys_write_def sys_numbers Let_def bindE_eq_Inr)
      obtain c where c: "s' = s\<lparr>scr := c\<rparr>" using write_loop_effect[OF w(1)] by blast
      have "s' = s\<lparr>scr := c, ps := ps s, syscall_exit_requested := syscall_exit_requested s, last_exit_status := last_exit_status s\<rparr>"
        using c by simp
      then show ?thesis using fr[of w] w(2) by blast
    next
      case False
      then have "f' = set_eax (- 1) f" "s' = s" using assms 2 by (auto simp: handle_syscall_def sys_write_def sys_numbers Let_def split: if_splits)
      then show ?thesis using id fr[of "- 1"] by simp
    qed
  next
    case 3
    then obtain q where q: "s' = s\<lparr>ps := q\<rparr>" "f' = f\<lparr>t_regs := t_regs f', t_eip := t_eip f'\<rparr>"
      using assms by (auto simp: handle_yield sys_yield_def Let_def set_eax_def split: prod.splits if_splits)
    then have "s' = s\<lparr>scr := scr s, ps := q, syscall_exit_requested := syscall_exit_requested s, last_exit_status := last_exit_status s\<rparr>"
      by simp
    then show ?thesis using q(2) by blast
  next
    case 4
    then have "\<exists>v. f' = set_eax v f" "s' = s"
      using assms by (auto simp: handle_syscall_def sys_read_def sys_open_def sys_close_def Let_def bindE_eq_Inr split: if_splits)
    then show ?thesis using id fr by auto
  qed
qed



text \<open>
  C27: yielding comes back. When every process of the ready list has issued SYS\_YIELD once, the
  first one continues with the registers it had, apart from eax, which is 0, and at its own
  instruction pointer; the rest of its frame, the user stack pointer among it, is that of the
  process that yielded last.
\<close>

theorem sys_yield_round_trip:
  assumes "sched (ps s) xs" "length fs = length xs" "\<forall>f \<in> set fs. eax (t_regs f) = SYS_YIELD \<and> t_eip f \<noteq> 0"
  shows "\<exists>s1 q'. syscalls (butlast fs) s = Inr s1 \<and> sched q' xs \<and> handle_syscall (last fs) s1 =
    Inr ((last fs)\<lparr>t_regs := (t_regs (hd fs))\<lparr>eax := 0\<rparr>, t_eip := t_eip (hd fs)\<rparr>, s\<lparr>ps := q'\<rparr>)"
proof -
  obtain c q where xs: "xs = c # q" using assms(1) by (cases xs) (auto simp: sched_def)
  obtain f fs' where fs: "fs = f # fs'" "length fs' = length q" using assms(2) xs by (cases fs) auto
  have f: "eax (t_regs f) = SYS_YIELD" "t_eip f \<noteq> 0" using assms(3) fs by simp_all
  have contd: "resume g p = g\<lparr>t_regs := (t_regs f)\<lparr>eax := 0\<rparr>, t_eip := t_eip f\<rparr>" if "ctx p = ctx (saved f p0)" for g p p0
    using ctx_fields[OF that] f by (simp add: resume_def next_regs_def has_regs_def saved_def set_eax_def sys_numbers)
  obtain x r where xr: "q @ [c] = x # r" by (cases q) auto
  obtain q1 where q1: "sys_yield f s = (resume f (heap q1 x), s\<lparr>ps := q1\<rparr>)" "sched q1 (x # r)"
    "ctx (heap q1 c) = ctx (saved f (heap (ps s) c))"
    using sys_yield_step[OF _ xr, of s f] assms(1) xs by auto
  show ?thesis
  proof (cases "q = []")
    case True
    then have "x = c" "r = []" "fs' = []" using xr fs by auto
    then show ?thesis
      using True fs xs q1 handle_yield[OF f(1), of s] contd[OF q1(3), of f]
      by (intro exI[of _ s] exI[of _ q1]) (simp add: syscalls_def)
  next
    case False
    have sch: "sched (ps (s\<lparr>ps := q1\<rparr>)) (q @ c # [])" using q1(2) xr by simp
    have ne: "fs' \<noteq> []" using False fs by auto
    have y: "\<forall>g \<in> set fs'. eax (t_regs g) = SYS_YIELD" using assms(3) fs by simp
    obtain s1 q' where "syscalls (butlast fs') (s\<lparr>ps := q1\<rparr>) = Inr s1" "sched q' (c # q)"
      "handle_syscall (last fs') s1 = Inr (resume (last fs') (heap q1 c), s\<lparr>ps := q'\<rparr>)"
      using yields_back[OF sch fs(2) False y] by auto
    then show ?thesis
      using ne fs xs q1(1) handle_yield[OF f(1), of s] contd[OF q1(3), of "last fs'"]
      by (intro exI[of _ s1] exI[of _ q']) (simp add: syscalls_def)
  qed
qed


definition yield_frame :: "u32 \<Rightarrow> u32 \<Rightarrow> trap" where
  "yield_frame n sp = \<lparr>t_regs = zero_regs\<lparr>eax := SYS_YIELD, ebx := n\<rparr>,
     t_eip = 0x40000000 + n, t_cs = 0x1B, t_eflags = 0x202, t_useresp = sp, t_ss = 0x23\<rparr>"

theorem sys_yield_round_trip_witness:
  "\<exists>s1 q'. syscalls [yield_frame 1 0x80000F00, yield_frame 2 0x80000E00] sample_kernel = Inr s1 \<and>
    handle_syscall (yield_frame 3 0x80000D00) s1 =
      Inr ((yield_frame 3 0x80000D00)\<lparr>t_regs := zero_regs\<lparr>eax := 0, ebx := 1\<rparr>, t_eip := 0x40000001\<rparr>, sample_kernel\<lparr>ps := q'\<rparr>)"
  using sys_yield_round_trip[of sample_kernel "[0x1000, 0x2000, 0x3000]"
      "[yield_frame 1 0x80000F00, yield_frame 2 0x80000E00, yield_frame 3 0x80000D00]"] sample_sched
  by (auto simp: yield_frame_def)

end
