(* ===== verification/Elf.thy ===== *)
theory Elf
  imports Address_Space Ata
begin

text \<open>
  The program loader of src/src/keyboard.c: load_elf_program maps the pages of the loadable
  segments of an ELF image, copies their contents from the file buffer and clears the rest.
  The header fields are read from machine memory where the code reads them, since the buffer
  could alias what the loader writes.
\<close>

section \<open>Operations\<close>

definition ld16 :: "machine \<Rightarrow> u32 \<Rightarrow> u16 res" where
  "ld16 m a = bindE (ld8 m a) (\<lambda>b0. bindE (ld8 m (a + 1)) (\<lambda>b1. Inr (le16 b0 b1)))"

text \<open>The fields of the two header structures that the loader reads, by their offsets.\<close>

definition e_type :: "machine \<Rightarrow> u32 \<Rightarrow> u16 res" where "e_type m h = ld16 m (h + 16)"
definition e_entry :: "machine \<Rightarrow> u32 \<Rightarrow> u32 res" where "e_entry m h = ld32 m (h + 24)"
definition e_phoff :: "machine \<Rightarrow> u32 \<Rightarrow> u32 res" where "e_phoff m h = ld32 m (h + 28)"
definition e_phentsize :: "machine \<Rightarrow> u32 \<Rightarrow> u16 res" where "e_phentsize m h = ld16 m (h + 42)"
definition e_phnum :: "machine \<Rightarrow> u32 \<Rightarrow> u16 res" where "e_phnum m h = ld16 m (h + 44)"

definition p_type :: "machine \<Rightarrow> u32 \<Rightarrow> u32 res" where "p_type m h = ld32 m h"
definition p_offset :: "machine \<Rightarrow> u32 \<Rightarrow> u32 res" where "p_offset m h = ld32 m (h + 4)"
definition p_vaddr :: "machine \<Rightarrow> u32 \<Rightarrow> u32 res" where "p_vaddr m h = ld32 m (h + 8)"
definition p_filesz :: "machine \<Rightarrow> u32 \<Rightarrow> u32 res" where "p_filesz m h = ld32 m (h + 16)"
definition p_memsz :: "machine \<Rightarrow> u32 \<Rightarrow> u32 res" where "p_memsz m h = ld32 m (h + 20)"

text \<open>The four magic bytes, tested in order up to the first mismatch.\<close>

definition elf_magic :: "machine \<Rightarrow> u32 \<Rightarrow> bool res" where
  "elf_magic m b =
     bindE (ld8 m b) (\<lambda>b0. if b0 \<noteq> 0x7F then Inr False else
     bindE (ld8 m (b + 1)) (\<lambda>b1. if b1 \<noteq> 69 then Inr False else
     bindE (ld8 m (b + 2)) (\<lambda>b2. if b2 \<noteq> 76 then Inr False else
     bindE (ld8 m (b + 3)) (\<lambda>b3. Inr (b3 = 70)))))"

text \<open>The body of the mapping loop: a page that is not present gets a frame.\<close>

definition ensure_page :: "u32 \<Rightarrow> 'a vm_scheme \<Rightarrow> (int \<times> 'a vm_scheme) res" where
  "ensure_page vaddr s =
     bindE (get_pte vaddr s) (\<lambda>pte.
       if pte AND 1 = 0 then
         bindE (pmm_alloc_block (pm s)) (\<lambda>(phys_addr, p).
           if phys_addr = 0 then Inr (- 1, s\<lparr>pm := p\<rparr>)
           else bindE (map_page phys_addr vaddr 7 (s\<lparr>pm := p\<rparr>)) (\<lambda>s1. Inr (0, s1)))
       else Inr (0, s))"

fun map_pages :: "nat \<Rightarrow> u32 \<Rightarrow> u32 \<Rightarrow> 'a vm_scheme \<Rightarrow> (int \<times> 'a vm_scheme) res" where
  "map_pages 0 vaddr map_end s = Inl StillRunning"
| "map_pages (Suc fuel) vaddr map_end s =
     (if vaddr < map_end then
        bindE (ensure_page vaddr s) (\<lambda>(r, s1).
          if r < 0 then Inr (- 1, s1) else map_pages fuel (vaddr + 4096) map_end s1)
      else Inr (0, s))"

text \<open>Both ends of the loop are page aligned, so the address of the end bounds the number of its pages.\<close>

definition map_segment :: "u32 \<Rightarrow> u32 \<Rightarrow> 'a vm_scheme \<Rightarrow> (int \<times> 'a vm_scheme) res" where
  "map_segment vaddr memsz s =
     (let map_start = vaddr AND 0xFFFFF000;
          map_end = (vaddr + memsz + 0xFFF) AND 0xFFFFF000
      in map_pages (Suc (unat map_end div 4096)) map_start map_end s)"

definition copy_segment :: "u32 \<Rightarrow> u32 \<Rightarrow> u32 \<Rightarrow> u32 \<Rightarrow> u32 \<Rightarrow> machine \<Rightarrow> machine res" where
  "copy_segment file_buf off vaddr filesz memsz m =
     (let copy_len = (if filesz > memsz then memsz else filesz)
      in bindE (if copy_len > 0 then memcpy m vaddr (file_buf + off) copy_len else Inr m) (\<lambda>m1.
           if memsz > filesz then memset m1 (vaddr + filesz) 0 (memsz - filesz) else Inr m1))"

text \<open>The body of the loop over the program headers; -1 stands for the early return.\<close>

definition load_segment :: "u32 \<Rightarrow> u32 \<Rightarrow> u32 \<Rightarrow> 'a vm_scheme \<Rightarrow> (int \<times> 'a vm_scheme) res" where
  "load_segment file_buf fsize ph s =
     bindE (p_type (mc s) ph) (\<lambda>typ. if typ \<noteq> 1 then Inr (0, s) else
     bindE (p_memsz (mc s) ph) (\<lambda>memsz. if memsz = 0 then Inr (0, s) else
     bindE (p_offset (mc s) ph) (\<lambda>off. bindE (p_filesz (mc s) ph) (\<lambda>filesz.
       if off + filesz > fsize then Inr (- 1, s) else
     bindE (p_vaddr (mc s) ph) (\<lambda>vaddr.
     bindE (map_segment vaddr memsz s) (\<lambda>(r, s1).
       if r < 0 then Inr (- 1, s1)
       else bindE (copy_segment file_buf off vaddr filesz memsz (mc s1)) (\<lambda>m. Inr (0, s1\<lparr>mc := m\<rparr>))))))))"

function load_segments :: "u16 \<Rightarrow> u32 \<Rightarrow> u32 \<Rightarrow> 'a vm_scheme \<Rightarrow> (int \<times> 'a vm_scheme) res" where
  "load_segments i file_buf fsize s =
     bindE (e_phnum (mc s) file_buf) (\<lambda>phnum.
       if i < phnum then
         bindE (e_phoff (mc s) file_buf) (\<lambda>phoff. bindE (e_phentsize (mc s) file_buf) (\<lambda>phentsize.
         bindE (load_segment file_buf fsize (file_buf + phoff + ucast i * ucast phentsize) s) (\<lambda>(r, s1).
           if r < 0 then Inr (- 1, s1) else load_segments (i + 1) file_buf fsize s1)))
       else Inr (0, s))"
  by pat_completeness auto
termination
proof (relation "measure (\<lambda>(i, _). 65535 - unat i)")
  fix i x :: u16 and file_buf fsize :: u32 and s a :: "'a vm_scheme"
  assume "i < x"
  then have "unat i < 65535" using u16_bound[of x] by (simp add: word_less_nat_alt)
  then have "unat (i + 1) = unat i + 1" by (simp add: unat_word_ariths)
  then show "((i + 1, file_buf, fsize, a), i, file_buf, fsize, s) \<in> measure (\<lambda>(i, _). 65535 - unat i)"
    using \<open>unat i < 65535\<close> by simp
qed simp

declare load_segments.simps [simp del]

text \<open>The answer, the value of the entry point variable, and the state.\<close>

definition load_elf_program :: "u32 \<Rightarrow> u32 \<Rightarrow> u32 \<Rightarrow> 'a vm_scheme \<Rightarrow> (int \<times> u32 \<times> 'a vm_scheme) res" where
  "load_elf_program file_buf fsize entry_out s =
     (if fsize < 52 then Inr (- 1, entry_out, s) else
      bindE (elf_magic (mc s) file_buf) (\<lambda>magic. if \<not> magic then Inr (- 1, entry_out, s) else
      bindE (e_type (mc s) file_buf) (\<lambda>typ. if typ \<noteq> 2 then Inr (- 1, entry_out, s) else
      bindE (e_phnum (mc s) file_buf) (\<lambda>phnum. if phnum = 0 then Inr (- 1, entry_out, s) else
      bindE (e_phoff (mc s) file_buf) (\<lambda>phoff. bindE (e_phentsize (mc s) file_buf) (\<lambda>phentsize.
        if phoff + ucast phnum * ucast phentsize > fsize then Inr (- 1, entry_out, s) else
      bindE (e_entry (mc s) file_buf) (\<lambda>ent.
      bindE (load_segments 0 file_buf fsize s) (\<lambda>(r, s1). Inr (r, ent, s1)))))))))"

section \<open>Mapping\<close>

lemma ensure_page_ok:
  assumes "space_ok L s" "L \<le> unat (frame va)" "1 < spare s"
  shows "\<exists>s'. ensure_page va s = Inr (0, s') \<and> grown L s s' \<and> present s' va \<and>
    (\<forall>x. present s x \<longrightarrow> present s' x) \<and> spare s \<le> spare s' + 2"
proof (cases "present s va")
  case True
  then show ?thesis
    using get_pte_ptes[OF space_paging[OF assms(1)], of va] assms(1) by (simp add: ensure_page_def grown_def)
next
  case False
  have pok: "pmm_ok (pm s)" "0 \<in> used_frames (pm s)" using space_paging[OF assms(1)] by (simp_all add: paging_ok_def)
  have "\<exists>f \<in> free_frames (pm s). f < unat (max_frames (pm s))" using assms(3) spare_pos[of s] by simp
  then obtain f p where al: "pmm_alloc_block (pm s) = Inr (of_nat f * 4096, p)" "f \<in> free_frames (pm s)"
    using pok(1) by (cases rule: pmm_alloc_cases[OF pok(1)]) auto
  have "f < NFRAMES" "f \<noteq> 0" using al(2) pok(2) by (auto simp: free_frames_def intro: gr0I)
  then have F0: "of_nat f * 4096 \<noteq> (0 :: u32)" using frame_addr_nat(1)[of f] by auto
  show ?thesis
    using map_fresh[OF assms(1) al(1) F0 assms(2) False assms(3)] False al(1) F0
      get_pte_ptes[OF space_paging[OF assms(1)], of va]
    by (auto simp: ensure_page_def)
qed

lemma map_pages_ok:
  assumes "space_ok L s" "unat va mod 4096 = 0" "L \<le> unat (frame va)" "unat stop = unat va + 4096 * n" "2 * n \<le> spare s" "n < fuel"
  shows "\<exists>s'. map_pages fuel va stop s = Inr (0, s') \<and> grown L s s' \<and> (\<forall>x. present s x \<longrightarrow> present s' x) \<and>
    (\<forall>x. unat va \<le> unat x \<and> unat x < unat stop \<longrightarrow> present s' x) \<and> spare s \<le> spare s' + 2 * n"
  using assms
proof (induction n arbitrary: va s fuel)
  case 0
  then have "\<not> va < stop" by (simp add: word_less_nat_alt)
  then show ?case using 0 by (cases fuel) (auto simp: grown_def)
next
  case (Suc n)
  obtain k where k: "fuel = Suc k" using Suc.prems(6) by (cases fuel) auto
  have lt: "va < stop" using Suc.prems(4) by (simp add: word_less_nat_alt)
  have nxt: "unat (va + 4096) = unat va + 4096" using Suc.prems(4) u32_bound[of stop] by (subst unat_add_small) simp_all
  obtain s1 where s1: "ensure_page va s = Inr (0, s1)" "grown L s s1" "present s1 va"
    "\<And>x. present s x \<Longrightarrow> present s1 x" "spare s \<le> spare s1 + 2"
    using ensure_page_ok[OF Suc.prems(1,3)] Suc.prems(5) by auto
  have ok1: "space_ok L s1" using s1(2) by (simp add: grown_def)
  have "L \<le> unat (frame (va + 4096))" using Suc.prems(3) by (simp add: frame_nat nxt)
  from Suc.IH[OF ok1 _ this, of k] Suc.prems s1(5) k nxt
  obtain s2 where s2: "map_pages k (va + 4096) stop s1 = Inr (0, s2)" "grown L s1 s2" "\<And>x. present s1 x \<Longrightarrow> present s2 x"
    "\<And>x. unat va + 4096 \<le> unat x \<Longrightarrow> unat x < unat stop \<Longrightarrow> present s2 x" "spare s1 \<le> spare s2 + 2 * n"
    by (auto simp: nxt)
  have "present s2 x" if "unat va \<le> unat x" "unat x < unat stop" for x
  proof (cases "unat x < unat va + 4096")
    case True
    obtain q where "unat va = 4096 * q" using Suc.prems(2) by auto
    then have "frame x = frame va" using True that(1) unfolding word_unat_eq_iff frame_nat by simp
    then have "ptes s1 x = ptes s1 va" by (rule ptes_cong)
    then show ?thesis using s1(3) s2(3)[of x] by simp
  next
    case False
    then show ?thesis using s2(4) that by simp
  qed
  then show ?case
    using k lt s1 s2 grown_trans[OF s1(2) s2(2)] by auto
qed

section \<open>One segment\<close>

record phdr =
  ph_type :: u32
  ph_offset :: u32
  ph_vaddr :: u32
  ph_filesz :: u32
  ph_memsz :: u32

definition phdr_is :: "machine \<Rightarrow> u32 \<Rightarrow> phdr \<Rightarrow> bool" where
  "phdr_is m h ph \<longleftrightarrow> p_type m h = Inr (ph_type ph) \<and> p_offset m h = Inr (ph_offset ph) \<and> p_vaddr m h = Inr (ph_vaddr ph) \<and>
     p_filesz m h = Inr (ph_filesz ph) \<and> p_memsz m h = Inr (ph_memsz ph)"

definition loadable :: "phdr \<Rightarrow> bool" where
  "loadable ph \<longleftrightarrow> ph_type ph = 1 \<and> ph_memsz ph \<noteq> 0"

text \<open>The addresses a segment occupies, the pages under them, and what they are to hold.\<close>

definition seg_block :: "phdr \<Rightarrow> u32 set" where
  "seg_block ph = (if loadable ph then block (ph_vaddr ph) (unat (ph_memsz ph)) else {})"

definition seg_pages :: "phdr \<Rightarrow> nat" where
  "seg_pages ph = (if loadable ph then (unat (ph_vaddr ph) + unat (ph_memsz ph) + 4095) div 4096 - unat (ph_vaddr ph) div 4096 else 0)"

definition seg_byte :: "machine \<Rightarrow> u32 \<Rightarrow> phdr \<Rightarrow> u32 \<Rightarrow> u8 res" where
  "seg_byte m buf ph a =
     (if a - ph_vaddr ph < ph_filesz ph then ld8 m (buf + ph_offset ph + (a - ph_vaddr ph)) else Inr 0)"

text \<open>A segment that lies inside the file and, with its pages, above the identity window.\<close>

definition seg_ok :: "nat \<Rightarrow> u32 \<Rightarrow> phdr \<Rightarrow> bool" where
  "seg_ok L fsize ph \<longleftrightarrow> (loadable ph \<longrightarrow> L \<le> unat (frame (ph_vaddr ph)) \<and>
     unat (ph_vaddr ph) + unat (ph_memsz ph) + 4095 < 4294967296 \<and> unat (ph_offset ph) + unat (ph_filesz ph) \<le> unat fsize)"

lemma block_range:
  assumes "unat v + n \<le> 4294967296" "a \<in> block v n"
  shows "unat v \<le> unat a" "unat a < unat v + n"
proof -
  obtain i where i: "i < n" "a = v + of_nat i" using assms(2) by (auto simp: mem.block_def)
  then have "unat a = unat v + i" using assms(1) by (subst i(2), subst unat_add_small) (simp_all add: unat_of_nat)
  then show "unat v \<le> unat a" "unat a < unat v + n" using i(1) by simp_all
qed

lemma tail_offset:
  assumes "f < (n :: u32)"
  shows "unat (d - f) < unat (n - f) \<longleftrightarrow> unat f \<le> unat d \<and> unat d < unat n"
proof -
  have nf: "unat (n - f) = unat n - unat f" "unat f < unat n" using assms unat_sub[of f n] by (simp_all add: less_imp_le word_less_nat_alt)
  show ?thesis
  proof (cases "f \<le> d")
    case True
    then show ?thesis using nf unat_sub[OF True] by (auto simp: word_le_nat_alt)
  next
    case False
    then have fd: "unat d < unat f" by (simp add: word_le_nat_alt)
    have "unat (d - f) = unat d + (4294967296 - unat f)"
    proof -
      have "d - f = of_nat (unat d + (4294967296 - unat f))"
        using u32_bound[of f] by (simp add: of_nat_diff)
      moreover have "unat d + (4294967296 - unat f) < 4294967296" using fd u32_bound[of f] by simp
      ultimately show ?thesis by (simp only: unat_of_nat) simp
    qed
    then show ?thesis using nf fd u32_bound[of n] by simp
  qed
qed

lemma block_user:
  assumes "unat v + n \<le> 4294967296" "a \<in> block v n" "L \<le> unat (frame v)"
  shows "L \<le> unat (frame a)"
proof -
  have "unat v div 4096 \<le> unat a div 4096" using block_range(1)[OF assms(1,2)] by (rule div_le_mono)
  then show ?thesis using assms(3) by (simp add: frame_nat)
qed

lemma map_segment_ok:
  assumes "space_ok L s" "loadable ph" "unat (ph_vaddr ph) + unat (ph_memsz ph) + 4095 < 4294967296"
    and "L \<le> unat (frame (ph_vaddr ph))" "2 * seg_pages ph \<le> spare s"
  shows "\<exists>s'. map_segment (ph_vaddr ph) (ph_memsz ph) s = Inr (0, s') \<and> grown L s s' \<and> seg_block ph \<subseteq> data_area L s' \<and>
    spare s \<le> spare s' + 2 * seg_pages ph"
proof -
  let ?v = "ph_vaddr ph" and ?n = "ph_memsz ph"
  let ?stop = "(?v + ?n + 0xFFF) AND 0xFFFFF000"
  note lim = assms(3,4)
  have sum: "unat (?v + ?n + 0xFFF) = unat ?v + unat ?n + 4095"
    using lim(1) by (simp add: unat_add_small)
  have e: "unat ?stop = (unat ?v + unat ?n + 4095) div 4096 * 4096" using page_base_nat[of "?v + ?n + 0xFFF"] sum by (simp add: page_base_def)
  have st: "unat (?v AND 0xFFFFF000) = unat ?v div 4096 * 4096" using page_base_nat[of ?v] by (simp add: page_base_def)
  have le: "unat ?v div 4096 \<le> (unat ?v + unat ?n + 4095) div 4096" by (rule div_le_mono) simp
  then have n: "unat ?stop = unat (?v AND 0xFFFFF000) + 4096 * seg_pages ph"
    unfolding e st using assms(2) by (simp add: seg_pages_def diff_mult_distrib2 algebra_simps)
  have fr: "L \<le> unat (frame (?v AND 0xFFFFF000))" using lim(2) by (simp add: frame_nat st)
  have fuel: "seg_pages ph < Suc (unat ?stop div 4096)" using n by simp
  obtain s' where s': "map_pages (Suc (unat ?stop div 4096)) (?v AND 0xFFFFF000) ?stop s = Inr (0, s')" "grown L s s'"
    "\<And>x. unat (?v AND 0xFFFFF000) \<le> unat x \<Longrightarrow> unat x < unat ?stop \<Longrightarrow> present s' x" "spare s \<le> spare s' + 2 * seg_pages ph"
    using map_pages_ok[OF assms(1) _ fr n assms(5) fuel] by (auto simp: st)
  have "a \<in> data_area L s'" if a: "a \<in> seg_block ph" for a
  proof -
    have b: "a \<in> block ?v (unat ?n)" using a assms(2) by (simp add: seg_block_def)
    note r = block_range[OF _ b] block_user[OF _ b lim(2)]
    have "unat ?v + unat ?n \<le> unat ?stop" unfolding e by linarith
    moreover have "unat (?v AND 0xFFFFF000) \<le> unat ?v" unfolding st by simp
    ultimately have "present s' a" using r(1,2) lim(1) by (intro s'(3)) simp_all
    then show ?thesis using r(3) lim(1) by (simp add: data_area_def)
  qed
  then show ?thesis using s' by (auto simp: map_segment_def Let_def)
qed

lemma copy_segment_ok:
  assumes "sound m A" "loadable ph" "block (ph_vaddr ph) (unat (ph_memsz ph)) \<subseteq> A" "block (buf + ph_offset ph) (unat (ph_filesz ph)) \<subseteq> A"
    and "block (ph_vaddr ph) (unat (ph_memsz ph)) \<inter> block (buf + ph_offset ph) (unat (ph_filesz ph)) = {}"
  shows "\<exists>m'. copy_segment buf (ph_offset ph) (ph_vaddr ph) (ph_filesz ph) (ph_memsz ph) m = Inr m' \<and> same_tables m m' \<and>
    (\<forall>a \<in> A. ld8 m' a = (if a \<in> seg_block ph then seg_byte m buf ph a else ld8 m a))"
proof -
  let ?v = "ph_vaddr ph" and ?f = "ph_filesz ph" and ?n = "ph_memsz ph"
  let ?src = "buf + ph_offset ph"
  define c where "c = (if ?f > ?n then ?n else ?f)"
  have c: "unat c = min (unat ?f) (unat ?n)" by (auto simp: c_def word_less_nat_alt)
  have sub: "block x k \<subseteq> block x k'" if "k \<le> k'" for x k k' using that by (auto simp: mem.block_def)
  have "\<exists>m1. (if c > 0 then memcpy m ?v ?src c else Inr m) = Inr m1 \<and> same_tables m m1 \<and>
      (\<forall>b \<in> A. ld8 m1 b = (if b \<in> block ?v (unat c) then ld8 m (?src + (b - ?v)) else ld8 m b))"
  proof (cases "c > 0")
    case True
    have "block ?v (unat c) \<subseteq> block ?v (unat ?n)" "block ?src (unat c) \<subseteq> block ?src (unat ?f)"
      using sub c by simp_all
    then have sub: "block ?v (unat c) \<subseteq> A" "block ?src (unat c) \<subseteq> A" "block ?v (unat c) \<inter> block ?src (unat c) = {}"
      using assms(3-5) by blast+
    show ?thesis using True memcpy_ok[OF assms(1) sub] by simp
  next
    case False
    then have "c = 0" by (simp add: word_gt_0)
    then show ?thesis by (simp add: mem.block_def)
  qed
  then obtain m1 where m1: "(if c > 0 then memcpy m ?v ?src c else Inr m) = Inr m1" "same_tables m m1"
    "\<And>b. b \<in> A \<Longrightarrow> ld8 m1 b = (if b \<in> block ?v (unat c) then ld8 m (?src + (b - ?v)) else ld8 m b)" by blast
  have tail: "?n > ?f \<and> b \<in> block (?v + ?f) (unat (?n - ?f)) \<longleftrightarrow> unat ?f \<le> unat (b - ?v) \<and> unat (b - ?v) < unat ?n" for b
  proof -
    show ?thesis
      using tail_offset[of ?f ?n "b - ?v"] u32_bound[of "?n - ?f"] by (auto simp: block_offset word_less_nat_alt diff_diff_eq)
  qed
  have "\<exists>m2. (if ?n > ?f then memset m1 (?v + ?f) 0 (?n - ?f) else Inr m1) = Inr m2 \<and> same_tables m1 m2 \<and>
      (\<forall>b \<in> A. ld8 m2 b = (if ?n > ?f \<and> b \<in> block (?v + ?f) (unat (?n - ?f)) then Inr 0 else ld8 m1 b))"
  proof (cases "?n > ?f")
    case True
    then have "block (?v + ?f) (unat (?n - ?f)) \<subseteq> A"
      using assms(3) tail u32_bound[of ?n] by (auto simp: block_offset subset_iff)
    then show ?thesis
      using True memset_ok[OF mem.sound_keeps[OF assms(1) m1(2)], of "?v + ?f" "?n - ?f" 0] by auto
  qed auto
  then obtain m2 where m2: "(if ?n > ?f then memset m1 (?v + ?f) 0 (?n - ?f) else Inr m1) = Inr m2" "same_tables m1 m2"
    "\<And>b. b \<in> A \<Longrightarrow> ld8 m2 b = (if ?n > ?f \<and> b \<in> block (?v + ?f) (unat (?n - ?f)) then Inr 0 else ld8 m1 b)" by blast
  have mid: "b \<in> block ?v (unat c) \<longleftrightarrow> unat (b - ?v) < min (unat ?f) (unat ?n)" for b
    using u32_bound[of c] by (simp add: block_offset c)
  have seg: "b \<in> seg_block ph \<longleftrightarrow> unat (b - ?v) < unat ?n" for b
    using assms(2) u32_bound[of ?n] by (simp add: seg_block_def block_offset)
  have "ld8 m2 a = (if a \<in> seg_block ph then seg_byte m buf ph a else ld8 m a)" if "a \<in> A" for a
    unfolding m2(3)[OF that] m1(3)[OF that] tail mid seg seg_byte_def
    by (auto simp: word_less_nat_alt)
  then show ?thesis
    using m1(1,2) m2(1,2) same_tables_trans[OF m1(2) m2(2)] by (auto simp: copy_segment_def Let_def c_def)
qed

text \<open>What loading a segment does to the memory in use.\<close>

definition seg_loaded :: "nat \<Rightarrow> u32 \<Rightarrow> phdr \<Rightarrow> 'a vm_scheme \<Rightarrow> 'a vm_scheme \<Rightarrow> bool" where
  "seg_loaded L buf ph s s' \<longleftrightarrow> space_ok L s' \<and> data_area L s \<union> seg_block ph \<subseteq> data_area L s' \<and>
     (\<forall>a \<in> data_area L s \<union> seg_block ph. ld8 (mc s') a = (if a \<in> seg_block ph then seg_byte (mc s) buf ph a else ld8 (mc s) a)) \<and>
     scr s' = scr s \<and> vm.more s' = vm.more s \<and> page_direc s' = page_direc s"

text \<open>The file buffer is kernel memory in use.\<close>

definition kernel_block :: "nat \<Rightarrow> 'a vm_scheme \<Rightarrow> u32 \<Rightarrow> nat \<Rightarrow> bool" where
  "kernel_block L s buf n \<longleftrightarrow> block buf n \<subseteq> data_area L s \<and> (\<forall>a \<in> block buf n. unat (frame a) < L)"

lemma block_sub:
  assumes "c + k \<le> n"
  shows "block (buf + of_nat c) k \<subseteq> block buf n"
proof
  fix a
  assume "a \<in> block (buf + of_nat c) k"
  then obtain i where "i < k" "a = buf + of_nat (c + i)" by (auto simp: mem.block_def add.assoc)
  then show "a \<in> block buf n" using assms unfolding mem.block_def by (intro image_eqI[of _ _ "c + i"]) auto
qed

lemma seg_user: "seg_ok L fsize ph \<Longrightarrow> a \<in> seg_block ph \<Longrightarrow> L \<le> unat (frame a)"
  using block_user[of "ph_vaddr ph" "unat (ph_memsz ph)" a L] by (auto simp: seg_ok_def seg_block_def split: if_splits)

lemma load_segment_ok:
  assumes ok: "space_ok L s" and hdr: "phdr_is (mc s) h ph" and seg: "seg_ok L fsize ph"
    and room: "2 * seg_pages ph \<le> spare s" and buf: "kernel_block L s buf (unat fsize)"
  shows "\<exists>s'. load_segment buf fsize h s = Inr (0, s') \<and> seg_loaded L buf ph s s' \<and> spare s \<le> spare s' + 2 * seg_pages ph"
proof (cases "loadable ph")
  case False
  then have "load_segment buf fsize h s = Inr (0, s)"
    using hdr by (auto simp: load_segment_def phdr_is_def loadable_def)
  then show ?thesis using False ok by (auto simp: seg_loaded_def seg_block_def)
next
  case True
  obtain s1 where s1: "map_segment (ph_vaddr ph) (ph_memsz ph) s = Inr (0, s1)" "grown L s s1" "seg_block ph \<subseteq> data_area L s1"
    "spare s \<le> spare s1 + 2 * seg_pages ph"
    using map_segment_ok[OF ok True _ _ room] seg True by (auto simp: seg_ok_def)
  note g = s1(2)[unfolded grown_def]
  have sz: "unat (ph_offset ph) + unat (ph_filesz ph) \<le> unat fsize" using seg True by (simp add: seg_ok_def)
  have src: "block (buf + ph_offset ph) (unat (ph_filesz ph)) \<subseteq> block buf (unat fsize)"
    using block_sub[OF sz, of buf] by simp
  have dst: "block (ph_vaddr ph) (unat (ph_memsz ph)) = seg_block ph" using True by (simp add: seg_block_def)
  have kern: "unat (frame a) < L" if "a \<in> block (buf + ph_offset ph) (unat (ph_filesz ph))" for a
    using that src buf by (auto simp: kernel_block_def)
  have disj: "block (ph_vaddr ph) (unat (ph_memsz ph)) \<inter> block (buf + ph_offset ph) (unat (ph_filesz ph)) = {}"
    unfolding dst using seg_user[OF seg] kern by fastforce
  have d1: "block (ph_vaddr ph) (unat (ph_memsz ph)) \<subseteq> data_area L s1" using s1(3) by (simp add: dst)
  have d2: "block (buf + ph_offset ph) (unat (ph_filesz ph)) \<subseteq> data_area L s1"
    using src buf g unfolding kernel_block_def by blast
  from g have ok1: "space_ok L s1" by blast
  obtain m' where m': "copy_segment buf (ph_offset ph) (ph_vaddr ph) (ph_filesz ph) (ph_memsz ph) (mc s1) = Inr m'"
    "same_tables (mc s1) m'"
    "\<And>a. a \<in> data_area L s1 \<Longrightarrow> ld8 m' a = (if a \<in> seg_block ph then seg_byte (mc s1) buf ph a else ld8 (mc s1) a)"
    using copy_segment_ok[OF space_sound[OF ok1] True d1 d2 disj] by blast
  note sp = space_same_tables[OF ok1 m'(2)]
  have byte: "seg_byte (mc s1) buf ph a = seg_byte (mc s) buf ph a" for a
  proof (cases "a - ph_vaddr ph < ph_filesz ph")
    case True
    then have "buf + ph_offset ph + (a - ph_vaddr ph) \<in> block (buf + ph_offset ph) (unat (ph_filesz ph))"
      using u32_bound[of "ph_filesz ph"] by (simp add: block_offset word_less_nat_alt)
    then have "buf + ph_offset ph + (a - ph_vaddr ph) \<in> data_area L s"
      using src buf unfolding kernel_block_def by blast
    then show ?thesis using g by (simp add: seg_byte_def)
  qed (simp add: seg_byte_def)
  have "\<not> ph_offset ph + ph_filesz ph > fsize"
    using sz u32_bound[of fsize] by (simp add: word_less_nat_alt unat_add_small)
  moreover have "ph_type ph = 1" "ph_memsz ph \<noteq> 0" using True by (simp_all add: loadable_def)
  ultimately have run: "load_segment buf fsize h s = Inr (0, s1\<lparr>mc := m'\<rparr>)"
    using hdr s1(1) m'(1) by (simp add: load_segment_def phdr_is_def)
  have "spare (s1\<lparr>mc := m'\<rparr>) = spare s1" by (simp add: spare_def)
  then show ?thesis
    using run sp s1(3,4) g m'(3) byte by (auto simp: seg_loaded_def)
qed

section \<open>The whole program\<close>

text \<open>
  \<open>elf_image m buf fsize phoff phent phs\<close>: memory holds at \<open>buf\<close> an ELF header and, at the places
  it names, the program headers \<open>phs\<close>, all inside the \<open>fsize\<close> bytes of the file.
\<close>

definition hdr_at :: "u32 \<Rightarrow> u32 \<Rightarrow> u16 \<Rightarrow> nat \<Rightarrow> u32" where
  "hdr_at buf phoff phent i = buf + phoff + of_nat i * ucast phent"

definition elf_image :: "machine \<Rightarrow> u32 \<Rightarrow> u32 \<Rightarrow> u32 \<Rightarrow> u16 \<Rightarrow> phdr list \<Rightarrow> bool" where
  "elf_image m buf fsize phoff phent phs \<longleftrightarrow>
     52 \<le> unat fsize \<and> length phs < 65536 \<and> e_phnum m buf = Inr (of_nat (length phs)) \<and>
     e_phoff m buf = Inr phoff \<and> e_phentsize m buf = Inr phent \<and>
     (\<forall>i < length phs. unat phoff + i * unat phent + 32 \<le> unat fsize \<and> phdr_is m (hdr_at buf phoff phent i) (phs ! i))"

lemma ld_cong:
  assumes "\<And>a. a \<in> block b n \<Longrightarrow> ld8 m' a = ld8 m a"
  shows "2 \<le> n \<Longrightarrow> ld16 m' b = ld16 m b" "4 \<le> n \<Longrightarrow> ld32 m' b = ld32 m b"
proof -
  have at: "ld8 m' (b + of_nat i) = ld8 m (b + of_nat i)" if "i < n" for i
    using that by (intro assms) (auto simp: mem.block_def)
  show "ld16 m' b = ld16 m b" if "2 \<le> n"
    using that at[of 0] at[of 1] by (simp add: ld16_def)
  show "ld32 m' b = ld32 m b" if "4 \<le> n"
    using that at[of 0] at[of 1] at[of 2] at[of 3] by (simp add: ld32_def)
qed

lemma fields_cong:
  assumes "\<forall>a \<in> block buf n. ld8 m' a = ld8 m a"
  shows "c + 2 \<le> n \<Longrightarrow> ld16 m' (buf + of_nat c) = ld16 m (buf + of_nat c)"
    "c + 4 \<le> n \<Longrightarrow> ld32 m' (buf + of_nat c) = ld32 m (buf + of_nat c)"
  using ld_cong(1)[of "buf + of_nat c" 2 m' m] ld_cong(2)[of "buf + of_nat c" 4 m' m] assms block_sub[of c 2 n buf] block_sub[of c 4 n buf] by blast+

lemma phdr_is_cong:
  assumes "\<forall>a \<in> block buf n. ld8 m' a = ld8 m a" "c + 32 \<le> n"
  shows "phdr_is m' (buf + of_nat c) ph = phdr_is m (buf + of_nat c) ph"
  using fields_cong(2)[OF assms(1), where c = c] fields_cong(2)[OF assms(1), where c = "c + 4"] fields_cong(2)[OF assms(1), where c = "c + 8"]
    fields_cong(2)[OF assms(1), where c = "c + 16"] fields_cong(2)[OF assms(1), where c = "c + 20"] assms(2)
  by (simp add: phdr_is_def p_type_def p_offset_def p_vaddr_def p_filesz_def p_memsz_def add.assoc add.commute)

lemma hdr_at_nat: "hdr_at buf phoff phent i = buf + of_nat (unat phoff + i * unat phent)"
  by (simp add: hdr_at_def)

lemma image_cong:
  assumes "elf_image m buf fsize phoff phent phs" "\<forall>a \<in> block buf (unat fsize). ld8 m' a = ld8 m a"
  shows "elf_image m' buf fsize phoff phent phs"
proof -
  note im = assms(1)[unfolded elf_image_def]
  have "e_phnum m' buf = e_phnum m buf" "e_phoff m' buf = e_phoff m buf" "e_phentsize m' buf = e_phentsize m buf"
    using fields_cong[OF assms(2), where c = 28] fields_cong[OF assms(2), where c = 42] fields_cong[OF assms(2), where c = 44] im
    by (simp_all add: e_phnum_def e_phoff_def e_phentsize_def)
  moreover have "phdr_is m' (hdr_at buf phoff phent i) (phs ! i)" if "i < length phs" for i
    using im that phdr_is_cong[OF assms(2), of "unat phoff + i * unat phent"] unfolding hdr_at_nat by blast
  ultimately show ?thesis using im unfolding elf_image_def by simp
qed

definition segs_block :: "phdr list \<Rightarrow> u32 set" where
  "segs_block phs = (\<Union>ph \<in> set phs. seg_block ph)"

text \<open>No two segments overlap.\<close>

fun disjoint_segs :: "phdr list \<Rightarrow> bool" where
  "disjoint_segs [] \<longleftrightarrow> True"
| "disjoint_segs (ph # phs) \<longleftrightarrow> seg_block ph \<inter> segs_block phs = {} \<and> disjoint_segs phs"

text \<open>The program is in memory: each segment as in the file, followed by zeros, all else as before.\<close>

definition prog_loaded :: "nat \<Rightarrow> u32 \<Rightarrow> phdr list \<Rightarrow> 'a vm_scheme \<Rightarrow> 'a vm_scheme \<Rightarrow> bool" where
  "prog_loaded L buf phs s s' \<longleftrightarrow> space_ok L s' \<and> data_area L s \<union> segs_block phs \<subseteq> data_area L s' \<and>
     (\<forall>ph \<in> set phs. \<forall>a \<in> seg_block ph. ld8 (mc s') a = seg_byte (mc s) buf ph a) \<and>
     (\<forall>a \<in> data_area L s - segs_block phs. ld8 (mc s') a = ld8 (mc s) a) \<and>
     scr s' = scr s \<and> vm.more s' = vm.more s \<and> page_direc s' = page_direc s"

lemma seg_byte_cong:
  assumes "seg_ok L fsize ph" "loadable ph" "\<forall>a \<in> block buf (unat fsize). ld8 m' a = ld8 m a"
  shows "seg_byte m' buf ph a = seg_byte m buf ph a"
proof (cases "a - ph_vaddr ph < ph_filesz ph")
  case True
  have sz: "unat (ph_offset ph) + unat (ph_filesz ph) \<le> unat fsize" using assms(1,2) by (simp add: seg_ok_def)
  have "buf + ph_offset ph + (a - ph_vaddr ph) \<in> block (buf + ph_offset ph) (unat (ph_filesz ph))"
    using True u32_bound[of "ph_filesz ph"] by (simp add: block_offset word_less_nat_alt)
  then have "buf + ph_offset ph + (a - ph_vaddr ph) \<in> block buf (unat fsize)"
    using block_sub[OF sz, of buf] by auto
  then show ?thesis using assms(3) by (simp add: seg_byte_def)
qed (simp add: seg_byte_def)

lemma loaded_file:
  assumes "seg_loaded L buf ph s s'" "seg_ok L fsize ph" "kernel_block L s buf (unat fsize)"
  shows "kernel_block L s' buf (unat fsize)" "\<forall>a \<in> block buf (unat fsize). ld8 (mc s') a = ld8 (mc s) a"
proof -
  show "kernel_block L s' buf (unat fsize)" using assms(1,3) by (auto simp: kernel_block_def seg_loaded_def)
  show "\<forall>a \<in> block buf (unat fsize). ld8 (mc s') a = ld8 (mc s) a"
  proof
  fix a
  assume a: "a \<in> block buf (unat fsize)"
  then have "unat (frame a) < L" "a \<in> data_area L s" using assms(3) by (auto simp: kernel_block_def)
  moreover have "a \<notin> seg_block ph" using seg_user[OF assms(2), of a] calculation(1) by auto
  ultimately show "ld8 (mc s') a = ld8 (mc s) a" using assms(1) by (simp add: seg_loaded_def)
  qed
qed

lemma loaded_step:
  assumes one: "seg_loaded L buf ph s s1" and rest: "prog_loaded L buf phs s1 s2"
    and seg: "\<forall>q \<in> set (ph # phs). seg_ok L fsize q" and buf: "kernel_block L s buf (unat fsize)"
    and disj: "disjoint_segs (ph # phs)"
  shows "prog_loaded L buf (ph # phs) s s2"
proof -
  note lf = loaded_file(2)[OF one _ buf]
  have "ld8 (mc s2) a = seg_byte (mc s) buf q a" if q: "q \<in> set (ph # phs)" "a \<in> seg_block q" for q a
  proof (cases "q \<in> set phs")
    case True
    have "seg_byte (mc s1) buf q a = seg_byte (mc s) buf q a"
      using seg True q(2) lf by (intro seg_byte_cong[of L fsize]) (auto simp: seg_block_def split: if_splits)
    then show ?thesis using rest True q(2) by (simp add: prog_loaded_def)
  next
    case False
    then have "q = ph" using q(1) by simp
    moreover have "a \<notin> segs_block phs" using disj q(2) calculation by auto
    ultimately show ?thesis using one rest q(2) by (auto simp: seg_loaded_def prog_loaded_def)
  qed
  moreover have "ld8 (mc s2) a = ld8 (mc s) a" if "a \<in> data_area L s - segs_block (ph # phs)" for a
    using that one rest by (auto simp: seg_loaded_def prog_loaded_def segs_block_def)
  moreover have "data_area L s \<union> segs_block (ph # phs) \<subseteq> data_area L s2"
    using one rest by (auto simp: seg_loaded_def prog_loaded_def segs_block_def)
  ultimately show ?thesis using one rest unfolding prog_loaded_def seg_loaded_def by simp
qed

lemma load_segments_ok:
  assumes "space_ok L s" "elf_image (mc s) buf fsize phoff phent phs" "kernel_block L s buf (unat fsize)"
    and "\<forall>ph \<in> set phs. seg_ok L fsize ph" "k + length rest = length phs" "rest = drop k phs"
    and "disjoint_segs rest" "2 * sum_list (map seg_pages rest) \<le> spare s"
  shows "\<exists>s'. load_segments (of_nat k) buf fsize s = Inr (0, s') \<and> prog_loaded L buf rest s s'"
  using assms
proof (induction rest arbitrary: k s)
  case Nil
  then have "e_phnum (mc s) buf = Inr (of_nat k)" by (simp add: elf_image_def)
  then have "load_segments (of_nat k) buf fsize s = Inr (0, s)" by (subst load_segments.simps) simp
  then show ?case using Nil.prems(1) by (simp add: prog_loaded_def segs_block_def)
next
  case (Cons ph rest)
  have lt: "k < length phs" using Cons.prems(5) by simp
  have k: "k < length phs" "phs ! k = ph" "rest = drop (Suc k) phs"
    using lt Cons.prems(6) Cons_nth_drop_Suc[OF lt, symmetric] by simp_all
  have len: "length phs < 65536" using Cons.prems(2) by (simp add: elf_image_def)
  have hdr: "phdr_is (mc s) (hdr_at buf phoff phent k) ph" using Cons.prems(2) k by (auto simp: elf_image_def)
  have seg: "seg_ok L fsize ph" using Cons.prems(4) k nth_mem by blast
  obtain s1 where s1: "load_segment buf fsize (hdr_at buf phoff phent k) s = Inr (0, s1)" "seg_loaded L buf ph s s1"
    "spare s \<le> spare s1 + 2 * seg_pages ph"
    using load_segment_ok[OF Cons.prems(1) hdr seg _ Cons.prems(3)] Cons.prems(8) by auto
  note lf = loaded_file[OF s1(2) seg Cons.prems(3)]
  have ok1: "space_ok L s1" using s1(2) by (simp add: seg_loaded_def)
  obtain s2 where s2: "load_segments (of_nat (Suc k)) buf fsize s1 = Inr (0, s2)" "prog_loaded L buf rest s1 s2"
  proof -
    have "Suc k + length rest = length phs" "disjoint_segs rest" "2 * sum_list (map seg_pages rest) \<le> spare s1"
      using Cons.prems(5,7,8) s1(3) by simp_all
    from Cons.IH[OF ok1 image_cong[OF Cons.prems(2) lf(2)] lf(1) Cons.prems(4) this(1) k(3) this(2,3)] that show ?thesis by blast
  qed
  have segs: "\<forall>q \<in> set (ph # rest). seg_ok L fsize q" using Cons.prems(4,6) set_drop_subset[of k phs] by auto
  have loaded: "prog_loaded L buf (ph # rest) s s2"
    by (rule loaded_step[OF s1(2) s2(2) segs Cons.prems(3,7)])
  have i: "unat (of_nat k :: u16) = k" "unat (of_nat (length phs) :: u16) = length phs" using k(1) len by (simp_all add: unat_of_nat)
  then have lt: "(of_nat k :: u16) < of_nat (length phs)" using k(1) by (simp add: word_less_nat_alt)
  have c: "ucast (of_nat k :: u16) = (of_nat k :: u32)" using i(1) k(1) len by (simp only: word_unat_eq_iff unat_widen) (simp add: unat_of_nat)
  have hd: "e_phnum (mc s) buf = Inr (of_nat (length phs))" "e_phoff (mc s) buf = Inr phoff" "e_phentsize (mc s) buf = Inr phent"
    using Cons.prems(2) by (simp_all add: elf_image_def)
  have "load_segments (of_nat k) buf fsize s = Inr (0, s2)"
    using s1(1) s2(1) lt hd by (simp add: load_segments.simps[of "of_nat k"] c hdr_at_def algebra_simps)
  then show ?case using loaded by blast
qed

section \<open>A small program\<close>

text \<open>One segment of eight bytes at 0x8048000, four of them in the file.\<close>

definition w16 :: "nat \<Rightarrow> u8 list" where
  "w16 n = [of_nat (n mod 256), of_nat (n div 256 mod 256)]"

definition w32 :: "nat \<Rightarrow> u8 list" where
  "w32 n = w16 (n mod 65536) @ w16 (n div 65536)"

definition elf_file :: "nat \<Rightarrow> nat \<Rightarrow> u8 list" where
  "elf_file off filesz = [0x7F, 69, 76, 70] @ replicate 12 0 @ w16 2 @ w16 3 @ w32 1 @ w32 0x8048000 @ w32 52 @ w32 0 @ w32 0 @
     w16 52 @ w16 32 @ w16 1 @ w16 0 @ w16 0 @ w16 0 @
     w32 1 @ w32 off @ w32 0x8048000 @ w32 0x8048000 @ w32 filesz @ w32 (filesz + 4) @ w32 5 @ w32 4096 @ [1, 2, 3, 4]"

lemma elf_file_length: "length (elf_file off filesz) = 88"
  by (simp add: elf_file_def w16_def w32_def)

text \<open>The file is in frame 0 of the sample machine.\<close>

definition elf_vm :: "nat \<Rightarrow> nat \<Rightarrow> vm" where
  "elf_vm off filesz = with_phys sample_vm (\<lambda>a. if unat a < 88 then elf_file off filesz ! unat a else phys (mc sample_vm) a)"

lemma sample_tables: "tables sample_vm \<subseteq> {1, 2}"
  by (auto simp: table_frames_def sample_vm_def sample_dir frame_def split: if_splits)

lemma sample_space_ok: "space_ok 1024 sample_vm"
proof -
  have "\<not> present sample_vm x" if "1024 \<le> unat (frame x)" for x
    using that by (simp add: sample_ptes frame_nat)
  then show ?thesis using sample_paging_ok by (auto simp: space_ok_def)
qed

lemma elf_same_tables: "same_tables (mc sample_vm) (mc (elf_vm off filesz))"
proof -
  have "\<not> unat x < 88" if "frame x \<in> tables sample_vm" for x
  proof -
    have "frame x = 1 \<or> frame x = 2" using that sample_tables by auto
    then have "unat x div 4096 = 1 \<or> unat x div 4096 = 2" using frame_nat[of x] by auto
    then show ?thesis by auto
  qed
  moreover have "cr3 (mc sample_vm) = page_direc sample_vm" by (simp add: sample_vm_def)
  ultimately show ?thesis by (auto simp: same_tables_def elf_vm_def)
qed

lemma elf_space_ok: "space_ok 1024 (elf_vm off filesz)"
  and elf_data: "data_area 1024 (elf_vm off filesz) = data_area 1024 sample_vm"
  and elf_spare: "spare (elf_vm off filesz) = spare sample_vm"
proof -
  have eq: "elf_vm off filesz = sample_vm\<lparr>mc := mc (elf_vm off filesz)\<rparr>" by (simp add: elf_vm_def)
  show "space_ok 1024 (elf_vm off filesz)" "data_area 1024 (elf_vm off filesz) = data_area 1024 sample_vm"
    using space_same_tables[OF sample_space_ok elf_same_tables, of off filesz] by (subst eq, simp)+
  show "spare (elf_vm off filesz) = spare sample_vm" by (simp add: spare_def elf_vm_def)
qed

lemma elf_buffer: "kernel_block 1024 (elf_vm off filesz) 0 88"
proof -
  have "a \<in> data_area 1024 sample_vm \<and> unat (frame a) < 1024" if "a \<in> block 0 88" for a
  proof -
    have "unat a < 88" using that by (simp add: block_offset)
    then have "frame a = 0" by (simp add: word_unat_eq_iff frame_nat)
    moreover have "0 \<in> used_frames (pm sample_vm)" using sample_paging_ok by (simp add: paging_ok_def)
    moreover have "(0 :: u32) \<notin> tables sample_vm" using sample_tables by auto
    moreover have "\<not> present sample_vm x" if "1024 \<le> unat (frame x)" for x
      using that by (simp add: sample_ptes frame_nat)
    ultimately show ?thesis by (auto simp: data_area_def)
  qed
  then show ?thesis unfolding kernel_block_def elf_data by blast
qed

lemma elf_ld8: "i < 88 \<Longrightarrow> ld8 (mc (elf_vm off filesz)) (of_nat i) = Inr (elf_file off filesz ! i)"
proof -
  assume i: "i < 88"
  then have "unat (of_nat i :: u32) = i" by (simp add: unat_of_nat)
  moreover have "translate (mc (elf_vm off filesz)) (of_nat i) = Inr (of_nat i)"
    using i by (intro window_identity[OF space_paging[OF elf_space_ok]]) (simp add: frame_nat unat_of_nat)
  ultimately show ?thesis using i by (simp add: ld8_def elf_vm_def)
qed

lemma elf_ld16: "i + 1 < 88 \<Longrightarrow> ld16 (mc (elf_vm off filesz)) (of_nat i) = Inr (le16 (elf_file off filesz ! i) (elf_file off filesz ! (i + 1)))"
  using elf_ld8[of i] elf_ld8[of "i + 1"] by (simp add: ld16_def add.commute)

lemma elf_ld32: "i + 3 < 88 \<Longrightarrow> ld32 (mc (elf_vm off filesz)) (of_nat i) =
    Inr (le32 (elf_file off filesz ! i) (elf_file off filesz ! (i + 1)) (elf_file off filesz ! (i + 2)) (elf_file off filesz ! (i + 3)))"
  using elf_ld8[of i] elf_ld8[of "i + 1"] elf_ld8[of "i + 2"] elf_ld8[of "i + 3"] by (simp add: ld32_def add.commute)

definition elf_seg :: "nat \<Rightarrow> nat \<Rightarrow> phdr" where
  "elf_seg off filesz = \<lparr>ph_type = 1, ph_offset = of_nat off, ph_vaddr = 0x8048000, ph_filesz = of_nat filesz, ph_memsz = of_nat filesz + 4\<rparr>"

lemma elf_bytes: "elf_file 84 4 = [0x7F, 69, 76, 70, 0, 0, 0, 0, 0, 0, 0, 0, 0, 0, 0, 0, 2, 0, 3, 0, 1, 0, 0, 0, 0, 128, 4, 8,
    52, 0, 0, 0, 0, 0, 0, 0, 0, 0, 0, 0, 52, 0, 32, 0, 1, 0, 0, 0, 0, 0, 0, 0,
    1, 0, 0, 0, 84, 0, 0, 0, 0, 128, 4, 8, 0, 128, 4, 8, 4, 0, 0, 0, 8, 0, 0, 0, 5, 0, 0, 0, 0, 16, 0, 0, 1, 2, 3, 4]"
proof -
  have "replicate 12 (0 :: u8) = [0, 0, 0, 0, 0, 0, 0, 0, 0, 0, 0, 0]" by (simp add: numeral_eq_Suc)
  then show ?thesis by (simp add: elf_file_def w16_def w32_def)
qed

lemma elf_fields:
  "elf_magic (mc (elf_vm 84 4)) 0 = Inr True" "e_type (mc (elf_vm 84 4)) 0 = Inr 2" "e_entry (mc (elf_vm 84 4)) 0 = Inr 0x8048000"
  "e_phoff (mc (elf_vm 84 4)) 0 = Inr 52" "e_phentsize (mc (elf_vm 84 4)) 0 = Inr 32" "e_phnum (mc (elf_vm 84 4)) 0 = Inr 1"
  "phdr_is (mc (elf_vm 84 4)) 52 (elf_seg 84 4)"
  using elf_ld8[of 0 84 4] elf_ld8[of 1 84 4] elf_ld8[of 2 84 4] elf_ld8[of 3 84 4]
    elf_ld16[of 16 84 4] elf_ld32[of 24 84 4] elf_ld32[of 28 84 4] elf_ld16[of 42 84 4] elf_ld16[of 44 84 4]
    elf_ld32[of 52 84 4] elf_ld32[of 56 84 4] elf_ld32[of 60 84 4] elf_ld32[of 68 84 4] elf_ld32[of 72 84 4]
  unfolding elf_bytes
  by (simp_all add: elf_magic_def e_type_def e_entry_def e_phoff_def e_phentsize_def e_phnum_def phdr_is_def elf_seg_def
      p_type_def p_offset_def p_vaddr_def p_filesz_def p_memsz_def le16_def le32_def)

section \<open>Properties\<close>

text \<open>
  C7: loading an ELF program. For a well-formed image in a kernel buffer, whose segments lie
  above the identity window and do not overlap, and with two spare frames for each of their
  pages, load_elf_program succeeds: it answers the entry point, every segment holds the bytes of
  the file followed by zeros, every other byte in use is as before, and the invariant of the
  address space holds again.
\<close>

theorem load_elf_program_loads:
  assumes "space_ok L s" "elf_image (mc s) buf fsize phoff phent phs" "kernel_block L s buf (unat fsize)"
    and "elf_magic (mc s) buf = Inr True" "e_type (mc s) buf = Inr 2" "e_entry (mc s) buf = Inr ent" "phs \<noteq> []"
    and "unat phoff + length phs * unat phent \<le> unat fsize"
    and "\<forall>ph \<in> set phs. seg_ok L fsize ph" "disjoint_segs phs" "2 * sum_list (map seg_pages phs) \<le> spare s"
  shows "\<exists>s'. load_elf_program buf fsize e0 s = Inr (0, ent, s') \<and> prog_loaded L buf phs s s'"
proof -
  note im = assms(2)[unfolded elf_image_def]
  obtain s' where s': "load_segments 0 buf fsize s = Inr (0, s')" "prog_loaded L buf phs s s'"
    using load_segments_ok[OF assms(1-3,9), of 0 phs] assms(10,11) by auto
  have n: "unat (of_nat (length phs) :: u16) = length phs" using im by (simp add: unat_of_nat)
  then have "(of_nat (length phs) :: u16) \<noteq> 0" using assms(7) by (metis length_0_conv unat_0)
  moreover have "\<not> fsize < 52" using im by (simp add: word_less_nat_alt)
  moreover have "\<not> phoff + ucast (of_nat (length phs) :: u16) * ucast phent > fsize"
  proof -
    have b: "length phs * unat phent < 4294967296" using assms(8) u32_bound[of fsize] by linarith
    then have "unat (ucast (of_nat (length phs) :: u16) * ucast phent :: u32) = length phs * unat phent"
      by (simp add: unat_word_ariths n)
    then have "unat (phoff + ucast (of_nat (length phs) :: u16) * ucast phent) = unat phoff + length phs * unat phent"
      using assms(8) u32_bound[of fsize] by (simp add: unat_add_small)
    then show ?thesis using assms(8) by (simp add: word_less_nat_alt)
  qed
  ultimately have "load_elf_program buf fsize e0 s = Inr (0, ent, s')"
    using im assms(4-6) s'(1) by (simp add: load_elf_program_def)
  then show ?thesis using s'(2) by blast
qed

lemma sample_spare: "4 \<le> spare sample_vm"
proof -
  have "{3, 4, 5, 6} \<subseteq> {f \<in> free_frames (pm sample_vm). f < unat (max_frames (pm sample_vm))}"
    by (simp add: sample_vm_def sample_pmm_def pmm_boot_def used_frames_def free_frames_def NFRAMES_def bit_Suc)
  then have "card {3, 4, 5, 6 :: nat} \<le> spare sample_vm"
    unfolding spare_def by (intro card_mono) (simp_all add: free_frames_def)
  then show ?thesis by simp
qed

theorem load_elf_program_loads_witness:
  "\<exists>s'. load_elf_program 0 88 0 (elf_vm 84 4) = Inr (0, 0x8048000, s') \<and> prog_loaded 1024 0 [elf_seg 84 4] (elf_vm 84 4) s'"
proof (rule load_elf_program_loads)
  show "elf_image (mc (elf_vm 84 4)) 0 88 52 32 [elf_seg 84 4]"
    using elf_fields by (simp add: elf_image_def hdr_at_def)
  show "kernel_block 1024 (elf_vm 84 4) 0 (unat (88 :: u32))" using elf_buffer by simp
  have load: "loadable (elf_seg 84 4)" by (simp add: elf_seg_def loadable_def)
  show "\<forall>ph \<in> set [elf_seg 84 4]. seg_ok 1024 88 ph"
    using load by (simp add: seg_ok_def elf_seg_def frame_nat)
  show "2 * sum_list (map seg_pages [elf_seg 84 4]) \<le> spare (elf_vm 84 4)"
    using sample_spare load unfolding elf_spare by (simp add: seg_pages_def elf_seg_def)
  show "disjoint_segs [elf_seg 84 4]" by (simp add: segs_block_def)
qed (simp_all add: elf_space_ok elf_fields)

text \<open>
  What is not an ELF program is refused. A file shorter than the ELF header, one without the
  magic bytes, and one that is not an executable are answered with -1, and nothing changes.
\<close>

theorem load_elf_program_rejects:
  assumes "fsize < 52 \<or> elf_magic (mc s) buf = Inr False \<or>
    elf_magic (mc s) buf = Inr True \<and> (\<exists>t. e_type (mc s) buf = Inr t \<and> t \<noteq> 2) \<or>
    elf_magic (mc s) buf = Inr True \<and> e_type (mc s) buf = Inr 2 \<and> e_phnum (mc s) buf = Inr 0"
  shows "load_elf_program buf fsize e0 s = Inr (- 1, e0, s)"
  using assms by (auto simp: load_elf_program_def)

theorem load_elf_program_rejects_witness:
  "load_elf_program 0 51 7 (elf_vm 84 4) = Inr (- 1, 7, elf_vm 84 4)"
  by (rule load_elf_program_rejects) simp


definition bad_seg :: phdr where
  "bad_seg = \<lparr>ph_type = 1, ph_offset = 0xFFFFF000, ph_vaddr = 0x8048000, ph_filesz = 0x1000, ph_memsz = 0x1004\<rparr>"

lemma bad_bytes: "drop 52 (elf_file 0xFFFFF000 0x1000) =
  [1, 0, 0, 0, 0, 0xF0, 0xFF, 0xFF, 0, 128, 4, 8, 0, 128, 4, 8, 0, 16, 0, 0, 4, 16, 0, 0, 5, 0, 0, 0, 0, 16, 0, 0, 1, 2, 3, 4]"
  by (simp add: elf_file_def w16_def w32_def)

lemma bad_field: "52 + i < 88 \<Longrightarrow> elf_file 0xFFFFF000 0x1000 ! (52 + i) = drop 52 (elf_file 0xFFFFF000 0x1000) ! i"
  by (simp add: elf_file_length)

lemma bad_phdr: "phdr_is (mc (elf_vm 0xFFFFF000 0x1000)) 52 bad_seg"
proof -
  let ?f = "elf_file 0xFFFFF000 0x1000"
  have f: "52 + i + 3 < 88 \<Longrightarrow> ld32 (mc (elf_vm 0xFFFFF000 0x1000)) (of_nat (52 + i)) =
      Inr (le32 (drop 52 ?f ! i) (drop 52 ?f ! (i + 1)) (drop 52 ?f ! (i + 2)) (drop 52 ?f ! (i + 3)))" for i
    using elf_ld32[of "52 + i" "0xFFFFF000" "0x1000"] bad_field[of i] bad_field[of "i + 1"] bad_field[of "i + 2"] bad_field[of "i + 3"]
    by (simp add: add.assoc)
  show ?thesis
    using f[of 0] f[of 4] f[of 8] f[of 16] f[of 20] unfolding bad_bytes
    by (simp add: phdr_is_def bad_seg_def p_type_def p_offset_def p_vaddr_def p_filesz_def p_memsz_def le32_def)
qed


end
