(* ===== verification/Tasks.thy ===== *)
theory Tasks
  imports Syscall Elf
begin

text \<open>
  Programs as processes: task_create_from_elf of src/src/process.c, enter_user_program of
  src/src/keyboard.c and the scheduler of src/src/scheduler.c. A process structure is a block of
  kernel memory, which is cleared there, and at the same time a value in the typed heap of the
  process table, on which the other operations work.
\<close>

section \<open>Operations\<close>

text \<open>What runs the kernel: fuel for its loops, the user program, and the processor at a jump to user mode.\<close>

record env =
  fuel :: nat
  user_prog :: user
  cpu_state :: cpu

text \<open>fat16_read_file into a buffer in memory.\<close>

definition read_file_to ::
  "env \<Rightarrow> u8 list \<Rightarrow> u8 list \<Rightarrow> u32 \<Rightarrow> u32 \<Rightarrow> 'a kernel_scheme \<Rightarrow> (int \<times> 'a kernel_scheme) res" where
  "read_file_to e name8 ext3 buf max_size s =
     bindE (fat16_read_file (fuel e) name8 ext3 max_size s) (\<lambda>(r, bs, s1).
     bindE (copy_out (length bs) 0 buf bs (mc s1)) (\<lambda>m. Inr (r, s1\<lparr>mc := m\<rparr>)))"

definition kalloc_a :: "u32 \<Rightarrow> 'a platform_scheme \<Rightarrow> (u32 \<times> 'a platform_scheme) res" where
  "kalloc_a sz s = bindE (kmalloc_a sz (pm s)) (\<lambda>(a, p). Inr (a, s\<lparr>pm := p\<rparr>))"

definition palloc :: "'a platform_scheme \<Rightarrow> (u32 \<times> 'a platform_scheme) res" where
  "palloc s = bindE (pmm_alloc_block (pm s)) (\<lambda>(a, p). Inr (a, s\<lparr>pm := p\<rparr>))"

definition kmemset :: "u32 \<Rightarrow> u8 \<Rightarrow> u32 \<Rightarrow> 'a platform_scheme \<Rightarrow> ('a platform_scheme) res" where
  "kmemset dest val n s = bindE (memset (mc s) dest val n) (\<lambda>m. Inr (s\<lparr>mc := m\<rparr>))"

text \<open>\<open>sizeof(struct process)\<close>: seventeen words, and eight descriptors of 24 bytes.\<close>

definition sizeof_process :: u32 where "sizeof_process = 260"

definition new_process :: "u32 \<Rightarrow> u32 \<Rightarrow> process" where
  "new_process n ent = zero_process\<lparr>pid := n, pstate := PROC_NEW, entry := ent, esp := 0x80000FFC, user_stack_top := 0x80000FFC,
     kernel_stack := 0, page_dir := 0, next_p := 0\<rparr>"

text \<open>The second half: the user stack, the process structure and its entry in the ready queue.\<close>

definition task_finish :: "u32 \<Rightarrow> u32 \<Rightarrow> 'a kernel_scheme \<Rightarrow> (int \<times> u32 \<times> 'a kernel_scheme) res" where
  "task_finish ent pid_out s =
     bindE (palloc s) (\<lambda>(stack_phys, s1). if stack_phys = 0 then Inr (- 1, pid_out, s1) else
     bindE (map_page stack_phys 0x80000000 7 s1) (\<lambda>s2.
     bindE (kmemset 0x80000000 0 4096 s2) (\<lambda>s3.
     bindE (kalloc_a sizeof_process s3) (\<lambda>(p, s4). if p = 0 then Inr (- 1, pid_out, s4) else
     bindE (kmemset p 0 sizeof_process s4) (\<lambda>s5.
       let q0 = ps s5;
           n = next_pid q0;
           q1 = q0\<lparr>heap := (heap q0)(p := new_process n ent), next_pid := n + 1\<rparr>;
           s6 = s5\<lparr>ps := proc_enqueue p q1\<rparr>;
           s7 = kprint_int (kprint s6 (bytes ''[process] created pid='')) (sint n);
           s8 = kprint_hex (kprint s7 (bytes '' entry=0x'')) ent
       in Inr (0, n, kprint s8 (bytes '' state=READY\<newline>'')))))))"

definition task_create_from_elf :: "env \<Rightarrow> u8 list option \<Rightarrow> u32 \<Rightarrow> 'a kernel_scheme \<Rightarrow> (int \<times> u32 \<times> 'a kernel_scheme) res" where
  "task_create_from_elf e path pid_out s =
     (case path of
        None \<Rightarrow> Inr (- 1, pid_out, s)
      | Some pth \<Rightarrow>
          (let (name8, ext3) = fat16_format_83 pth
           in bindE (kalloc_a 4096 s) (\<lambda>(buf, s1). if buf = 0 then Inr (- 1, pid_out, s1) else
              bindE (read_file_to e name8 ext3 buf 4096 s1) (\<lambda>(n, s2). if n < 0 then Inr (- 1, pid_out, s2) else
              bindE (if n < 4 then Inr False else elf_magic (mc s2) buf) (\<lambda>magic. if \<not> magic then Inr (- 1, pid_out, s2) else
              bindE (load_elf_program buf (word_of_int n) 0 s2) (\<lambda>(r, ent, s3). if r < 0 then Inr (- 1, pid_out, s3) else
              task_finish ent pid_out s3))))))"

definition enter_user_program :: "env \<Rightarrow> u32 \<Rightarrow> 'a kernel_scheme \<Rightarrow> ('a kernel_scheme) res" where
  "enter_user_program e user_entry s =
     bindE (palloc s) (\<lambda>(stack_phys, s1).
       if stack_phys = 0 then Inr (kprint s1 (bytes ''run: out of physical memory for user stack\<newline>''))
       else
         bindE (map_page stack_phys 0x80000000 7 s1) (\<lambda>s2.
         bindE (kmemset 0x80000000 0 4096 s2) (\<lambda>s3.
           let s4 = kprint (kprint_hex (kprint s3 (bytes ''jumping to ring 3 at 0x'')) user_entry) (bytes ''...\<newline>'')
           in bindE (jump_to_usermode (fuel e) (user_prog e) (cpu_state e) 0x80000FFC user_entry s4) (\<lambda>s5.
                Inr (kprint s5 (bytes ''Program exited.\<newline>''))))))"

definition schedule :: "env \<Rightarrow> 'a kernel_scheme \<Rightarrow> ('a kernel_scheme) res" where
  "schedule e s =
     (let curr = get_curr_proc (ps s);
          q1 = (if curr \<noteq> 0 \<and> pstate (heap (ps s) curr) = PROC_RUNNING then proc_enqueue curr (ps s) else ps s);
          (nxt, q2) = proc_dequeue q1;
          s1 = s\<lparr>ps := q2\<rparr>
      in if nxt = 0 then Inr s1
         else
           (let p = heap q2 nxt;
                s2 = kprint_int (kprint s1 (bytes ''[sched] switching to pid='')) (sint (pid p));
                s3 = kprint (kprint_hex (kprint s2 (bytes '' entry=0x'')) (entry p)) (bytes ''\<newline>'')
            in jump_to_usermode (fuel e) (user_prog e) (cpu_state e)
                 (if user_stack_top p \<noteq> 0 then user_stack_top p else esp p) (entry p) s3))"

definition yeild_kernel :: "env \<Rightarrow> 'a kernel_scheme \<Rightarrow> ('a kernel_scheme) res" where
  "yeild_kernel e s = schedule e s"

section \<open>Allocation and clearing\<close>

lemma kprint_views [simp]:
  "mc (kprint s x) = mc s" "ps (kprint_int s i) = ps s" "ps (kprint_hex s w) = ps s"
  "mc (s\<lparr>ps := q\<rparr>) = mc s" "mc (s\<lparr>pm := p\<rparr>) = mc s"
  by (simp_all add: kprint_def kprint_int_def kprint_hex_def)

text \<open>The least free frame is the one that is handed out.\<close>

lemma alloc_least:
  assumes "pmm_ok p" "f \<in> free_frames p" "\<forall>g \<in> free_frames p. f \<le> g" "f < unat (max_frames p)"
  shows "\<exists>p'. pmm_alloc_block p = Inr (boot_frame f, p')"
  using assms(1)
proof (cases rule: pmm_alloc_cases)
  case full
  then show ?thesis using assms(2,4) by (auto simp: not_le)
next
  case (frame g)
  then have "g = f" using assms(2,3) by (auto intro: antisym)
  then show ?thesis using frame(1) by (auto simp: boot_frame_def)
qed

lemma alloc_some:
  assumes "pmm_ok p" "0 \<in> used_frames p" "\<exists>f \<in> free_frames p. f < unat (max_frames p)"
  shows "\<exists>a p'. pmm_alloc_block p = Inr (a, p') \<and> a \<noteq> 0"
  using assms(1)
proof (cases rule: pmm_alloc_cases)
  case full
  then show ?thesis using assms(3) by (auto simp: not_le)
next
  case (frame f)
  have "f < NFRAMES" "f \<noteq> 0" using frame(2) assms(2) by (auto simp: free_frames_def intro: gr0I)
  then have "of_nat f * 4096 \<noteq> (0 :: u32)" using frame_addr_nat(1)[of f] by auto
  then show ?thesis using frame(1) by blast
qed

text \<open>The user stack: a fresh page at 0x80000000, cleared.\<close>

lemma stack_ok:
  assumes "space_ok L s" "L \<le> 0x80000" "\<not> present s 0x80000000" "1 < spare s"
  shows "\<exists>g s1 s2 m. palloc s = Inr (g, s1) \<and> g \<noteq> 0 \<and> map_page g 0x80000000 7 s1 = Inr s2 \<and>
    kmemset 0x80000000 0 4096 s2 = Inr (s2\<lparr>mc := m\<rparr>) \<and> space_ok L (s2\<lparr>mc := m\<rparr>) \<and>
    (\<forall>x. frame x \<noteq> 0x80000 \<longrightarrow> ptes (s2\<lparr>mc := m\<rparr>) x = ptes s x) \<and> free_mem_addr (pm s2) = free_mem_addr (pm s) \<and>
    vm.more s2 = vm.more s"
proof -
  have pok: "pmm_ok (pm s)" "0 \<in> used_frames (pm s)" using space_paging[OF assms(1)] by (simp_all add: paging_ok_def)
  have "\<exists>f \<in> free_frames (pm s). f < unat (max_frames (pm s))" using assms(4) spare_pos[of s] by simp
  then obtain g p where g: "pmm_alloc_block (pm s) = Inr (g, p)" "g \<noteq> 0" using alloc_some[OF pok] by blast
  have fr: "frame 0x80000000 = 0x80000" by (simp add: frame_def)
  have L: "L \<le> unat (frame 0x80000000)" using assms(2) by (simp add: fr)
  obtain s2 where s2: "map_page g 0x80000000 7 (s\<lparr>pm := p\<rparr>) = Inr s2" "grown L s s2" "present s2 0x80000000"
    "\<And>x. ptes s2 x = (if frame x = frame 0x80000000 then g OR 7 OR 1 else ptes s x)"
    using map_fresh[OF assms(1) g L assms(3,4)] by blast
  have ok2: "space_ok L s2" using s2(2) by (simp add: grown_def)
  have blk: "block 0x80000000 (unat (4096 :: u32)) \<subseteq> data_area L s2"
  proof
    fix a
    assume "a \<in> block 0x80000000 (unat (4096 :: u32))"
    then have "0x80000000 \<le> unat a \<and> unat a < 0x80001000" using block_range[of "0x80000000" 4096 a] by simp
    then have "unat a div 4096 = 524288" by linarith
    then have "frame a = frame 0x80000000" by (simp add: word_unat_eq_iff frame_nat)
    then show "a \<in> data_area L s2" using s2(3) L ptes_cong[of a "0x80000000" s2] by (simp add: data_area_def)
  qed
  obtain m where m: "memset (mc s2) 0x80000000 0 4096 = Inr m" "same_tables (mc s2) m"
    using memset_ok[OF space_sound[OF ok2] blk] by blast
  note sp = space_same_tables[OF ok2 m(2)]
  have "free_mem_addr (pm s2) = free_mem_addr p"
    using map_page_bump[OF s2(1)] pmm.alloc_ok[OF pok(1) g(1)] by simp
  then have "free_mem_addr (pm s2) = free_mem_addr (pm s)" using alloc_bump[OF pok(1) g(1)] by simp
  then show ?thesis
    using g s2 m(1) sp fr by (auto simp: palloc_def kmemset_def grown_def)
qed

text \<open>Clearing a block of a frame that the kernel reaches through its window.\<close>

lemma window_clear:
  assumes "space_ok L s" "f < NFRAMES" "f < L" "frame (boot_frame f) \<notin> tables s" "unat n \<le> 4096"
  shows "\<exists>m. memset (mc s) (boot_frame f) 0 n = Inr m \<and> same_tables (mc s) m \<and>
    (\<forall>i < unat n. phys m (boot_frame f + of_nat i) = 0)"
proof -
  have fr: "frame (boot_frame f + of_nat i) = frame (boot_frame f)" if "i < 4096" for i
  proof -
    have "unat (boot_frame f + of_nat i) = f * 4096 + i"
      using boot_frame_nat[OF assms(2)] assms(2) that by (subst unat_add_small) (simp_all add: unat_of_nat NFRAMES_def)
    then show ?thesis using boot_frame_nat[OF assms(2)] that by (simp add: word_unat_eq_iff frame_nat)
  qed
  have tr: "translate (mc s) (boot_frame f + of_nat i) = Inr (boot_frame f + of_nat i)" if "i < unat n" for i
    using fr[of i] that assms(3,5) boot_frame_props(2)[OF assms(2)] by (intro window_identity[OF space_paging[OF assms(1)]]) simp
  have on: "cr3 (mc s) = page_direc s" using space_paging[OF assms(1)] by (simp add: paging_ok_def)
  have "data_at (mc s) (boot_frame f + of_nat i)" if "i < unat n" for i
    using tr[OF that] fr[of i] that assms(4,5) on by (simp add: data_at_def)
  then obtain m where m: "memset_loop (unat n) (mc s) (boot_frame f) 0 = Inr m" "same_tables (mc s) m"
    "\<And>a. phys m a = (if \<exists>i < unat n. translate (mc s) (boot_frame f + of_nat i) = Inr a then 0 else phys (mc s) a)"
    using memset_loop_ok[of "unat n" "mc s" "boot_frame f" 0] by blast
  have "phys m (boot_frame f + of_nat i) = 0" if "i < unat n" for i using m(3) tr[OF that] that by auto
  then show ?thesis using m(1,2) by (simp add: memset_def)
qed

text \<open>The byte at an offset of a page lies at the offset of its frame.\<close>

lemma page_byte:
  assumes "space_ok L s" "present s va" "page_base (ptes s va) = F" "i < 4096"
  shows "translate (mc s) (page_base va + of_nat i) = Inr (F + of_nat i)"
proof -
  have off: "(of_nat i :: u32) AND 0xFFF = of_nat i" using assms(4) by (simp add: word_unat_eq_iff page_mask_nat unat_of_nat)
  then have a: "frame (page_base va + of_nat i) = frame va" "(page_base va + of_nat i) AND 0xFFF = of_nat i"
    using frame_addr[of va "of_nat i"] offset_addr[of va "of_nat i"] by simp_all
  show ?thesis
    using paging_translate[OF space_paging[OF assms(1)], of "page_base va + of_nat i"] ptes_cong[OF a(1), of s] assms(2,3) a(2) by simp
qed

text \<open>task\_finish on a page whose frame the bump allocator hands out next.\<close>

lemma finish_clears:
  assumes "space_ok L s" "L \<le> 0x80000" "L \<le> unat (frame va)" "frame va \<noteq> 0x80000" "ptes s va = boot_frame f OR 7 OR 1"
    and "bump_addr (pm s) = boot_frame f" and f: "f < NFRAMES" "f \<noteq> 0" "f < L" and "\<not> present s 0x80000000" "1 < spare s"
  shows "\<exists>n s2. task_finish ent pid0 s = Inr (0, n, s2) \<and> (\<forall>i < 260. ld8 (mc s2) (page_base va + of_nat i) = Inr 0)"
proof -
  obtain g t s2 m where st: "palloc s = Inr (g, t)" "g \<noteq> 0" "map_page g 0x80000000 7 t = Inr s2"
    "kmemset 0x80000000 0 4096 s2 = Inr (s2\<lparr>mc := m\<rparr>)" "space_ok L (s2\<lparr>mc := m\<rparr>)"
    "\<And>x. frame x \<noteq> 0x80000 \<Longrightarrow> ptes (s2\<lparr>mc := m\<rparr>) x = ptes s x" "free_mem_addr (pm s2) = free_mem_addr (pm s)"
    using stack_ok[OF assms(1,2)] assms(10,11) by auto
  let ?s3 = "s2\<lparr>mc := m\<rparr>"
  have va: "ptes ?s3 va = boot_frame f OR 7 OR 1" using st(6)[OF assms(4)] assms(5) by simp
  have "bump_addr (pm ?s3) = bump_addr (pm s)" using st(7) by (simp add: bump_addr_def)
  then have bump: "bump_addr (pm ?s3) = boot_frame f" using assms(6) by simp
  have pok3: "pmm_ok (pm ?s3)" using space_paging[OF st(5)] by (simp add: paging_ok_def)
  have le: "unat (bump_addr (pm ?s3)) + unat sizeof_process \<le> NFRAMES * 4096"
    using f(1) boot_frame_nat[OF f(1)] bump by (simp add: sizeof_process_def NFRAMES_def)
  obtain p4 where p4: "kmalloc_a sizeof_process (pm ?s3) = Inr (boot_frame f, p4)"
    using kmalloc_a_eq[OF pok3 _ le] bump by (auto simp: sizeof_process_def)
  have fu: "frame (boot_frame f OR 7 OR 1) = frame (boot_frame f)" by (rule frame_or_flags)
  have pr: "present ?s3 va" using va by (simp add: present_or)
  then have "frame (boot_frame f) \<notin> tables ?s3" using st(5) assms(3) va fu unfolding space_ok_def by metis
  then obtain m5 where m5: "memset m (boot_frame f) 0 sizeof_process = Inr m5" "same_tables (mc ?s3) m5"
    "\<And>i. i < 260 \<Longrightarrow> phys m5 (boot_frame f + of_nat i) = 0"
    using window_clear[OF st(5) f(1,3), of sizeof_process] by (auto simp: sizeof_process_def)
  have pb: "page_base (ptes ?s3 va) = boot_frame f"
    unfolding va using boot_frame_props(1)[OF f(1)] fu page_base_eq_iff by metis
  have "ld8 m5 (page_base va + of_nat i) = Inr 0" if "i < 260" for i
    using page_byte[OF st(5) pr pb, of i] same_tables_translate[OF m5(2)] m5(3)[OF that] that by (simp add: ld8_def)
  moreover have "boot_frame f \<noteq> 0" using boot_frame_nat[OF f(1)] f(2) by auto
  ultimately show ?thesis
    using st(1-4) p4 m5(1) by (simp add: task_finish_def kalloc_a_def kmemset_def[of "boot_frame f"] Let_def)
qed

text \<open>The loader maps a page and task\_finish then uses the same frame again.\<close>

lemma spawn_aliases:
  assumes "space_ok L s" "bump_addr (pm s) = boot_frame f" "f \<in> free_frames (pm s)" "\<forall>g \<in> free_frames (pm s). f \<le> g"
    and "f < unat (max_frames (pm s))" "L \<le> 0x80000" "L \<le> unat (frame va)" "frame va \<noteq> 0x80000"
    and "\<not> present s va" "\<not> present s 0x80000000" "4 \<le> spare s"
  shows "\<exists>s1 n s2. ensure_page va s = Inr (0, s1) \<and> task_finish ent pid0 s1 = Inr (0, n, s2) \<and>
    (\<forall>i < 260. ld8 (mc s2) (page_base va + of_nat i) = Inr 0)"
proof -
  have pok: "pmm_ok (pm s)" "0 \<in> used_frames (pm s)" "unat (max_frames (pm s)) \<le> L"
    using space_paging[OF assms(1)] by (simp_all add: paging_ok_def)
  have f: "f < NFRAMES" "f \<noteq> 0" "f < L" using assms(3,5) pok by (auto simp: free_frames_def intro: gr0I)
  then have F0: "boot_frame f \<noteq> 0" using boot_frame_nat[of f] by auto
  obtain p where al: "pmm_alloc_block (pm s) = Inr (boot_frame f, p)" using alloc_least[OF pok(1) assms(3-5)] by blast
  have room: "1 < spare s" using assms(11) by simp
  obtain s1 where s1: "map_page (boot_frame f) va 7 (s\<lparr>pm := p\<rparr>) = Inr s1" "grown L s s1" "spare s \<le> spare s1 + 2"
    "\<And>x. ptes s1 x = (if frame x = frame va then boot_frame f OR 7 OR 1 else ptes s x)"
    using map_fresh[OF assms(1) al F0 assms(7,9) room] by blast
  have run1: "ensure_page va s = Inr (0, s1)"
    using get_pte_ptes[OF space_paging[OF assms(1)], of va] assms(9) al F0 s1(1) by (simp add: ensure_page_def)
  have ok1: "space_ok L s1" using s1(2) by (simp add: grown_def)
  have np: "\<not> present s1 0x80000000" using s1(4)[of "0x80000000"] assms(8,10) by (auto simp: frame_def)
  have "free_mem_addr (pm s1) = free_mem_addr (pm s)"
    using map_page_bump[OF s1(1)] pmm.alloc_ok[OF pok(1) al] alloc_bump[OF pok(1) al] by simp
  then have "bump_addr (pm s1) = bump_addr (pm s)" by (simp add: bump_addr_def)
  then have "bump_addr (pm s1) = boot_frame f" using assms(2) by simp
  then show ?thesis
    using finish_clears[OF ok1 assms(6-8) _ _ f np] s1(3,4) assms(11) run1 by auto
qed

section \<open>Properties\<close>

lemma sample_free_frames: "free_frames (pm sample_vm) = {3..<NFRAMES}"
proof -
  have bits: "bit (7 :: u32) b \<longleftrightarrow> b < 3" for b
    using bit_mask_iff[where 'a = u32, of 3 b] by (auto simp: mask_eq_exp_minus_1)
  have "bit ((7 # replicate 8191 0) ! (f div 32) :: u32) (f mod 32) \<longleftrightarrow> f < 3" if f: "f < NFRAMES" for f
  proof (cases "f div 32")
    case 0
    then show ?thesis using bits[of f] by (simp add: div_eq_0_iff)
  next
    case (Suc k)
    then have "k < 8191" "\<not> f < 3" using f by (auto simp: NFRAMES_index)
    then show ?thesis using Suc by simp
  qed
  then show ?thesis
    by (auto simp: free_frames_def used_frames_def sample_vm_def sample_pmm_def)
qed

lemma sample_spawn:
  "\<exists>s1 n s2. ensure_page 0x8048000 sample_kernel = Inr (0, s1) \<and> task_finish 0x8048060 0 s1 = Inr (0, n, s2) \<and>
    (\<forall>i < 260. ld8 (mc s2) (page_base 0x8048000 + of_nat i) = Inr 0)"
proof (rule spawn_aliases[OF sample_kernel_space])
  have free: "pm sample_kernel = pm sample_vm" by simp
  show "bump_addr (pm sample_kernel) = boot_frame 3" by (simp add: sample_vm_def sample_pmm_def bump_addr_def boot_frame_def)
  show "3 \<in> free_frames (pm sample_kernel)" "\<forall>g \<in> free_frames (pm sample_kernel). 3 \<le> g"
    unfolding free sample_free_frames by (simp_all add: NFRAMES_def)
  show "3 < unat (max_frames (pm sample_kernel))" by (simp add: sample_vm_def)
  show "4 \<le> spare sample_kernel" using sample_spare by (simp add: spare_def)
qed (simp_all add: sample_kernel_ptes sample_ptes frame_nat word_unat_eq_iff)

text \<open>What mapping and clearing touch of the kernel's state.\<close>

lemma store32_mc: "store32 a v s = Inr s' \<Longrightarrow> \<exists>m. s' = s\<lparr>mc := m\<rparr>"
  by (auto simp: store32_def bindE_eq_Inr)

lemma store32_ps: "store32 a v s = Inr s' \<Longrightarrow> ps s' = ps (s :: 'a kernel_scheme)"
  by (drule store32_mc) auto

lemma map_page_ps:
  assumes "map_page pa va fl s = Inr s'"
  shows "ps s' = ps (s :: 'a kernel_scheme)"
proof -
  have many: "ps s2 = ps s1" if "foldE (\<lambda>i. store32 (b + 4 * of_nat i) 0) xs s1 = Inr s2" for b xs and s1 s2 :: "'a kernel_scheme"
    using that by (rule foldE_invariant[where P = "\<lambda>t. ps t = ps s1"]) (auto dest: store32_ps)
  show ?thesis
    using assms by (auto simp: map_page_def bindE_eq_Inr Let_def kprint_def dest!: many store32_ps split: if_splits prod.splits)
qed

lemma kalloc_ps:
  "palloc s = Inr (a, s') \<Longrightarrow> ps s' = ps (s :: 'a kernel_scheme)" "kalloc_a n s = Inr (a, s') \<Longrightarrow> ps s' = ps (s :: 'a kernel_scheme)"
  "kmemset d v n s = Inr s' \<Longrightarrow> ps s' = ps (s :: 'a kernel_scheme)"
  by (auto simp: palloc_def kalloc_a_def kmemset_def bindE_eq_Inr split: prod.splits)


lemma ensure_page_ps: "ensure_page va s = Inr (r, s') \<Longrightarrow> ps s' = ps (s :: 'a kernel_scheme)"
  by (auto simp: ensure_page_def bindE_eq_Inr dest!: map_page_ps split: if_splits prod.splits)


end
