(* ===== verification/Shell.thy ===== *)
theory Shell
  imports Tasks
begin

text \<open>
  The keyboard driver and the shell of src/src/keyboard.c. The line buffer is the array of 256
  bytes of the source and argv an array of positions in it; reading or writing outside an array
  is a fault. A command reports whether it left execute\_command by an early return, which skips
  the prompt and the clearing of the line.
\<close>

section \<open>State and tables\<close>

record shell = kernel +
  shift_pressed :: u8
  caps :: u8
  input_buffer :: "u8 list"
  buffer_index :: nat

definition BUFFER_SIZE :: nat where "BUFFER_SIZE = 256"

definition kbd_us :: "u8 list" where
  "kbd_us =
     [0, 27, 49, 50, 51, 52, 53, 54, 55, 56, 57, 48, 45, 61, 8, 9, 113, 119, 101, 114, 116, 121, 117, 105, 111, 112,
      91, 93, 10, 0, 97, 115, 100, 102, 103, 104, 106, 107, 108, 59, 39, 96, 0, 92, 122, 120, 99, 118, 98, 110, 109,
      44, 46, 47, 0, 42, 0, 32] @ replicate 70 0"

definition kbd_us_shift :: "u8 list" where
  "kbd_us_shift =
     [0, 27, 33, 64, 35, 36, 37, 94, 38, 42, 40, 41, 95, 43, 8, 9, 81, 87, 69, 82, 84, 89, 85, 73, 79, 80, 123, 125,
      10, 0, 65, 83, 68, 70, 71, 72, 74, 75, 76, 58, 34, 126, 0, 124, 90, 88, 67, 86, 66, 78, 77, 60, 62, 63, 0, 42,
      0, 32] @ replicate 70 0"

text \<open>What a local array holds before it is written.\<close>

record shell_env = env +
  stack_bytes :: "nat \<Rightarrow> u8"

section \<open>Splitting the line\<close>

definition at :: "u8 list \<Rightarrow> nat \<Rightarrow> u8 res" where
  "at buf i = (if i < length buf then Inr (buf ! i) else Inl (OutOfArray i))"

function skip_spaces :: "nat \<Rightarrow> u8 list \<Rightarrow> nat res" where
  "skip_spaces i buf = bindE (at buf i) (\<lambda>c. if c = 32 then skip_spaces (Suc i) buf else Inr i)"
  by pat_completeness auto
termination by (relation "measure (\<lambda>(i, buf). length buf - i)") (auto simp: at_def split: if_splits)

function skip_word :: "nat \<Rightarrow> u8 list \<Rightarrow> nat res" where
  "skip_word i buf = bindE (at buf i) (\<lambda>c. if c \<noteq> 0 \<and> c \<noteq> 32 then skip_word (Suc i) buf else Inr i)"
  by pat_completeness auto
termination by (relation "measure (\<lambda>(i, buf). length buf - i)") (auto simp: at_def split: if_splits)

declare skip_spaces.simps [simp del] skip_word.simps [simp del]

text \<open>The loop that fills argv; a blank after a word is overwritten by NUL.\<close>

fun split_args :: "nat \<Rightarrow> nat \<Rightarrow> nat list \<Rightarrow> u8 list \<Rightarrow> (nat list \<times> u8 list) res" where
  "split_args 0 i argv buf = Inl StillRunning"
| "split_args (Suc n) i argv buf =
     bindE (at buf i) (\<lambda>c.
       if c \<noteq> 0 \<and> length argv < 16 then
         bindE (skip_spaces i buf) (\<lambda>j.
         bindE (at buf j) (\<lambda>c1.
           if c1 \<noteq> 0 then
             bindE (skip_word j buf) (\<lambda>k.
             bindE (at buf k) (\<lambda>c2.
               if c2 = 32 then split_args n (Suc k) (argv @ [j]) (buf[k := 0])
               else split_args n k (argv @ [j]) buf))
           else split_args n j argv buf))
       else Inr (argv, buf))"

section \<open>Commands\<close>

text \<open>The strings argv points to; the commands below get them as a list of C strings.\<close>

definition arg_strings :: "nat list \<Rightarrow> u8 list \<Rightarrow> u8 list list" where
  "arg_strings argv buf = map (\<lambda>j. drop j buf) argv"

definition kprints :: "u8 list list \<Rightarrow> 'a platform_scheme \<Rightarrow> 'a platform_scheme" where
  "kprints ms s = fold (\<lambda>m s. kprint s m) ms s"

definition cmd_help :: "'a platform_scheme \<Rightarrow> 'a platform_scheme" where
  "cmd_help = kprints
     [bytes ''Available commands:\<newline>'',
      bytes ''  help, clear, echo, timer, about, version, reboot\<newline>'',
      bytes ''  meminfo, uptime, pwd, whoami\<newline>'',
      bytes ''  ls, cat                  (initrd/tar filesystem)\<newline>'',
      bytes ''  fat-ls                   (list FAT16 disk files)\<newline>'',
      bytes ''  fat-cat  <file.ext>      (read  FAT16 file)\<newline>'',
      bytes ''  fat-write <file.ext> <text>  (write FAT16 file)\<newline>'',
      bytes ''  run <file.ext>           (load and execute binary)\<newline>'',
      bytes ''  spawn <file.elf>         (create process and run ELF)\<newline>'',
      bytes ''  read-test, write-test    (raw ATA sector test)\<newline>'']"

fun cmd_echo :: "u8 list list \<Rightarrow> 'a platform_scheme \<Rightarrow> 'a platform_scheme" where
  "cmd_echo [] s = s"
| "cmd_echo [w] s = kprint s w"
| "cmd_echo (w # v # ws) s = cmd_echo (v # ws) (kprint (kprint s w) (bytes '' ''))"

definition cmd_meminfo :: "'a platform_scheme \<Rightarrow> 'a platform_scheme" where
  "cmd_meminfo s =
     (let s1 = kprint_int (kprint s (bytes ''Total RAM: '')) (sint (get_total_memory (pm s) div 1024));
          s2 = kprint (kprint s1 (bytes '' KB\<newline>'')) (bytes ''Allocated: '')
      in kprint (kprint_int s2 (sint (get_allocated_memory (pm s2)))) (bytes '' Bytes\<newline>''))"

definition cmd_uptime :: "'a kernel_scheme \<Rightarrow> 'a kernel_scheme" where
  "cmd_uptime s =
     (let seconds = timer_ticks (dev s) div 100; minutes = seconds div 60; hours = minutes div 60;
          s1 = kprint (kprint_int s (sint hours)) (bytes ''h '');
          s2 = kprint (kprint_int s1 (sint (minutes mod 60))) (bytes ''m '')
      in kprint (kprint_int s2 (sint (seconds mod 60))) (bytes ''s''))"

text \<open>Joining arguments with blanks into a buffer that holds at most \<open>lim\<close> characters.\<close>

fun push_word :: "nat \<Rightarrow> u8 list \<Rightarrow> u8 list \<Rightarrow> u8 list" where
  "push_word lim [] acc = acc"
| "push_word lim (c # cs) acc = (if c \<noteq> 0 \<and> length acc < lim then push_word lim cs (acc @ [c]) else acc)"

fun join_words :: "nat \<Rightarrow> u8 list list \<Rightarrow> u8 list \<Rightarrow> u8 list" where
  "join_words lim [] acc = acc"
| "join_words lim [w] acc = push_word lim w acc"
| "join_words lim (w # v # ws) acc =
     (let acc1 = push_word lim w acc
      in join_words lim (v # ws) (if length acc1 < lim then acc1 @ [32] else acc1))"

definition cmd_write_test :: "u8 list list \<Rightarrow> 'a fatsys_scheme \<Rightarrow> 'a fatsys_scheme" where
  "cmd_write_test ws s =
     (if ws = [] then kprint s (bytes ''Usage: write_test <text>\<newline>'')
      else
        (let text = join_words 510 ws [];
             buffer = text @ replicate (512 - length text) 0
         in kprint (s\<lparr>vol := wr_sector 1 buffer (vol s)\<rparr>) (bytes ''Successfully wrote to Sector 1!\<newline>'')))"

definition cmd_read_test :: "'a fatsys_scheme \<Rightarrow> ('a fatsys_scheme) res" where
  "cmd_read_test s =
     (let (buffer, v) = rd_sector 1 (vol s);
          s1 = kprint (s\<lparr>vol := v\<rparr>) (bytes ''Read from Sector 1: '')
      in if 0 \<in> set buffer then Inr (kprint (kprint s1 buffer) (bytes ''\<newline>'')) else Inl (OutOfArray 512))"

definition cmd_fat_cat :: "shell_env \<Rightarrow> u8 list list \<Rightarrow> 'a fatsys_scheme \<Rightarrow> ('a fatsys_scheme) res" where
  "cmd_fat_cat e ws s =
     (case ws of
        [] \<Rightarrow> Inr (kprint s (bytes ''Usage: fat-cat <filename.ext>\<newline>''))
      | w # _ \<Rightarrow>
          (let (name8, ext3) = fat16_format_83 w
           in bindE (fat16_read_file (fuel e) name8 ext3 4096 s) (\<lambda>(n, bs, s1).
                if n > 0 then
                  (if n < 4096 then
                     (let buf = (bs @ map (stack_bytes e) [length bs..<4096])[nat n := 0]
                      in Inr (kprint (kprint s1 buf) (bytes ''\<newline>'')))
                   else Inl (OutOfArray (nat n)))
                else Inr s1)))"

definition cmd_fat_write :: "env \<Rightarrow> u8 list list \<Rightarrow> 'a fatsys_scheme \<Rightarrow> ('a fatsys_scheme) res" where
  "cmd_fat_write e ws s =
     (case ws of
        w # v # vs \<Rightarrow>
          (let (name8, ext3) = fat16_format_83 w;
               content = join_words 254 (v # vs) []
           in bindE (fat16_write_file (fuel e) name8 ext3 content (of_nat (length content)) s) (\<lambda>(r, s1). Inr s1))
      | _ \<Rightarrow> Inr (kprint s (bytes ''Usage: fat-write <filename.ext> <text>\<newline>'')))"

text \<open>A flat binary goes to 0x40000000; the flag says that the command returned early.\<close>

definition load_flat :: "u32 \<Rightarrow> int \<Rightarrow> 'a kernel_scheme \<Rightarrow> (bool \<times> 'a kernel_scheme) res" where
  "load_flat img n s =
     bindE (palloc s) (\<lambda>(phys_addr, s1).
       if phys_addr = 0 then Inr (True, kprint s1 (bytes ''run: out of physical memory\<newline>''))
       else
         bindE (map_page phys_addr 0x40000000 7 s1) (\<lambda>s2.
         bindE (memcpy (mc s2) 0x40000000 img (word_of_int n)) (\<lambda>m.
         bindE (if (word_of_int n :: u32) < 4096 then kmemset (0x40000000 + word_of_int n) 0 (4096 - word_of_int n) (s2\<lparr>mc := m\<rparr>)
                else Inr (s2\<lparr>mc := m\<rparr>)) (\<lambda>s3.
           Inr (False, kprint s3 (bytes ''run: flat binary loaded at 0x40000000\<newline>''))))))"

definition run_image :: "env \<Rightarrow> u32 \<Rightarrow> int \<Rightarrow> 'a kernel_scheme \<Rightarrow> (bool \<times> 'a kernel_scheme) res" where
  "run_image e img n s =
     bindE (elf_magic (mc s) img) (\<lambda>magic.
     bindE (if magic then
              bindE (load_elf_program img (word_of_int n) 0 s) (\<lambda>(r, ent, s1).
                if r < 0 then Inr (True, 0, kprint s1 (bytes ''run: invalid ELF image\<newline>'')) else Inr (False, ent, s1))
            else bindE (load_flat img n s) (\<lambda>(early, s1). Inr (early, 0x40000000, s1))) (\<lambda>(early, user_entry, s1).
       if early then Inr (True, s1)
       else
         (let s2 = kprint (kprint_int (kprint s1 (bytes ''Loaded '')) n) (bytes '' bytes, jumping to entry 0x'');
              s3 = kprint (kprint_hex s2 user_entry) (bytes ''...\<newline>'')
          in bindE (enter_user_program e user_entry s3) (\<lambda>s4. Inr (False, s4)))))"

definition cmd_run :: "env \<Rightarrow> u8 list list \<Rightarrow> 'a kernel_scheme \<Rightarrow> (bool \<times> 'a kernel_scheme) res" where
  "cmd_run e ws s =
     (case ws of
        [] \<Rightarrow> Inr (False, kprint s (bytes ''Usage: run <filename.ext>\<newline>''))
      | w # _ \<Rightarrow>
          (let (name8, ext3) = fat16_format_83 w
           in bindE (kalloc_a 4096 s) (\<lambda>(tmp_buf, s1).
                if tmp_buf = 0 then Inr (True, kprint s1 (bytes ''run: kmalloc failed\<newline>''))
                else
                  bindE (read_file_to e name8 ext3 tmp_buf 4096 s1) (\<lambda>(n, s2).
                    if n < 0 then Inr (False, kprint s2 (bytes ''run: failed to load file\<newline>''))
                    else run_image e tmp_buf n s2))))"

definition cmd_spawn :: "env \<Rightarrow> u8 list list \<Rightarrow> 'a kernel_scheme \<Rightarrow> ('a kernel_scheme) res" where
  "cmd_spawn e ws s =
     (case ws of
        [] \<Rightarrow> Inr (kprint s (bytes ''Usage: spawn <file.elf>\<newline>''))
      | w # _ \<Rightarrow>
          bindE (task_create_from_elf e (Some w) 0 s) (\<lambda>(r, n, s1).
            if r < 0 then Inr (kprint s1 (bytes ''spawn: failed to create process\<newline>''))
            else
              (let s2 = kprint (kprint_int (kprint s1 (bytes ''spawn: pid='')) (sint n)) (bytes '' created, running...\<newline>'');
                   (p, q) = proc_dequeue (ps s2);
                   s3 = s2\<lparr>ps := q\<rparr>
               in if p = 0 then Inr s3
                  else bindE (jump_to_usermode (fuel e) (user_prog e) (cpu_state e) (user_stack_top (heap q p)) (entry (heap q p)) s3) (\<lambda>s4.
                         Inr (kprint s4 (bytes ''spawn: process exited.\<newline>''))))))"

text \<open>The chain of comparisons with the command names; \<open>ret\<close> is the normal end of a command.\<close>

definition is_cmd :: "u8 list \<Rightarrow> string \<Rightarrow> bool" where
  "is_cmd w name \<longleftrightarrow> strcmp w (bytes name) = 0"

definition ret :: "('a shell_scheme) res \<Rightarrow> (bool \<times> 'a shell_scheme) res" where
  "ret r = bindE r (\<lambda>s. Inr (False, s))"

definition run_command :: "shell_env \<Rightarrow> u8 list \<Rightarrow> u8 list list \<Rightarrow> 'a shell_scheme \<Rightarrow> (bool \<times> 'a shell_scheme) res" where
  "run_command e w ws s =
     (if is_cmd w ''help'' then ret (Inr (cmd_help s))
      else if is_cmd w ''clear'' then ret (Inr (s\<lparr>scr := clear_screen (scr s)\<rparr>))
      else if is_cmd w ''timer'' then ret (Inr (kprint (kprint_int s (sint (timer_ticks (dev s) div 100))) (bytes '' seconds'')))
      else if is_cmd w ''about'' then ret (Inr (kprint s (bytes ''CIndy-OS - A bare-metal hobby OS built from scratch.'')))
      else if is_cmd w ''version'' then ret (Inr (kprint s (bytes ''CIndy-OS Kernel v0.1'')))
      else if is_cmd w ''reboot'' then Inl Reset
      else if is_cmd w ''echo'' then ret (Inr (if ws = [] then kprint s (bytes ''No string passed'') else cmd_echo ws s))
      else if is_cmd w ''meminfo'' then ret (Inr (cmd_meminfo s))
      else if is_cmd w ''ls'' then ret (tar_ls (fuel e) s)
      else if is_cmd w ''cat'' then
        ret (case ws of [] \<Rightarrow> Inr (kprint s (bytes ''Usage: cat <filename>\<newline>'')) | v # _ \<Rightarrow> tar_cat (fuel e) v s)
      else if is_cmd w ''pwd'' then ret (Inr (kprint s (bytes ''/'')))
      else if is_cmd w ''whoami'' then ret (Inr (kprint s (bytes ''root'')))
      else if is_cmd w ''uptime'' then ret (Inr (cmd_uptime s))
      else if is_cmd w ''write-test'' then ret (Inr (cmd_write_test ws s))
      else if is_cmd w ''read-test'' then ret (cmd_read_test s)
      else if is_cmd w ''fat-ls'' then ret (Inr (fat16_ls s))
      else if is_cmd w ''fat-cat'' then ret (cmd_fat_cat e ws s)
      else if is_cmd w ''fat-write'' then ret (cmd_fat_write (env.truncate e) ws s)
      else if is_cmd w ''run'' then cmd_run (env.truncate e) ws s
      else if is_cmd w ''spawn'' then ret (cmd_spawn (env.truncate e) ws s)
      else ret (Inr (kprint (kprint s (bytes ''Unknown command: '')) w)))"

definition prompt :: "'a shell_scheme \<Rightarrow> 'a shell_scheme" where
  "prompt s =
     (let s1 = kprint s (bytes ''\<newline>'');
          s2 = s1\<lparr>scr := print_colored (scr s1) (bytes ''[CIndy-OS]> '') 0x0B\<rparr>
      in s2\<lparr>buffer_index := 0, input_buffer := replicate BUFFER_SIZE 0\<rparr>)"

definition execute_command :: "shell_env \<Rightarrow> 'a shell_scheme \<Rightarrow> ('a shell_scheme) res" where
  "execute_command e s =
     (let s1 = kprint s (bytes ''\<newline>'')
      in bindE (split_args (Suc (length (input_buffer s1))) 0 [] (input_buffer s1)) (\<lambda>(argv, buf).
           let s2 = s1\<lparr>input_buffer := buf\<rparr>
           in case arg_strings argv buf of
                [] \<Rightarrow> Inr (prompt s2)
              | w # ws \<Rightarrow> bindE (run_command e w ws s2) (\<lambda>(early, s3). Inr (if early then s3 else prompt s3))))"

section \<open>Keyboard\<close>

text \<open>The effect of caps lock on a character.\<close>

definition swap_case :: "bool \<Rightarrow> u8 \<Rightarrow> u8" where
  "swap_case capital c =
     (if c \<ge> 97 \<and> c \<le> 122 then (if capital then c - 32 else c)
      else if c \<ge> 65 \<and> c \<le> 90 then (if capital then c + 32 else c) else c)"

definition handle_keyboard_interrupt :: "shell_env \<Rightarrow> u8 \<Rightarrow> 'a shell_scheme \<Rightarrow> ('a shell_scheme) res" where
  "handle_keyboard_interrupt e scancode s =
     (if scancode = 0x2A \<or> scancode = 0x36 then Inr (s\<lparr>shift_pressed := 1\<rparr>)
      else if scancode = 0xAA \<or> scancode = 0xB6 then Inr (s\<lparr>shift_pressed := 0\<rparr>)
      else if scancode = 0x3A then Inr (s\<lparr>caps := (caps s + 1) mod 2\<rparr>)
      else if scancode AND 0x80 \<noteq> 0 then Inr s
      else
        bindE (at (if shift_pressed s \<noteq> 0 then kbd_us_shift else kbd_us) (unat scancode)) (\<lambda>ascii.
          if ascii = 8 then
            (if buffer_index s > 0 then
               (let i = buffer_index s - 1
                in if i < length (input_buffer s)
                   then Inr (kprint (s\<lparr>buffer_index := i, input_buffer := (input_buffer s)[i := 0]\<rparr>) [8, 32, 8])
                   else Inl (OutOfArray i))
             else Inr s)
          else if ascii = 10 then
            (if buffer_index s < length (input_buffer s)
             then execute_command e (s\<lparr>input_buffer := (input_buffer s)[buffer_index s := 0]\<rparr>)
             else Inl (OutOfArray (buffer_index s)))
          else if ascii \<noteq> 0 then
            (let c = swap_case (caps s \<noteq> 0) ascii
             in if buffer_index s < BUFFER_SIZE - 1 then
                  (if buffer_index s < length (input_buffer s)
                   then (let s1 = kprint (s\<lparr>input_buffer := (input_buffer s)[buffer_index s := c]\<rparr>) [c, 0]
                         in Inr (s1\<lparr>buffer_index := buffer_index s1 + 1\<rparr>))
                   else Inl (OutOfArray (buffer_index s)))
                else Inr s)
          else Inr s))"

text \<open>The interrupt handler of src/src/kernel.c; \<open>scancode\<close> is what the controller's data port delivers.\<close>

definition keyboard_handler :: "shell_env \<Rightarrow> u8 \<Rightarrow> 'a shell_scheme \<Rightarrow> ('a shell_scheme) res" where
  "keyboard_handler e scancode s =
     bindE (handle_keyboard_interrupt e scancode s) (\<lambda>s1. Inr (s1\<lparr>dev := outb 0x20 0x20 (dev s1)\<rparr>))"

section \<open>Words of a line\<close>

text \<open>The specification of the splitting: the maximal blank-free parts of a line.\<close>

function line_words :: "u8 list \<Rightarrow> u8 list list" where
  "line_words xs =
     (let ys = dropWhile (\<lambda>c. c = 32) xs
      in if ys = [] then [] else takeWhile (\<lambda>c. c \<noteq> 32) ys # line_words (dropWhile (\<lambda>c. c \<noteq> 32) ys))"
  by pat_completeness auto
termination
proof (relation "measure length")
  fix xs ys :: "u8 list"
  assume ys: "ys = dropWhile (\<lambda>c. c = 32) xs" "ys \<noteq> []"
  then have "hd ys \<noteq> 32" using hd_dropWhile[of "\<lambda>c. c = 32" xs] by simp
  then obtain c cs where c: "ys = c # cs" "c \<noteq> 32" using ys(2) by (cases ys) simp_all
  have "length (dropWhile (\<lambda>c. c \<noteq> 32) ys) \<le> length cs" using c length_dropWhile_le[of _ cs] by simp
  also have "\<dots> < length xs" using c ys(1) length_dropWhile_le[of "\<lambda>c. c = 32" xs] by simp
  finally show "(dropWhile (\<lambda>c. c \<noteq> 32) ys, xs) \<in> measure length" by simp
qed simp

declare line_words.simps [simp del]

lemma line_words_blank: "line_words (dropWhile (\<lambda>c. c = 32) xs) = line_words xs"
  by (simp add: line_words.simps[of xs] line_words.simps[of "dropWhile (\<lambda>c. c = 32) xs"] dropWhile_idem)

lemma line_words_cons: "line_words (32 # xs) = line_words xs"
  using line_words_blank[of "32 # xs"] line_words_blank[of xs] by simp

lemma line_words_word:
  "xs \<noteq> [] \<Longrightarrow> hd xs \<noteq> 32 \<Longrightarrow> line_words xs = takeWhile (\<lambda>c. c \<noteq> 32) xs # line_words (dropWhile (\<lambda>c. c \<noteq> 32) xs)"
  by (cases xs) (simp_all add: line_words.simps[of "x # y" for x y])

lemma cstr_skip:
  "cstr (dropWhile (\<lambda>c. c = 32) r) = dropWhile (\<lambda>c. c = 32) (cstr r)"
  "takeWhile (\<lambda>c. c \<noteq> 0 \<and> c \<noteq> 32) r = takeWhile (\<lambda>c. c \<noteq> 32) (cstr r)"
  "cstr (dropWhile (\<lambda>c. c \<noteq> 0 \<and> c \<noteq> 32) r) = dropWhile (\<lambda>c. c \<noteq> 32) (cstr r)"
  by (induction r) (auto simp: cstr_def)

text \<open>The two inner loops stay inside a line that contains a NUL.\<close>

lemma skip_spaces_eq:
  "0 \<in> set (drop i buf) \<Longrightarrow> skip_spaces i buf = Inr (i + length (takeWhile (\<lambda>c. c = 32) (drop i buf)))"
proof (induction i buf rule: skip_spaces.induct)
  case (1 i buf)
  then have i: "i < length buf" by (cases "i < length buf") auto
  have d: "drop i buf = buf ! i # drop (Suc i) buf" using i by (simp add: Cons_nth_drop_Suc)
  show ?case
  proof (cases "buf ! i = 32")
    case True
    then have "0 \<in> set (drop (Suc i) buf)" using 1(2) d by auto
    then show ?thesis using 1(1)[of "buf ! i"] True i d by (simp add: skip_spaces.simps[of i] at_def)
  next
    case False
    then show ?thesis using i d by (simp add: skip_spaces.simps[of i] at_def)
  qed
qed

lemma skip_word_eq:
  "0 \<in> set (drop i buf) \<Longrightarrow> skip_word i buf = Inr (i + length (takeWhile (\<lambda>c. c \<noteq> 0 \<and> c \<noteq> 32) (drop i buf)))"
proof (induction i buf rule: skip_word.induct)
  case (1 i buf)
  then have i: "i < length buf" by (cases "i < length buf") auto
  have d: "drop i buf = buf ! i # drop (Suc i) buf" using i by (simp add: Cons_nth_drop_Suc)
  show ?case
  proof (cases "buf ! i \<noteq> 0 \<and> buf ! i \<noteq> 32")
    case True
    then have "0 \<in> set (drop (Suc i) buf)" using 1(2) d by auto
    then show ?thesis using 1(1)[of "buf ! i"] True i d by (simp add: skip_word.simps[of i] at_def)
  next
    case False
    then show ?thesis using i d by (auto simp: skip_word.simps[of i] at_def)
  qed
qed

lemma drop_takeWhile: "drop (length (takeWhile P xs)) xs = dropWhile P xs"
  by (induction xs) auto

lemma drop_after: "drop (i + length (takeWhile P (drop i xs))) xs = dropWhile P (drop i xs)"
  by (simp add: drop_takeWhile[symmetric] add.commute)

lemma nul_dropWhile: "0 \<in> set r \<Longrightarrow> \<not> P 0 \<Longrightarrow> 0 \<in> set (dropWhile P r)"
  by (induction r) auto

text \<open>The string at a position does not depend on what follows its NUL.\<close>

lemma cstr_prefix:
  assumes "take k b = take k buf" "j < k" "buf ! (k - 1) = 0" "k \<le> length buf" "length b = length buf"
  shows "cstr (drop j b) = cstr (drop j buf)"
proof -
  have "0 \<in> set (drop j (take k buf))"
    using assms(2-4) by (auto simp: in_set_conv_nth intro!: exI[of _ "k - 1 - j"])
  then have "takeWhile (\<lambda>c. c \<noteq> 0) (drop j (take k buf) @ x) = takeWhile (\<lambda>c. c \<noteq> 0) (drop j (take k buf))" for x
    by (intro takeWhile_append1[of 0]) auto
  moreover have split: "drop j x = drop j (take k x) @ drop k x" if "length x = length buf" for x :: "u8 list"
  proof -
    have "drop j (take k x @ drop k x) = drop j (take k x) @ drop k x" using assms(2,4) that by (simp only: drop_append) simp
    then show ?thesis by simp
  qed
  ultimately show ?thesis
    unfolding cstr_def split[OF refl] split[OF assms(5)] assms(1) by simp
qed

lemma nul_position: "0 \<in> set (drop i buf) \<Longrightarrow> i < length buf"
  by (cases "i < length buf") auto

lemma word_at:
  fixes buf :: "u8 list" and i :: nat
  defines "j \<equiv> i + length (takeWhile (\<lambda>c. c = 32) (drop i buf))"
  defines "k \<equiv> j + length (takeWhile (\<lambda>c. c \<noteq> 0 \<and> c \<noteq> 32) (drop j buf))"
  assumes nul: "0 \<in> set (drop i buf)"
  shows "i \<le> j" "j < length buf" "0 \<in> set (drop j buf)" "drop j buf = dropWhile (\<lambda>c. c = 32) (drop i buf)" "buf ! j \<noteq> 32"
    "line_words (cstr (drop i buf)) = line_words (cstr (drop j buf))"
    "k < length buf" "0 \<in> set (drop k buf)" "buf ! k = 0 \<or> buf ! k = 32"
    "buf ! j \<noteq> 0 \<Longrightarrow> j < k" "buf ! j \<noteq> 0 \<Longrightarrow>
      line_words (cstr (drop j buf)) = takeWhile (\<lambda>c. c \<noteq> 0 \<and> c \<noteq> 32) (drop j buf) # line_words (cstr (drop k buf))"
proof -
  show "i \<le> j" by (simp add: j_def)
  have dj: "drop j buf = dropWhile (\<lambda>c. c = 32) (drop i buf)"
    unfolding j_def by (rule drop_after)
  then show "drop j buf = dropWhile (\<lambda>c. c = 32) (drop i buf)" .
  show nj: "0 \<in> set (drop j buf)" unfolding dj by (rule nul_dropWhile[OF nul]) simp
  then show lj: "j < length buf" by (rule nul_position)
  have hd_j: "hd (drop j buf) = buf ! j" using lj by (simp add: hd_drop_conv_nth)
  have "drop j buf \<noteq> []" using lj by simp
  from hd_dropWhile[OF this[unfolded dj]] show bj: "buf ! j \<noteq> 32" using hd_j dj by simp
  show "line_words (cstr (drop i buf)) = line_words (cstr (drop j buf))"
    unfolding dj cstr_skip(1) by (simp add: line_words_blank)
  have dk: "drop k buf = dropWhile (\<lambda>c. c \<noteq> 0 \<and> c \<noteq> 32) (drop j buf)"
    unfolding k_def by (rule drop_after)
  show nk: "0 \<in> set (drop k buf)" unfolding dk by (rule nul_dropWhile[OF nj]) simp
  then show lk: "k < length buf" by (rule nul_position)
  have "drop k buf \<noteq> []" using lk by simp
  from hd_dropWhile[OF this[unfolded dk]] show "buf ! k = 0 \<or> buf ! k = 32"
    using lk dk[symmetric] by (simp only: hd_drop_conv_nth) blast
  assume nz: "buf ! j \<noteq> 0"
  have dj_Cons: "drop j buf = buf ! j # drop (Suc j) buf" using lj by (simp add: Cons_nth_drop_Suc)
  then show "j < k" using nz bj by (simp add: k_def)
  have "cstr (drop j buf) \<noteq> []" "hd (cstr (drop j buf)) \<noteq> 32" using dj_Cons nz bj by (simp_all add: cstr_def)
  from line_words_word[OF this]
  show "line_words (cstr (drop j buf)) = takeWhile (\<lambda>c. c \<noteq> 0 \<and> c \<noteq> 32) (drop j buf) # line_words (cstr (drop k buf))"
    unfolding cstr_skip(2) dk cstr_skip(3) .
qed

text \<open>A word that is ended by NUL is the C string at its start.\<close>

lemma cstr_word:
  assumes "k = j + length (takeWhile (\<lambda>c. c \<noteq> 0 \<and> c \<noteq> 32) (drop j buf))" "k < length buf"
  shows "cstr (drop j (buf[k := 0])) = takeWhile (\<lambda>c. c \<noteq> 0 \<and> c \<noteq> 32) (drop j buf)"
proof -
  let ?w = "takeWhile (\<lambda>c. c \<noteq> 0 \<and> c \<noteq> 32) (drop j buf)"
  have d: "drop j buf = ?w @ drop k buf" unfolding assms(1) drop_after by (simp only: takeWhile_dropWhile_id)
  have "drop j (buf[k := 0]) = (drop j buf)[length ?w := 0]" using assms by (simp add: drop_update_swap)
  also have "\<dots> = ?w @ 0 # drop (Suc k) buf"
    by (subst d) (use assms(2) in \<open>simp add: list_update_append Cons_nth_drop_Suc[symmetric]\<close>)
  finally have "cstr (drop j (buf[k := 0])) = takeWhile (\<lambda>c. c \<noteq> 0) (?w @ 0 # drop (Suc k) buf)" by (simp add: cstr_def)
  also have "\<dots> = ?w" by (subst takeWhile_append2) (auto dest: set_takeWhileD)
  finally show ?thesis .
qed

definition split_from :: "nat \<Rightarrow> nat \<Rightarrow> nat list \<Rightarrow> u8 list \<Rightarrow> bool" where
  "split_from n i argv buf \<longleftrightarrow>
     (\<exists>js buf'. split_args n i argv buf = Inr (argv @ js, buf') \<and> length buf' = length buf \<and> take i buf' = take i buf \<and>
        (\<forall>j \<in> set js. i \<le> j) \<and> map (\<lambda>j. cstr (drop j buf')) js = take (16 - length argv) (line_words (cstr (drop i buf))))"

text \<open>
  The cases of one round: nothing left to split, blanks up to the end of the line, a word that a
  blank follows, and the last word of the line.
\<close>

lemma split_from_done:
  assumes "0 \<in> set (drop i buf)" "\<not> (buf ! i \<noteq> 0 \<and> length argv < 16)"
  shows "split_from (Suc n) i argv buf"
proof -
  have i: "i < length buf" using nul_position[OF assms(1)] .
  have "take (16 - length argv) (line_words (cstr (drop i buf))) = []"
  proof (cases "buf ! i = 0")
    case True
    then have "cstr (drop i buf) = []" using i by (simp add: Cons_nth_drop_Suc[symmetric] cstr_def)
    then show ?thesis by (simp add: line_words.simps[of "[]"])
  qed (use assms(2) in simp)
  then show ?thesis using assms(2) i by (auto simp: split_from_def at_def)
qed

lemma split_from_round:
  fixes i buf
  defines "j \<equiv> i + length (takeWhile (\<lambda>c. c = 32) (drop i buf))"
  defines "k \<equiv> j + length (takeWhile (\<lambda>c. c \<noteq> 0 \<and> c \<noteq> 32) (drop j buf))"
  assumes nul: "0 \<in> set (drop i buf)" and go: "buf ! i \<noteq> 0" "length argv < 16"
  shows "split_args (Suc n) i argv buf =
    (if buf ! j = 0 then split_args n j argv buf
     else if buf ! k = 32 then split_args n (Suc k) (argv @ [j]) (buf[k := 0]) else split_args n k (argv @ [j]) buf)"
proof -
  note wa = word_at[OF nul, folded j_def, folded k_def]
  note sk = skip_spaces_eq[OF nul, folded j_def] skip_word_eq[OF wa(3), folded k_def]
  show ?thesis using go nul_position[OF nul] sk wa(2,7) by (simp add: at_def)
qed

lemma split_from_blanks:
  fixes i buf
  defines "j \<equiv> i + length (takeWhile (\<lambda>c. c = 32) (drop i buf))"
  assumes nul: "0 \<in> set (drop i buf)" and go: "buf ! i \<noteq> 0" "length argv < 16" and z: "buf ! j = 0" and IH: "split_from n j argv buf"
  shows "split_from (Suc n) i argv buf"
proof -
  note wa = word_at[OF nul, folded j_def]
  obtain js buf' where r: "split_args n j argv buf = Inr (argv @ js, buf')" "length buf' = length buf" "take j buf' = take j buf"
      "\<forall>x \<in> set js. j \<le> x" "map (\<lambda>x. cstr (drop x buf')) js = take (16 - length argv) (line_words (cstr (drop j buf)))"
    using IH unfolding split_from_def by blast
  have pre: "take i buf' = take i buf" using arg_cong[OF r(3), of "take i"] wa(1) by (simp add: min_def)
  have "split_args (Suc n) i argv buf = Inr (argv @ js, buf')"
    using split_from_round[OF nul go, of n, folded j_def] z r(1) by simp
  moreover have "\<forall>x \<in> set js. i \<le> x" using r(4) wa(1) by (meson le_trans)
  ultimately show ?thesis using r(2,5) pre wa(6) unfolding split_from_def by (metis (no_types))
qed

lemma split_from_word:
  fixes i buf
  defines "j \<equiv> i + length (takeWhile (\<lambda>c. c = 32) (drop i buf))"
  defines "k \<equiv> j + length (takeWhile (\<lambda>c. c \<noteq> 0 \<and> c \<noteq> 32) (drop j buf))"
  assumes nul: "0 \<in> set (drop i buf)" and go: "buf ! i \<noteq> 0" "length argv < 16" and w: "buf ! j \<noteq> 0" "buf ! k = 32"
    and IH: "split_from n (Suc k) (argv @ [j]) (buf[k := 0])"
  shows "split_from (Suc n) i argv buf"
proof -
  note wa = word_at[OF nul, folded j_def, folded k_def]
  let ?w = "takeWhile (\<lambda>c. c \<noteq> 0 \<and> c \<noteq> 32) (drop j buf)" and ?b = "buf[k := 0]"
  note jk = wa(10)[OF w(1)]
  have words: "line_words (cstr (drop i buf)) = ?w # line_words (cstr (drop k buf))" using wa(6) wa(11)[OF w(1)] by simp
  have room: "take (16 - length argv) (?w # xs) = ?w # take (16 - length (argv @ [j])) xs" for xs using go by (simp add: take_Cons')
  have dk: "drop k buf = buf ! k # drop (Suc k) buf" using wa(7) by (simp add: Cons_nth_drop_Suc)
  obtain js buf' where
    r: "split_args n (Suc k) (argv @ [j]) ?b = Inr ((argv @ [j]) @ js, buf')" "length buf' = length ?b"
      "take (Suc k) buf' = take (Suc k) ?b" "\<forall>x \<in> set js. Suc k \<le> x"
      "map (\<lambda>x. cstr (drop x buf')) js = take (16 - length (argv @ [j])) (line_words (cstr (drop (Suc k) ?b)))"
    using IH unfolding split_from_def by blast
  have "cstr (drop j buf') = cstr (drop j ?b)" using r(2,3) jk wa(7) by (intro cstr_prefix[of "Suc k"]) simp_all
  then have first: "cstr (drop j buf') = ?w" using cstr_word[of k j buf] k_def wa(7) by simp
  have rest: "line_words (cstr (drop k buf)) = line_words (cstr (drop (Suc k) ?b))"
    using dk w(2) line_words_cons by (simp add: drop_update_cancel cstr_def)
  have "i \<le> k" using wa(1) jk by simp
  then have pre: "take i buf' = take i buf" using arg_cong[OF r(3), of "take i"] by (simp add: min_def)
  have "split_args (Suc n) i argv buf = Inr (argv @ j # js, buf')"
    using split_from_round[OF nul go, of n, folded j_def, folded k_def] w r(1) by simp
  moreover have "\<forall>x \<in> set (j # js). i \<le> x" using r(4) wa(1) \<open>i \<le> k\<close> by force
  moreover have "map (\<lambda>x. cstr (drop x buf')) (j # js) = take (16 - length argv) (line_words (cstr (drop i buf)))"
    unfolding words room rest using r(5) first by simp
  ultimately show ?thesis using r(2) pre unfolding split_from_def by (metis (no_types) length_list_update)
qed

lemma split_from_last:
  fixes i buf
  defines "j \<equiv> i + length (takeWhile (\<lambda>c. c = 32) (drop i buf))"
  defines "k \<equiv> j + length (takeWhile (\<lambda>c. c \<noteq> 0 \<and> c \<noteq> 32) (drop j buf))"
  assumes nul: "0 \<in> set (drop i buf)" and go: "buf ! i \<noteq> 0" "length argv < 16" and w: "buf ! j \<noteq> 0" "buf ! k \<noteq> 32"
  shows "split_from (Suc (Suc n)) i argv buf"
proof -
  note wa = word_at[OF nul, folded j_def, folded k_def]
  let ?w = "takeWhile (\<lambda>c. c \<noteq> 0 \<and> c \<noteq> 32) (drop j buf)"
  have z: "buf ! k = 0" using wa(9) w(2) by simp
  have dk: "drop k buf = 0 # drop (Suc k) buf" using wa(7) z by (metis Cons_nth_drop_Suc)
  have "split_args (Suc n) k (argv @ [j]) buf = Inr (argv @ [j], buf)" using z wa(7) by (simp add: at_def)
  then have run: "split_args (Suc (Suc n)) i argv buf = Inr (argv @ [j], buf)"
    using split_from_round[OF nul go, of "Suc n", folded j_def, folded k_def] w by simp
  have "cstr (drop k buf) = []" by (simp add: dk cstr_def)
  then have "line_words (cstr (drop k buf)) = []" by (simp add: line_words.simps[of "[]"])
  then have "line_words (cstr (drop i buf)) = [?w]" using wa(6) wa(11)[OF w(1)] by simp
  moreover have "cstr (drop j buf) = ?w" using cstr_word[OF meta_eq_to_obj_eq[OF k_def] wa(7)] list_update_id[of buf k] z by simp
  ultimately have "map (\<lambda>x. cstr (drop x buf)) [j] = take (16 - length argv) (line_words (cstr (drop i buf)))"
    using go(2) by (simp add: take_Cons')
  then show ?thesis using run wa(1) unfolding split_from_def by (intro exI[of _ "[j]"] exI[of _ buf]) simp
qed

lemma split_from_ok: "0 \<in> set (drop i buf) \<Longrightarrow> length buf - i < n \<Longrightarrow> split_from n i argv buf"
proof (induction n arbitrary: i argv buf)
  case (Suc n)
  define j where "j = i + length (takeWhile (\<lambda>c. c = 32) (drop i buf))"
  define k where "k = j + length (takeWhile (\<lambda>c. c \<noteq> 0 \<and> c \<noteq> 32) (drop j buf))"
  note wa = word_at[OF Suc.prems(1), folded j_def, folded k_def]
  have i: "i < length buf" using nul_position[OF Suc.prems(1)] .
  consider (halt) "\<not> (buf ! i \<noteq> 0 \<and> length argv < 16)" | (blanks) "buf ! i \<noteq> 0" "length argv < 16" "buf ! j = 0"
    | (word) "buf ! i \<noteq> 0" "length argv < 16" "buf ! j \<noteq> 0" "buf ! k = 32"
    | (final) "buf ! i \<noteq> 0" "length argv < 16" "buf ! j \<noteq> 0" "buf ! k \<noteq> 32" by blast
  then show ?case
  proof cases
    case halt
    then show ?thesis using split_from_done[OF Suc.prems(1)] by blast
  next
    case blanks
    then have "i \<noteq> j" by auto
    then have "length buf - j < n" using Suc.prems(2) wa(1,2) by linarith
    from Suc.IH[OF wa(3) this] show ?thesis
      using split_from_blanks[OF Suc.prems(1) blanks(1,2), folded j_def] blanks(3) by blast
  next
    case word
    have dk: "drop k buf = 32 # drop (Suc k) buf" using wa(7) word(4) by (metis Cons_nth_drop_Suc)
    then have "0 \<in> set (drop (Suc k) (buf[k := 0]))" using wa(8) by (auto simp: drop_update_cancel)
    moreover have "length (buf[k := 0]) - Suc k < n" using Suc.prems(2) wa(1,7) wa(10)[OF word(3)] by simp
    ultimately have "split_from n (Suc k) (argv @ [j]) (buf[k := 0])" by (rule Suc.IH)
    then show ?thesis
      using split_from_word[OF Suc.prems(1) word(1,2), folded j_def, folded k_def] word(3,4) by blast
  next
    case final
    obtain n' where n': "n = Suc n'" using Suc.prems(2) i by (cases n) auto
    show ?thesis
      unfolding n' using split_from_last[OF Suc.prems(1) final(1,2), folded j_def, folded k_def] final(3,4) by blast
  qed
qed simp

lemma split_args_ok:
  assumes "0 \<in> set (drop i buf)" "length buf - i < n"
  shows "\<exists>js buf'. split_args n i argv buf = Inr (argv @ js, buf') \<and> length buf' = length buf \<and> take i buf' = take i buf \<and>
    (\<forall>j \<in> set js. i \<le> j) \<and> map (\<lambda>j. cstr (drop j buf')) js = take (16 - length argv) (line_words (cstr (drop i buf)))"
  using split_from_ok[OF assms] unfolding split_from_def .

section \<open>What the commands leave alone\<close>

text \<open>
  A failed \<open>run\<close> leaves execute\_command before the line is cleared, so the line survives it:
  no step up to that point touches the shell's variables.
\<close>

lemma vm_more_print [simp]:
  "vm.more (kprint s x) = vm.more s" "vm.more (kprint_int s n) = vm.more s" "vm.more (kprint_hex s w) = vm.more s"
  by (simp_all add: kprint_def kprint_int_def kprint_hex_def)

lemma store32_more: "store32 a v (s :: 'a vm_scheme) = Inr s' \<Longrightarrow> vm.more s' = vm.more s"
  by (auto simp: store32_def bindE_eq_Inr)

lemma foldE_store_more:
  "foldE (\<lambda>i. store32 (f i) v) xs (s :: 'a vm_scheme) = Inr s' \<Longrightarrow> vm.more s' = vm.more s"
  by (induction xs arbitrary: s) (auto simp: bindE_eq_Inr dest: store32_more)

lemma map_page_more: "map_page ph va fl s = Inr s' \<Longrightarrow> vm.more s' = vm.more s"
  by (auto simp: map_page_def bindE_eq_Inr Let_def split: if_splits dest!: store32_more foldE_store_more)

lemma ensure_page_more: "ensure_page va s = Inr (r, s') \<Longrightarrow> vm.more s' = vm.more s"
  by (auto simp: ensure_page_def bindE_eq_Inr Let_def split: if_splits dest!: map_page_more)

lemma map_pages_more: "map_pages n va stop s = Inr (r, s') \<Longrightarrow> vm.more s' = vm.more s"
  by (induction n arbitrary: va s) (auto simp: bindE_eq_Inr split: if_splits dest!: ensure_page_more)

lemma load_segment_more: "load_segment b z ph s = Inr (r, s') \<Longrightarrow> vm.more s' = vm.more s"
  by (auto simp: load_segment_def map_segment_def bindE_eq_Inr Let_def split: if_splits
      dest!: map_pages_more simp del: map_pages.simps)

lemma load_segments_more: "load_segments i b z s = Inr (r, s') \<Longrightarrow> vm.more s' = vm.more s"
proof (induction i b z s arbitrary: r s' rule: load_segments.induct)
  case (1 i b z s)
  from 1(2) show ?case
    by (subst (asm) load_segments.simps)
      (auto simp: bindE_eq_Inr split: if_splits dest: load_segment_more dest!: 1(1)[rotated -1])
qed

lemma load_elf_program_more: "load_elf_program b z out s = Inr (r, ent, s') \<Longrightarrow> vm.more s' = vm.more s"
  by (auto simp: load_elf_program_def bindE_eq_Inr split: if_splits dest!: load_segments_more)

lemma kernel_more:
  "vm.more s' = vm.more s \<Longrightarrow> kernel.more s' = kernel.more s" "fatsys.more s' = fatsys.more s \<Longrightarrow> kernel.more s' = kernel.more s"
  for s s' :: "'a kernel_scheme"
  by (cases s; cases s'; simp)+

lemma fat16_read_file_more: "fat16_read_file f n x z s = Inr (r, bs, s') \<Longrightarrow> fatsys.more s' = fatsys.more s"
  by (auto simp: fat16_read_file_def bindE_eq_Inr Let_def kprint_def split: option.splits prod.splits)

lemma read_file_to_more: "read_file_to e n x b z s = Inr (r, s') \<Longrightarrow> kernel.more s' = kernel.more s"
  by (auto simp: read_file_to_def bindE_eq_Inr dest!: fat16_read_file_more intro: kernel_more(2))

lemma run_image_early: "run_image e img n s = Inr (True, s') \<Longrightarrow> kernel.more s' = kernel.more s"
  by (auto simp: run_image_def load_flat_def palloc_def bindE_eq_Inr Let_def split: if_splits
      dest!: load_elf_program_more intro: kernel_more(1))

lemma cmd_run_early: "cmd_run e ws s = Inr (True, s') \<Longrightarrow> kernel.more s' = kernel.more s"
  by (auto simp: cmd_run_def kalloc_a_def bindE_eq_Inr Let_def split: if_splits list.splits prod.splits
      dest!: run_image_early read_file_to_more intro: kernel_more(1))

section \<open>The line editor\<close>

text \<open>
  The line typed so far is the buffer up to buffer\_index, and the rest of the buffer is clear.
  \<open>typed\<close> is what a key means: a letter is a capital when exactly one of shift and caps lock
  is on, any other key takes its character from the table shift selects.
\<close>

definition line :: "'a shell_scheme \<Rightarrow> u8 list" where
  "line s = take (buffer_index s) (input_buffer s)"

definition line_ok :: "'a shell_scheme \<Rightarrow> bool" where
  "line_ok s \<longleftrightarrow> length (input_buffer s) = BUFFER_SIZE \<and> buffer_index s < BUFFER_SIZE \<and>
     drop (buffer_index s) (input_buffer s) = replicate (BUFFER_SIZE - buffer_index s) 0"

definition letter :: "u8 \<Rightarrow> bool" where
  "letter c \<longleftrightarrow> 97 \<le> c \<and> c \<le> 122"

definition typed :: "bool \<Rightarrow> bool \<Rightarrow> nat \<Rightarrow> u8" where
  "typed shift capital sc =
     (if letter (kbd_us ! sc) then (if shift \<noteq> capital then kbd_us ! sc - 32 else kbd_us ! sc)
      else if shift then kbd_us_shift ! sc else kbd_us ! sc)"

definition edit_line :: "u8 \<Rightarrow> u8 list \<Rightarrow> u8 list" where
  "edit_line c l = (if c = 8 then butlast l else if c = 0 \<or> length l \<ge> 255 then l else l @ [c])"

text \<open>The keys that edit the line: no modifier, no release code, and not Enter.\<close>

definition edit_key :: "u8 \<Rightarrow> bool" where
  "edit_key sc \<longleftrightarrow> sc < 128 \<and> sc \<noteq> 0x2A \<and> sc \<noteq> 0x36 \<and> sc \<noteq> 0x3A \<and> sc \<noteq> 0x1C"

definition raw_key :: "bool \<Rightarrow> nat \<Rightarrow> u8" where
  "raw_key shift sc = (if shift then kbd_us_shift else kbd_us) ! sc"

text \<open>The two tables agree on what each key is, which is checked entry by entry.\<close>

definition key_pair_ok :: "nat \<times> u8 \<times> u8 \<Rightarrow> bool" where
  "key_pair_ok = (\<lambda>(i, a, b).
     (if letter a then b = a - 32 \<and> 65 \<le> b \<and> b \<le> 90
      else \<not> letter b \<and> \<not> (65 \<le> a \<and> a \<le> 90) \<and> \<not> (65 \<le> b \<and> b \<le> 90)) \<and>
     (a = 8) = (b = 8) \<and> (a = 0) = (b = 0) \<and> (a = 10) = (i = 28) \<and> (b = 10) = (i = 28))"

lemma key_tables: "list_all key_pair_ok (zip [0..<128] (zip kbd_us kbd_us_shift))"
  by code_simp

lemma kbd_length: "length kbd_us = 128" "length kbd_us_shift = 128"
  by (simp_all add: kbd_us_def kbd_us_shift_def)

lemma key_pair: "sc < 128 \<Longrightarrow> key_pair_ok (sc, kbd_us ! sc, kbd_us_shift ! sc)"
  using key_tables by (auto simp: list_all_length kbd_length dest!: spec[of _ sc])

lemma raw_key_typed:
  assumes "sc < 128"
  shows "swap_case cp (raw_key sh sc) = typed sh cp sc" "raw_key sh sc = 8 \<longleftrightarrow> typed sh cp sc = 8"
    "raw_key sh sc = 0 \<longleftrightarrow> typed sh cp sc = 0" "raw_key sh sc = 10 \<longleftrightarrow> sc = 28"
proof -
  note k = key_pair[OF assms, unfolded key_pair_ok_def prod.case]
  show "raw_key sh sc = 10 \<longleftrightarrow> sc = 28" using k by (simp add: raw_key_def)
  have capital: "\<not> letter b" if "65 \<le> b" "b \<le> 90" for b using that by (auto simp: letter_def word_le_nat_alt)
  have swap: "swap_case cp b =
      (if letter b then (if cp then b - 32 else b) else if 65 \<le> b \<and> b \<le> 90 then (if cp then b + 32 else b) else b)" for b
    by (simp add: swap_case_def letter_def)
  show "swap_case cp (raw_key sh sc) = typed sh cp sc"
    using k capital[of "kbd_us_shift ! sc"] unfolding swap
    by (cases "letter (kbd_us ! sc)"; cases sh; cases cp; simp add: raw_key_def typed_def)
  have low: "a - 32 \<noteq> 8 \<and> a - 32 \<noteq> 0 \<and> a \<noteq> 8 \<and> a \<noteq> 0" if "letter a" "65 \<le> a - 32" for a :: u8
    using that by (auto simp: letter_def)
  show "raw_key sh sc = 8 \<longleftrightarrow> typed sh cp sc = 8" "raw_key sh sc = 0 \<longleftrightarrow> typed sh cp sc = 0"
    using k low[of "kbd_us ! sc"] by (cases "letter (kbd_us ! sc)"; cases sh; cases cp; simp add: raw_key_def typed_def)+
qed

lemma release_code: "\<not> sc < 128 \<longleftrightarrow> sc AND 0x80 \<noteq> 0" for sc :: u8
proof -
  have "unat sc < 256" using unsigned_less[of sc] by simp
  then have "unat sc div 128 = 0 \<or> unat sc div 128 = 1" by linarith
  moreover have "unat (drop_bit 7 sc) = unat sc div 128" by (simp add: drop_bit_eq_div unat_div)
  ultimately have "drop_bit 7 sc = (if unat sc < 128 then 0 else 1)" unfolding word_unat_eq_iff by auto
  then have "bit sc 7 \<longleftrightarrow> \<not> unat sc < 128" by (simp add: bit_iff_odd_drop_bit)
  then show ?thesis using and_exp_eq_0_iff_not_bit[of sc 7] by (simp add: word_less_nat_alt)
qed

lemma handle_key:
  assumes "edit_key sc" "line_ok s"
  defines "c \<equiv> typed (shift_pressed s \<noteq> 0) (caps s \<noteq> 0) (unat sc)"
  shows "handle_keyboard_interrupt e sc s =
    Inr (if c = 8 then
           (if line s = [] then s
            else kprint (s\<lparr>buffer_index := buffer_index s - 1, input_buffer := (input_buffer s)[buffer_index s - 1 := 0]\<rparr>) [8, 32, 8])
         else if c \<noteq> 0 \<and> length (line s) < 255 then
           (kprint (s\<lparr>input_buffer := (input_buffer s)[buffer_index s := c]\<rparr>) [c, 0])\<lparr>buffer_index := buffer_index s + 1\<rparr>
         else s)"
proof -
  let ?a = "raw_key (shift_pressed s \<noteq> 0) (unat sc)"
  have sc: "unat sc < 128" "unat sc \<noteq> 28" "\<not> sc AND 0x80 \<noteq> 0"
  proof -
    show small: "unat sc < 128" using assms(1) by (simp add: edit_key_def word_less_nat_alt)
    show "unat sc \<noteq> 28" using assms(1) by (simp add: edit_key_def word_unat_eq_iff)
    show "\<not> sc AND 0x80 \<noteq> 0" using assms(1) release_code[of sc] by (simp add: edit_key_def)
  qed
  note rk = raw_key_typed(1-3)[OF sc(1), where sh = "shift_pressed s \<noteq> 0" and cp = "caps s \<noteq> 0", folded c_def]
    raw_key_typed(4)[OF sc(1), where sh = "shift_pressed s \<noteq> 0"]
  have at: "at (if shift_pressed s \<noteq> 0 then kbd_us_shift else kbd_us) (unat sc) = Inr ?a"
    using sc(1) by (simp add: at_def raw_key_def kbd_length)
  have len: "length (line s) = buffer_index s" "buffer_index s < 256" "length (input_buffer s) = 256"
    using assms(2) by (simp_all add: line_def line_ok_def BUFFER_SIZE_def)
  have "handle_keyboard_interrupt e sc s =
      (if ?a = 8 then
         (if buffer_index s > 0 then
            Inr (kprint (s\<lparr>buffer_index := buffer_index s - 1, input_buffer := (input_buffer s)[buffer_index s - 1 := 0]\<rparr>) [8, 32, 8])
          else Inr s)
       else if ?a \<noteq> 0 then
         (if buffer_index s < 255 then
            Inr ((kprint (s\<lparr>input_buffer := (input_buffer s)[buffer_index s := c]\<rparr>) [c, 0])\<lparr>buffer_index := buffer_index s + 1\<rparr>)
          else Inr s)
       else Inr s)"
  proof -
    have no: "\<not> (sc = 0x2A \<or> sc = 0x36)" "\<not> (sc = 0xAA \<or> sc = 0xB6)" "\<not> sc = 0x3A" "\<not> ?a = 10"
      using assms(1) sc(2) rk(4) by (auto simp: edit_key_def)
    have le: "buffer_index s - 1 < 256" "256 - 1 = (255 :: nat)" using len(2) by simp_all
    show ?thesis
      unfolding handle_keyboard_interrupt_def at bindE_Inr rk(1) Let_def BUFFER_SIZE_def
      by (simp only: no sc(3) len(2,3) le if_False if_True) (simp add: kprint_def)
  qed
  then show ?thesis using rk(2,3) len(1) by (simp del: length_0_conv add: length_0_conv[symmetric])
qed

text \<open>The clear part of the buffer, and the C string in it.\<close>

lemma line_ok_iff:
  "line_ok s \<longleftrightarrow> buffer_index s < 256 \<and> length (line s) = buffer_index s \<and> input_buffer s = line s @ replicate (256 - buffer_index s) 0"
proof
  assume "line_ok s"
  then show "buffer_index s < 256 \<and> length (line s) = buffer_index s \<and> input_buffer s = line s @ replicate (256 - buffer_index s) 0"
    unfolding line_ok_def line_def BUFFER_SIZE_def by (metis append_take_drop_id length_take less_imp_le min.absorb2)
next
  assume r: "buffer_index s < 256 \<and> length (line s) = buffer_index s \<and> input_buffer s = line s @ replicate (256 - buffer_index s) 0"
  then have "length (input_buffer s) = 256" by (metis le_add_diff_inverse length_append length_replicate less_imp_le)
  moreover have "drop (buffer_index s) (line s @ replicate (256 - buffer_index s) 0) = replicate (256 - buffer_index s) 0"
    using r by simp
  ultimately show "line_ok s" using r by (simp add: line_ok_def BUFFER_SIZE_def)
qed

lemma line_nul:
  assumes "line_ok s"
  shows "0 \<in> set (input_buffer s)" "cstr (input_buffer s) = cstr (line s)"
proof -
  have b: "buffer_index s < 256" "input_buffer s = line s @ replicate (256 - buffer_index s) 0" using assms by (simp_all add: line_ok_iff)
  obtain m where "256 - buffer_index s = Suc m" using b(1) by (cases "256 - buffer_index s") auto
  then have r: "replicate (256 - buffer_index s) (0 :: u8) = 0 # replicate m 0" by simp
  show "0 \<in> set (input_buffer s)" unfolding b(2) r by simp
  have "takeWhile (\<lambda>c. c \<noteq> 0) (xs @ 0 # ys) = takeWhile (\<lambda>c. c \<noteq> 0) xs" for xs ys :: "u8 list"
    by (induction xs) auto
  then show "cstr (input_buffer s) = cstr (line s)" unfolding cstr_def b(2) r .
qed

lemma key_edits:
  assumes "line_ok s" "edit_key sc"
  shows "\<exists>s'. handle_keyboard_interrupt e sc s = Inr s' \<and> line_ok s' \<and>
    line s' = edit_line (typed (shift_pressed s \<noteq> 0) (caps s \<noteq> 0) (unat sc)) (line s) \<and>
    s'\<lparr>scr := scr s, input_buffer := input_buffer s, buffer_index := buffer_index s\<rparr> = s"
proof -
  have b: "buffer_index s < 256" "length (line s) = buffer_index s"
    "input_buffer s = line s @ replicate (256 - buffer_index s) 0" using assms(1) by (simp_all add: line_ok_iff)
  let ?c = "typed (shift_pressed s \<noteq> 0) (caps s \<noteq> 0) (unat sc)"
  note h = handle_key[OF assms(2,1), of e]
  consider (del) "?c = 8" "line s \<noteq> []" | (none) "?c = 8" "line s = []" | (add) "?c \<noteq> 8" "?c \<noteq> 0" "length (line s) < 255"
    | (skip) "?c \<noteq> 8" "?c = 0 \<or> \<not> length (line s) < 255" by blast
  then show ?thesis
  proof cases
    case del
    then obtain l x where l: "line s = l @ [x]" by (metis rev_exhaust)
    have n: "buffer_index s = Suc (length l)" using b(2) l by simp
    have "(input_buffer s)[length l := 0] = l @ replicate (256 - length l) 0"
      using Suc_diff_Suc[of "length l" 256, symmetric] b(1) n unfolding b(3) l by (simp add: list_update_append)
    then show ?thesis using h del n l b(1) by (simp add: line_ok_iff line_def edit_line_def kprint_def)
  next
    case add
    have "(input_buffer s)[buffer_index s := ?c] = (line s @ [?c]) @ replicate (256 - Suc (buffer_index s)) 0"
      using b add(3) unfolding b(3) by (simp add: list_update_append Suc_diff_Suc[symmetric])
    then show ?thesis using h add b(1,2) by (simp add: line_ok_iff line_def edit_line_def kprint_def)
  next
    case none
    then show ?thesis using h assms(1) by (simp add: edit_line_def)
  next
    case skip
    then show ?thesis using h assms(1) by (auto simp: edit_line_def)
  qed
qed

text \<open>
  Every key that is not a modifier, a release or Enter edits the line as \<open>edit_line\<close> says:
  backspace removes the last character, a printable key appends its character unless the line has
  255 characters already, and nothing else of the system but the screen changes.\<close>

theorem key_edits_line:
  assumes "line_ok s" "edit_key sc"
  shows "\<exists>s'. handle_keyboard_interrupt e sc s = Inr s' \<and> line_ok s' \<and>
    line s' = edit_line (typed (shift_pressed s \<noteq> 0) (caps s \<noteq> 0) (unat sc)) (line s) \<and>
    s'\<lparr>scr := scr s, input_buffer := input_buffer s, buffer_index := buffer_index s\<rparr> = s"
  using key_edits[OF assms] .

section \<open>Enter\<close>

text \<open>Splitting only writes NULs, so it keeps the clear part of the buffer clear.\<close>

lemma split_args_zeros:
  "split_args n i argv buf = Inr (js, buf') \<Longrightarrow> length buf' = length buf \<and> (\<forall>m < length buf. buf' ! m = buf ! m \<or> buf' ! m = 0)"
proof (induction n arbitrary: i argv buf)
  case (Suc n)
  from Suc.prems consider "buf' = buf" | j argv where "split_args n j argv buf = Inr (js, buf')"
    | j k argv where "split_args n j argv (buf[k := 0]) = Inr (js, buf')"
    by (auto simp: bindE_eq_Inr split: if_splits)
  then show ?case
  proof cases
    case (3 j k argv)
    have "(buf[k := 0]) ! m = buf ! m \<or> (buf[k := 0]) ! m = 0" if "m < length buf" for m
      using that by (cases "m = k") simp_all
    then show ?thesis using Suc.IH[OF 3] by (metis length_list_update)
  qed (use Suc.IH in blast)+
qed simp

declare split_args.simps(2) [simp del]

lemma shell_kprint [simp]:
  "input_buffer (kprint s x) = input_buffer s" "buffer_index (kprint s x) = buffer_index s"
  by (simp_all add: kprint_def)

text \<open>The arguments of a line that ends in a NUL: the first sixteen words of its string.\<close>

lemma split_line:
  assumes "0 \<in> set buf"
  obtains argv buf' where "split_args (Suc (length buf)) 0 [] buf = Inr (argv, buf')"
    "map cstr (arg_strings argv buf') = take 16 (line_words (cstr buf))"
  using split_args_ok[of 0 buf "Suc (length buf)" "[]"] assms by (auto simp: arg_strings_def comp_def)

lemma split_short_line:
  assumes "0 \<in> set buf" "line_words (cstr buf) = ws" "length ws \<le> 16"
  obtains argv buf' where "split_args (Suc (length buf)) 0 [] buf = Inr (argv, buf')" "map cstr (arg_strings argv buf') = ws"
  using split_line[OF assms(1)] assms(2,3) by (metis take_all)

lemma is_cmd_iff: "is_cmd w name \<longleftrightarrow> cstr w = cstr (bytes name)"
  by (simp add: is_cmd_def strcmp_zero_cstr)

lemma shell_more:
  "kernel.more s' = kernel.more s \<Longrightarrow> input_buffer s' = input_buffer s \<and> buffer_index s' = buffer_index s"
  for s s' :: "'a shell_scheme"
  by (cases s; cases s'; simp)

lemma ret_early: "ret r \<noteq> Inr (True, s)"
  by (cases r) (simp_all add: ret_def)

lemma run_command_early:
  assumes "run_command e w ws s = Inr (True, s')"
  shows "cmd_run (env.truncate e) ws s = Inr (True, s')"
  using assms unfolding run_command_def by (simp only: ret_early sum.distinct split: if_splits)

lemma run_command_run:
  assumes "cstr w = [114, 117, 110]"
  shows "run_command e w ws s = cmd_run (env.truncate e) ws s"
  by (simp add: run_command_def is_cmd_iff[of w, unfolded assms] bytes_def cstr_def)

lemma prompt_line: "line_ok (prompt s)" "line (prompt s) = []"
  by (simp_all add: prompt_def Let_def line_ok_iff line_def BUFFER_SIZE_def)

text \<open>A command leaves the line empty, or, when it returned early, as the splitting left it.\<close>

lemma execute_command_line:
  assumes "execute_command e s = Inr s'"
  obtains (cleared) "line_ok s'" "line s' = []"
  | (early) argv buf w ws where "split_args (Suc (length (input_buffer s))) 0 [] (input_buffer s) = Inr (argv, buf)"
      "arg_strings argv buf = w # ws" "input_buffer s' = buf" "buffer_index s' = buffer_index s"
proof -
  obtain argv buf where sp: "split_args (Suc (length (input_buffer s))) 0 [] (input_buffer s) = Inr (argv, buf)"
    using assms by (auto simp: execute_command_def Let_def bindE_eq_Inr)
  show ?thesis
  proof (cases "arg_strings argv buf")
    case Nil
    then have "s' = prompt (kprint s (bytes ''\<newline>'')\<lparr>input_buffer := buf\<rparr>)"
      using assms sp by (simp add: execute_command_def Let_def)
    then show ?thesis using cleared prompt_line by blast
  next
    case (Cons w ws)
    let ?s = "kprint s (bytes ''\<newline>'')\<lparr>input_buffer := buf\<rparr>"
    obtain b s3 where r: "run_command e w ws ?s = Inr (b, s3)" "s' = (if b then s3 else prompt s3)"
      using assms sp Cons by (auto simp: execute_command_def Let_def bindE_eq_Inr)
    show ?thesis
    proof (cases b)
      case True
      then have "run_command e w ws ?s = Inr (True, s3)" using r(1) by simp
      from cmd_run_early[OF run_command_early[OF this]] have "input_buffer s' = buf" "buffer_index s' = buffer_index s"
        using r(2) True shell_more[of s3 ?s] by simp_all
      then show ?thesis using early sp Cons by blast
    next
      case False
      then show ?thesis using cleared prompt_line[of s3] r(2) by simp
    qed
  qed
qed

lemma line_ok_nth:
  "line_ok s \<longleftrightarrow> length (input_buffer s) = 256 \<and> buffer_index s < 256 \<and> (\<forall>m. buffer_index s \<le> m \<and> m < 256 \<longrightarrow> input_buffer s ! m = 0)"
proof -
  have "drop n xs = replicate (256 - n) 0 \<longleftrightarrow> (\<forall>m. n \<le> m \<and> m < 256 \<longrightarrow> xs ! m = 0)"
    if "length xs = 256" "n < 256" for xs :: "u8 list" and n
  proof -
    have "drop n xs = replicate (256 - n) 0 \<longleftrightarrow> (\<forall>i < 256 - n. xs ! (n + i) = 0)" using that by (auto simp: list_eq_iff_nth_eq)
    also have "\<dots> \<longleftrightarrow> (\<forall>m. n \<le> m \<and> m < 256 \<longrightarrow> xs ! m = 0)"
      by (metis (no_types, lifting) le_add1 le_add_diff_inverse less_diff_conv add.commute)
    finally show ?thesis .
  qed
  then show ?thesis unfolding line_ok_def BUFFER_SIZE_def by blast
qed

lemma enter_key: "line_ok s \<Longrightarrow> handle_keyboard_interrupt e 0x1C s = execute_command e s"
proof -
  assume ok: "line_ok s"
  then have z: "buffer_index s < length (input_buffer s)" "(input_buffer s)[buffer_index s := 0] = input_buffer s"
    using list_update_id[of "input_buffer s" "buffer_index s"] by (simp_all add: line_ok_nth)
  have a: "at (if shift_pressed s \<noteq> 0 then kbd_us_shift else kbd_us) (unat (0x1C :: u8)) = Inr 10"
    by (simp add: at_def kbd_us_def kbd_us_shift_def)
  show ?thesis using z unfolding handle_keyboard_interrupt_def a by simp
qed

lemma key_event_line:
  assumes "line_ok s" "keyboard_handler e sc s = Inr s'"
  shows "line_ok s'"
proof -
  obtain s1 where h: "handle_keyboard_interrupt e sc s = Inr s1" and s': "s' = s1\<lparr>dev := outb 0x20 0x20 (dev s1)\<rparr>"
    using assms(2) by (auto simp: keyboard_handler_def bindE_eq_Inr)
  have "line_ok s1"
  proof (cases "edit_key sc")
    case True
    then show ?thesis using key_edits[OF assms(1), of sc e] h by auto
  next
    case False
    show ?thesis
    proof (cases "sc = 0x1C")
      case True
      then have "execute_command e s = Inr s1" using h enter_key[OF assms(1), of e] by simp
      then show ?thesis
      proof (cases rule: execute_command_line)
        case (early argv buf w ws)
        then show ?thesis using assms(1) split_args_zeros[OF early(1)] by (auto simp: line_ok_nth)
      qed simp
    next
      case other: False
      have "\<not> sc < 128 \<Longrightarrow> sc AND 0x80 \<noteq> 0"
        using release_code by blast
      then have "input_buffer s1 = input_buffer s \<and> buffer_index s1 = buffer_index s"
        using h False other by (auto simp: handle_keyboard_interrupt_def edit_key_def split: if_splits)
      then show ?thesis using assms(1) by (simp add: line_ok_def)
    qed
  qed
  then show ?thesis by (simp add: s' line_ok_def)
qed

lemma enter_words:
  assumes "line_ok s"
  shows "\<exists>argv buf. map cstr argv = take 16 (line_words (cstr (line s))) \<and>
    handle_keyboard_interrupt e 0x1C s =
      (let s1 = (kprint s (bytes ''\<newline>''))\<lparr>input_buffer := buf\<rparr>
       in case argv of
            [] \<Rightarrow> Inr (prompt s1)
          | w # ws \<Rightarrow> bindE (run_command e w ws s1) (\<lambda>(early, s2). Inr (if early then s2 else prompt s2)))"
proof -
  obtain argv buf where "split_args (Suc (length (input_buffer s))) 0 [] (input_buffer s) = Inr (argv, buf)"
    "map cstr (arg_strings argv buf) = take 16 (line_words (cstr (line s)))"
    using split_line[OF line_nul(1)[OF assms]] line_nul(2)[OF assms] by metis
  then show ?thesis
    by (intro exI[of _ "arg_strings argv buf"] exI[of _ buf]) (simp add: enter_key[OF assms] execute_command_def Let_def)
qed

text \<open>
  Whatever key event arrives, the line buffer keeps its 256 bytes, the index stays inside it
  with room for the final NUL, and the buffer is clear from the index on; the handler never
  writes outside the buffer.\<close>

theorem key_event_keeps_line:
  assumes "line_ok s" "keyboard_handler e sc s = Inr s'"
  shows "line_ok s'"
  using key_event_line[OF assms] .

text \<open>
  C13: Enter splits the typed line, in place and with its bounded argument array, into exactly the
  first sixteen blank-separated words of the line, and runs the command the first of them names.\<close>

theorem enter_runs_words:
  assumes "line_ok s"
  shows "\<exists>argv buf. map cstr argv = take 16 (line_words (cstr (line s))) \<and>
    handle_keyboard_interrupt e 0x1C s =
      (let s1 = (kprint s (bytes ''\<newline>''))\<lparr>input_buffer := buf\<rparr>
       in case argv of
            [] \<Rightarrow> Inr (prompt s1)
          | w # ws \<Rightarrow> bindE (run_command e w ws s1) (\<lambda>(early, s2). Inr (if early then s2 else prompt s2)))"
  using enter_words[OF assms] .

subsection \<open>A failed run\<close>

text \<open>The state after \<open>run\<close> gave up: the line starts with \<open>run\<close> and a NUL, and is not empty.\<close>

definition stuck_run :: "'a shell_scheme \<Rightarrow> bool" where
  "stuck_run s \<longleftrightarrow> line_ok s \<and> 4 \<le> buffer_index s \<and> take 4 (input_buffer s) = [114, 117, 110, 0]"

lemma stuck_words:
  assumes "stuck_run s"
  shows "line_words (cstr (input_buffer s)) = [[114, 117, 110]]"
proof -
  obtain r where "input_buffer s = 114 # 117 # 110 # 0 # r"
    using assms append_take_drop_id[of 4 "input_buffer s"] that[of "drop 4 (input_buffer s)"] by (simp add: stuck_run_def)
  then have "cstr (input_buffer s) = [114, 117, 110]" by (simp add: cstr_def)
  then show ?thesis by (simp add: line_words.simps)
qed

lemma stuck_enter:
  assumes "stuck_run s"
  shows "handle_keyboard_interrupt e 0x1C s = Inr (prompt (kprint (kprint s (bytes ''\<newline>'')) (bytes ''Usage: run <filename.ext>\<newline>'')))"
proof -
  have ok: "line_ok s" using assms by (simp add: stuck_run_def)
  obtain argv buf where sp: "split_args (Suc (length (input_buffer s))) 0 [] (input_buffer s) = Inr (argv, buf)"
    "map cstr (arg_strings argv buf) = [[114, 117, 110]]"
    using split_short_line[OF line_nul(1)[OF ok] stuck_words[OF assms]] by auto
  obtain w where w: "arg_strings argv buf = [w]" "cstr w = [114, 117, 110]" using sp(2) by auto
  have "run_command e w [] t = Inr (False, kprint t (bytes ''Usage: run <filename.ext>\<newline>''))" for t :: "'a shell_scheme"
    by (simp add: run_command_run[OF w(2)] cmd_run_def)
  then show ?thesis
    using sp(1) w(1) by (simp add: enter_key[OF ok] execute_command_def Let_def prompt_def kprint_def)
qed

lemma stuck_key:
  assumes "stuck_run s" "edit_key k" "kbd_us ! unat k \<noteq> 8"
  shows "\<exists>s'. handle_keyboard_interrupt e k s = Inr s' \<and> stuck_run s'"
proof -
  let ?c = "typed (shift_pressed s \<noteq> 0) (caps s \<noteq> 0) (unat k)"
  have ok: "line_ok s" "4 \<le> length (line s)" "take 4 (line s) = [114, 117, 110, 0]"
    using assms(1) by (auto simp: stuck_run_def line_ok_iff line_def)
  have k: "unat k < 128" using assms(2) by (simp add: edit_key_def word_less_nat_alt)
  have "raw_key sh (unat k) \<noteq> 8" for sh using key_pair[OF k] assms(3) by (simp add: key_pair_ok_def raw_key_def)
  then have c: "?c \<noteq> 8" using raw_key_typed(2)[OF k] by blast
  obtain s' where s': "handle_keyboard_interrupt e k s = Inr s'" "line_ok s'" "line s' = edit_line ?c (line s)"
    using key_edits[OF ok(1) assms(2), of e] by blast
  have "4 \<le> length (line s')" "take 4 (line s') = [114, 117, 110, 0]" using c ok(2,3) s'(3) by (auto simp: edit_line_def)
  then have "stuck_run s'" using s'(2) by (auto simp: stuck_run_def line_ok_iff line_def)
  then show ?thesis using s'(1) by blast
qed

lemma stuck_keys:
  "stuck_run s \<Longrightarrow> \<forall>k \<in> set ks. edit_key k \<and> kbd_us ! unat k \<noteq> 8 \<Longrightarrow>
   \<exists>s'. foldE (handle_keyboard_interrupt e) ks s = Inr s' \<and> stuck_run s'"
proof (induction ks arbitrary: s)
  case (Cons k ks)
  then obtain s1 where "handle_keyboard_interrupt e k s = Inr s1" "stuck_run s1" using stuck_key[of s k e] by auto
  then show ?case using Cons.IH[of s1] Cons.prems(2) by auto
qed simp

lemma run_stuck:
  assumes "line_ok s" "take 4 (line s) = bytes ''run ''" "execute_command e s = Inr s'" "buffer_index s' \<noteq> 0"
  shows "stuck_run s'"
  using assms(3)
proof (cases rule: execute_command_line)
  case cleared
  then show ?thesis using assms(4) by (auto simp: line_ok_iff)
next
  case (early argv buf w ws)
  let ?b = "input_buffer s"
  have b4: "take 4 ?b = [114, 117, 110, 32]" "4 \<le> buffer_index s" and len: "length ?b = 256"
    using assms(1,2) by (auto simp: line_def line_ok_nth bytes_def min_def split: if_splits dest: arg_cong[of _ _ length])
  obtain r where b: "?b = 114 # 117 # 110 # 32 # r"
    using append_take_drop_id[of 4 ?b] b4(1) that[of "drop 4 ?b"] by simp
  have at: "at ?b 0 = Inr 114" "at ?b 3 = Inr 32" using len b by (simp_all add: at_def)
  have nul: "0 \<in> set (drop 0 ?b)" "0 \<in> set (drop 4 (?b[3 := 0]))" using line_nul(1)[OF assms(1)] b4(1)
    by (simp_all add: b)
  have "skip_spaces 0 ?b = Inr 0" "skip_word 0 ?b = Inr 3"
    unfolding skip_spaces_eq[OF nul(1)] skip_word_eq[OF nul(1)] by (simp_all add: b)
  then have "split_args 256 4 [0] (?b[3 := 0]) = Inr (argv, buf)"
    using early(1) at unfolding len split_args.simps(2) by simp
  moreover have "\<exists>js b'. split_args 256 4 [0] (?b[3 := 0]) = Inr ([0] @ js, b') \<and> take 4 b' = take 4 (?b[3 := 0])"
    using split_args_ok[OF nul(2), of 256 "[0]"] len by auto
  ultimately have "take 4 buf = (take 4 ?b)[3 := 0]" by (simp add: take_update_swap)
  then have "take 4 (input_buffer s') = [114, 117, 110, 0]" using early(3) b4(1) by (simp add: numeral_3_eq_3)
  moreover have "line_ok s'" using assms(1) early split_args_zeros[OF early(1)] by (auto simp: line_ok_nth)
  ultimately show ?thesis using early(4) b4(2) by (simp add: stuck_run_def)
qed


section \<open>A sample shell\<close>

definition sample_shell_env :: shell_env where
  "sample_shell_env = \<lparr>fuel = 16, user_prog = (\<lambda>t m. Inr (t, m)),
     cpu_state = \<lparr>c_regs = zero_regs, c_eflags = 0, c_esp = 0\<rparr>, stack_bytes = (\<lambda>i. 0)\<rparr>"

definition sample_shell :: "u8 list \<Rightarrow> shell" where
  "sample_shell l = kernel.extend (sample_kernel\<lparr>pm := (pm sample_kernel)\<lparr>free_mem_addr := 0, mem_bitmap := [0]\<rparr>\<rparr>)
     \<lparr>shift_pressed = 0, caps = 0, input_buffer = l @ replicate (256 - length l) 0, buffer_index = length l\<rparr>"

lemma sample_shell_fields:
  "input_buffer (sample_shell l) = l @ replicate (256 - length l) 0" "buffer_index (sample_shell l) = length l"
  "shift_pressed (sample_shell l) = 0" "caps (sample_shell l) = 0"
  "pm (sample_shell l) = (pm sample_kernel)\<lparr>free_mem_addr := 0, mem_bitmap := [0]\<rparr>"
  by (simp_all add: sample_shell_def kernel.defs)

lemma sample_line: "length l < 256 \<Longrightarrow> line_ok (sample_shell l)" "line (sample_shell l) = l"
  by (simp_all add: line_ok_iff line_def sample_shell_fields)

theorem key_edits_line_witness:
  "\<exists>s'. handle_keyboard_interrupt sample_shell_env 0x1E (sample_shell [104]) = Inr s' \<and> line s' = [104, 97]"
  using key_edits_line[of "sample_shell [104]" "0x1E" sample_shell_env]
  by (auto simp: sample_line sample_shell_fields edit_key_def edit_line_def typed_def letter_def kbd_us_def)

theorem enter_runs_words_witness:
  "\<exists>argv buf. map cstr argv = [[112, 119, 100]] \<and>
    handle_keyboard_interrupt sample_shell_env 0x1C (sample_shell [32, 112, 119, 100]) =
      (let s1 = (kprint (sample_shell [32, 112, 119, 100]) (bytes ''\<newline>''))\<lparr>input_buffer := buf\<rparr>
       in case argv of
            [] \<Rightarrow> Inr (prompt s1)
          | w # ws \<Rightarrow> bindE (run_command sample_shell_env w ws s1) (\<lambda>(early, s2). Inr (if early then s2 else prompt s2)))"
proof -
  have "line_words (cstr (line (sample_shell [32, 112, 119, 100]))) = [[112, 119, 100]]"
    by (simp add: sample_line cstr_def line_words.simps)
  then show ?thesis
    using enter_runs_words[OF sample_line(1)[of "[32, 112, 119, 100]"], of sample_shell_env] by (simp only: list.size) simp
qed

lemma sample_kalloc:
  "pm (s :: 'a kernel_scheme) = (pm sample_kernel)\<lparr>free_mem_addr := 0, mem_bitmap := [0]\<rparr> \<Longrightarrow> \<exists>s1. kalloc_a 4096 s = Inr (0, s1)"
  by (simp add: kalloc_a_def kmalloc_a_def pmm_mark_used_def pmm_set_bit_def Let_def)

lemma sample_failed_run:
  "\<exists>s1. handle_keyboard_interrupt sample_shell_env 0x1C (sample_shell (bytes ''run x'')) = Inr s1 \<and> buffer_index s1 = 5"
proof -
  let ?s = "sample_shell (bytes ''run x'')"
  have ok: "line_ok ?s" by (rule sample_line) (simp add: bytes_def)
  have "line_words (cstr (input_buffer ?s)) = [[114, 117, 110], [120]]"
    (is "_ = ?ws") unfolding line_nul(2)[OF ok] sample_line by (simp add: bytes_def cstr_def line_words.simps)
  from split_short_line[OF line_nul(1)[OF ok] this] obtain argv buf where
    sp: "split_args (Suc (length (input_buffer ?s))) 0 [] (input_buffer ?s) = Inr (argv, buf)" "map cstr (arg_strings argv buf) = ?ws"
    by auto
  then obtain w v where w: "arg_strings argv buf = [w, v]" "cstr w = [114, 117, 110]" by auto
  let ?t = "(kprint ?s (bytes ''\<newline>''))\<lparr>input_buffer := buf\<rparr>"
  obtain s1 where s1: "kalloc_a 4096 ?t = Inr (0, s1)"
    using sample_kalloc[of ?t] by (auto simp: sample_shell_fields kprint_def)
  have run: "run_command sample_shell_env w [v] ?t = Inr (True, kprint s1 (bytes ''run: kmalloc failed\<newline>''))"
    by (simp add: run_command_run[OF w(2)] cmd_run_def s1 split: prod.splits)
  have "buffer_index ?t = 5" by (simp add: sample_shell_fields bytes_def)
  then have "buffer_index (kprint s1 (bytes ''run: kmalloc failed\<newline>'')) = 5"
    using shell_more[OF cmd_run_early[OF run_command_early[OF run]]] by (simp only:)
  then show ?thesis using run sp(1) w(1) by (simp add: enter_key[OF ok] execute_command_def Let_def)
qed


theorem key_event_keeps_line_witness:
  "\<exists>s'. keyboard_handler sample_shell_env 0x1E (sample_shell [104]) = Inr s' \<and> line_ok s'"
proof -
  obtain s' where "keyboard_handler sample_shell_env 0x1E (sample_shell [104]) = Inr s'"
    using key_edits[OF sample_line(1)[of "[104]"], of "0x1E" sample_shell_env]
    by (auto simp: keyboard_handler_def edit_key_def)
  then show ?thesis using key_event_keeps_line[OF sample_line(1)[of "[104]"]] by simp
qed

section \<open>The raw sector test\<close>

lemma push_word_length: "length acc \<le> lim \<Longrightarrow> length (push_word lim w acc) \<le> lim"
  by (induction lim w acc rule: push_word.induct) auto

lemma join_words_length: "length acc \<le> lim \<Longrightarrow> length (join_words lim ws acc) \<le> lim"
  by (induction lim ws acc rule: join_words.induct) (auto simp: Let_def push_word_length)

text \<open>
  C25: write-test writes its text to sector 1 whatever is there. On a volume with one reserved sector
  that is the start of the allocation table: the clusters whose entries lie behind the text become
  free, also those in use by files.
\<close>

theorem write_test_frees_clusters:
  assumes "vol_ok (vol s)" "fat_start_sector (vol s) = 1" "ws \<noteq> []"
    and "unat c < 256" "unat c < nclusters (vol s)" "length (join_words 510 ws []) \<le> 2 * unat c"
  shows "\<exists>v'. fat16_read_fat_entry c (vol (cmd_write_test ws s)) = Inr (0, v')"
proof -
  let ?t = "join_words 510 ws []"
  let ?b = "?t @ replicate (512 - length ?t) 0"
  let ?v = "wr_sector 1 ?b (vol s)"
  have len: "length ?b = 512" using join_words_length[of "[]" 510 ws] by simp
  have d: "disk_ok (disk (vol s))" using assms(1) by (simp add: vol_ok_def)
  have sv: "sec ?v 1 = ?b" "disk_ok (disk ?v)"
    using disk_ok_frame(2)[OF d len, of 1] len by (simp_all add: wr_sector_def sec_def ata_write_eq)
  have ok: "vol_ok ?v" using vol_ok_geom[of ?v "vol s"] assms(1) sv(2) by (simp add: wr_sector_def geom_def)
  have "nclusters ?v = nclusters (vol s)" by (simp add: wr_sector_def nclusters_def total_sectors_def spc_def)
  then obtain v' where v': "fat16_read_fat_entry c ?v = Inr (fat ?v c, v')" using read_fat_entry_eq[OF ok, of c] assms(5) by auto
  have "fat_sec ?v c = 1" using assms(2,4) by (simp add: fat_sec_def wr_sector_def word_unat_eq_iff unat_word_ariths)
  then have "fat ?v c = 0" using sv(1) assms(4,6) by (simp add: fat_def get16_def nth_append le16_def)
  then show ?thesis using v' assms(3) by (simp add: cmd_write_test_def kprint_def Let_def)
qed

theorem write_test_frees_clusters_witness:
  "fat sample_vol1 2 = 0xFFFF \<and>
   (\<exists>v'. fat16_read_fat_entry 2 (vol (cmd_write_test [bytes ''hi''] (sample_fatsys sample_vol1))) = Inr (0, v'))"
proof
  show "fat sample_vol1 2 = 0xFFFF" using sample_free by simp
  have "nclusters sample_vol1 = 12" "fat_start_sector sample_vol1 = 1"
    using geom_eqD(2,7)[OF sample_geom(1)] sample_geom(3) by (simp_all add: sample_vol_def)
  then show "\<exists>v'. fat16_read_fat_entry 2 (vol (cmd_write_test [bytes ''hi''] (sample_fatsys sample_vol1))) = Inr (0, v')"
    using sample_vol_ok(2) by (intro write_test_frees_clusters) (simp_all add: bytes_def)
qed

end
