(* ===== verification/Boot.thy ===== *)
theory Boot
  imports Shell
begin

text \<open>
  The start of the kernel, src/src/kernel.c. kernel\_main is the composition of the initialisers
  of every other component in the order of the source; the result is the state in which it
  enters its final loop of \<open>hlt\<close>. The addresses of objects the linker places (the interrupt
  stubs, the interrupt table, the task state segment, the stack) are parameters.
\<close>

section \<open>The initialisation sequence\<close>

record boot_env =
  b_fuel :: nat
  isr :: "nat \<Rightarrow> u32"
  idt_table :: u32
  tss_object :: u32
  stack_top :: u32

definition banner :: "u8 list list" where
  "banner = map bytes
     [''   ____ ___           _           ___  ____  \<newline>'',
      ''  / ___|_ _|____   __| |_   _    / _ '' @ [CHR 0x5C] @ ''/ ___| \<newline>'',
      '' | |    | | '' @ [CHR 0x27] @ ''_ '' @ [CHR 0x5C] @ '' '' @ [CHR 0x5C] @ '' / / | | | |  | | | '' @ [CHR 0x5C] @ ''___ '' @ [CHR 0x5C] @ '' \<newline>'',
      '' | |___ | | | | '' @ [CHR 0x5C] @ '' V /| | |_| |  | |_| |___) |\<newline>'',
      ''  '' @ [CHR 0x5C] @ ''____|___|_| |_|'' @ [CHR 0x5C] @ ''_/ |_|'' @ [CHR 0x5C] @ ''__, |  '' @ [CHR 0x5C] @ ''___/|____/ \<newline>'',
      ''                         |___/               \<newline>'']"

definition print_banner :: "screen \<Rightarrow> screen" where
  "print_banner t = fold (\<lambda>m t. print_colored t m 0x0A) banner t"

definition greet :: "'a platform_scheme \<Rightarrow> 'a platform_scheme" where
  "greet s =
     (let s1 = s\<lparr>scr := print_banner (enable_cursor (clear_screen (scr s)) 14 15)\<rparr>;
          s2 = kprints [bytes ''\<newline>'', bytes ''Welcome to CIndy-OS\<newline>'', bytes ''Boot successful\<newline>'',
                 bytes ''Kernel loaded successfully\<newline>'', bytes ''Integer test: ''] s1;
          s3 = kprint (kprint_int s2 12345) (bytes ''\<newline>'');
          s4 = kprint_hex (kprint s3 (bytes ''Hex test: '')) 3735928559
      in kprints [bytes ''\<newline>'', bytes ''Testing ports'', bytes ''\<newline>'', bytes ''Initializing IDT...\<newline>''] s4)"

definition set_exception_gates :: "(nat \<Rightarrow> u32) \<Rightarrow> devices \<Rightarrow> devices res" where
  "set_exception_gates stub d = foldE (\<lambda>n. idt_set_gate (of_nat n) (stub n) 0x08 0x8E) [0..<32] d"

definition enable_interrupts :: "devices \<Rightarrow> devices" where
  "enable_interrupts d = d\<lparr>interrupts_on := True\<rparr>"

definition init_interrupts :: "boot_env \<Rightarrow> 'a kernel_scheme \<Rightarrow> ('a kernel_scheme) res" where
  "init_interrupts e s =
     bindE (set_exception_gates (isr e) (idt_init (idt_table e) (dev s))) (\<lambda>d1.
     let s1 = kprints [bytes ''IDT loaded successfully\<newline>'', bytes ''\<newline>'', bytes ''Remapping PIC...\<newline>''] (s\<lparr>dev := d1\<rparr>);
         s2 = kprints [bytes ''PIC remapped successfully\<newline>'', bytes ''Enabling interrupts...\<newline>''] (s1\<lparr>dev := pic_remap (dev s1)\<rparr>)
     in bindE (idt_set_gate 32 (isr e 32) 0x08 0x8E (dev s2)) (\<lambda>d3.
        bindE (idt_set_gate 33 (isr e 33) 0x08 0x8E d3) (\<lambda>d4.
        bindE (idt_set_gate 0x80 (isr e 128) 0x08 0xEE d4) (\<lambda>d5.
        bindE (init_timer 100 (enable_interrupts d5)) (\<lambda>d6.
          Inr (s2\<lparr>dev := d6\<rparr>))))))"

definition init_memory_system :: "nat \<Rightarrow> multiboot_info \<Rightarrow> u32 \<Rightarrow> 'a vm_scheme \<Rightarrow> ('a vm_scheme) res" where
  "init_memory_system n mbd magic s =
     bindE (init_memory n mbd magic s) (\<lambda>s1.
     bindE (init_paging s1) (\<lambda>s2.
     bindE (init_pmm n mbd (mc s2) (pm s2)) (\<lambda>p. Inr (s2\<lparr>pm := p\<rparr>))))"

text \<open>The first word of the first entry of the module list is \<open>mod_start\<close>.\<close>

definition init_modules :: "multiboot_info \<Rightarrow> 'a fssys_scheme \<Rightarrow> ('a fssys_scheme) res" where
  "init_modules mbd s =
     (if mods_count mbd > 0 then bindE (load32 (mods_addr mbd) s) (\<lambda>mod_start. Inr (init_fs mod_start s))
      else Inr (kprint s (bytes ''Warning: No initrd module loaded by GRUB!\<newline>'')))"

definition start_init_proc :: "'a platform_scheme \<Rightarrow> 'a platform_scheme" where
  "start_init_proc s = kprint s (bytes ''Process subsystem ready.\<newline>'')"

definition kernel_main :: "boot_env \<Rightarrow> u32 \<Rightarrow> multiboot_info \<Rightarrow> 'a kernel_scheme \<Rightarrow> ('a kernel_scheme) res" where
  "kernel_main e magic mbd s =
     (let s1 = greet (s\<lparr>dev := init_serial (dev s)\<rparr>)
      in bindE (init_interrupts e s1) (\<lambda>s2.
         bindE (init_memory_system (b_fuel e) mbd magic s2) (\<lambda>s3.
         let s4 = s3\<lparr>dev := gdt_init_tss (tss_object e) (stack_top e) (dev s3)\<rparr>
         in bindE (init_modules mbd s4) (\<lambda>s5.
            bindE (fat16_init s5) (\<lambda>s6.
            let s7 = start_init_proc (s6\<lparr>ps := process_init (ps s6)\<rparr>);
                s8 = kprints [bytes ''Initial process started.\<newline>'', bytes ''Interrupts enabled.\<newline>''] s7
            in Inr (s8\<lparr>scr := print_colored (scr s8) (bytes ''\<newline>[CIndy-OS]> '') 0x0B\<rparr>))))))"

text \<open>The C entry of interrupt 0x80.\<close>

definition syscall_handler :: "trap \<Rightarrow> 'a kernel_scheme \<Rightarrow> (trap \<times> 'a kernel_scheme) res" where
  "syscall_handler r s = handle_syscall r s"

section \<open>Interrupts\<close>

lemma set_gates:
  assumes "length (idt d) = 256" "set ns \<subseteq> {..<256}"
  shows "\<exists>d'. foldE (\<lambda>n. idt_set_gate (of_nat n) (stub n) sel fl) ns d = Inr d' \<and> d' = d\<lparr>idt := idt d'\<rparr> \<and> length (idt d') = 256 \<and>
    (\<forall>n < 256. if n \<in> set ns then gate_target (idt d' ! n) = stub n \<and> selector (idt d' ! n) = sel \<and> gate_flags (idt d' ! n) = fl
       else idt d' ! n = idt d ! n)"
  using assms
proof (induction ns arbitrary: d)
  case (Cons n ns)
  have n: "unat (of_nat n :: u8) = n" using Cons.prems(2) by (simp add: unsigned_of_nat take_bit_nat_eq_self_iff)
  obtain d1 where d1: "idt_set_gate (of_nat n) (stub n) sel fl d = Inr d1" "d1 = d\<lparr>idt := idt d1\<rparr>" "length (idt d1) = 256"
    "gate_target (idt d1 ! n) = stub n" "selector (idt d1 ! n) = sel" "gate_flags (idt d1 ! n) = fl"
    "\<forall>k < 256. k \<noteq> n \<longrightarrow> idt d1 ! k = idt d ! k"
    using gate_set[OF Cons.prems(1), of "of_nat n" "stub n" sel fl] n by auto
  obtain d' where d': "foldE (\<lambda>n. idt_set_gate (of_nat n) (stub n) sel fl) ns d1 = Inr d'" "d' = d1\<lparr>idt := idt d'\<rparr>" "length (idt d') = 256"
    "\<forall>n < 256. if n \<in> set ns then gate_target (idt d' ! n) = stub n \<and> selector (idt d' ! n) = sel \<and> gate_flags (idt d' ! n) = fl
       else idt d' ! n = idt d1 ! n"
    using Cons.IH[OF d1(3)] Cons.prems(2) by auto
  have "d1\<lparr>idt := i\<rparr> = d\<lparr>idt := i\<rparr>" for i by (subst d1(2)) simp
  then have "d' = d\<lparr>idt := idt d'\<rparr>" by (rule trans[OF d'(2)])
  moreover have "if k \<in> set (n # ns) then gate_target (idt d' ! k) = stub k \<and> selector (idt d' ! k) = sel \<and> gate_flags (idt d' ! k) = fl
      else idt d' ! k = idt d ! k" if "k < 256" for k
    using d'(4)[rule_format, OF that] d1(4-7) that by (cases "k \<in> set ns"; cases "k = n") simp_all
  ultimately show ?case using d1(1) d'(1,3) by (intro exI[of _ d']) simp
qed simp

text \<open>The gate of vector \<open>n\<close> is present, leads to its stub, and has privilege level \<open>p\<close>.\<close>

definition gate_ok :: "(nat \<Rightarrow> u32) \<Rightarrow> devices \<Rightarrow> u8 \<Rightarrow> nat \<Rightarrow> bool" where
  "gate_ok stub d fl n \<longleftrightarrow> gate_target (idt d ! n) = stub n \<and> selector (idt d ! n) = 0x08 \<and> gate_flags (idt d ! n) = fl"

definition gates_ok :: "(nat \<Rightarrow> u32) \<Rightarrow> devices \<Rightarrow> bool" where
  "gates_ok stub d \<longleftrightarrow> (\<forall>n < 34. gate_ok stub d 0x8E n) \<and> gate_ok stub d 0xEE 128"

lemma kprints_scr: "kprints ms s = s\<lparr>scr := fold (\<lambda>m t. print t m) ms (scr s)\<rparr>"
  unfolding kprints_def by (induction ms arbitrary: s) (simp_all add: kprint_def)

lemma init_interrupts_ok:
  assumes "length (idt (dev s)) = 256"
  shows "\<exists>t d'. init_interrupts e s = Inr (s\<lparr>scr := t, dev := d'\<rparr>) \<and> length (idt d') = 256 \<and> gates_ok (isr e) d' \<and> interrupts_on d' \<and>
    (\<forall>m m'. master (io d') m = master_ready \<and> slave (io d') m' = slave_ready)"
proof -
  let ?g = "\<lambda>n. idt_set_gate (of_nat n) (isr e n) 0x08 0x8E"
  let ?d0 = "idt_init (idt_table e) (dev s)"
  have "length (idt ?d0) = 256" "set [0..<32] \<subseteq> {..<256 :: nat}" using assms by (auto simp: idt_init_def)
  from set_gates[OF this, of "isr e" "0x08" "0x8E"]
  obtain d1 where d1: "set_exception_gates (isr e) ?d0 = Inr d1" "length (idt d1) = 256" and
    g1: "\<forall>n < 256. if n \<in> set [0..<32] then gate_target (idt d1 ! n) = isr e n \<and> selector (idt d1 ! n) = 0x08 \<and> gate_flags (idt d1 ! n) = 0x8E
       else idt d1 ! n = idt ?d0 ! n"
    unfolding set_exception_gates_def by blast
  have d1_gates: "gate_ok (isr e) d1 0x8E n" if "n < 32" for n
    using g1[rule_format, of n] that by (simp add: gate_ok_def split: if_splits)
  have l: "length (idt (pic_remap d1)) = 256" "idt (pic_remap d1) = idt d1" using d1(2) by (simp_all add: pic_remap_def outb_def)
  obtain d3 where d3: "idt_set_gate 32 (isr e 32) 0x08 0x8E (pic_remap d1) = Inr d3" "d3 = (pic_remap d1)\<lparr>idt := idt d3\<rparr>" "length (idt d3) = 256"
    "gate_ok (isr e) d3 0x8E 32" "\<forall>k < 256. k \<noteq> 32 \<longrightarrow> idt d3 ! k = idt d1 ! k"
    using gate_set[OF l(1), of 32 "isr e 32" "0x08" "0x8E"] by (auto simp: gate_ok_def l(2))
  obtain d4 where d4: "idt_set_gate 33 (isr e 33) 0x08 0x8E d3 = Inr d4" "d4 = d3\<lparr>idt := idt d4\<rparr>" "length (idt d4) = 256"
    "gate_ok (isr e) d4 0x8E 33" "\<forall>k < 256. k \<noteq> 33 \<longrightarrow> idt d4 ! k = idt d3 ! k"
    using gate_set[OF d3(3), of 33 "isr e 33" "0x08" "0x8E"] by (auto simp: gate_ok_def)
  obtain d5 where d5: "idt_set_gate 0x80 (isr e 128) 0x08 0xEE d4 = Inr d5" "d5 = d4\<lparr>idt := idt d5\<rparr>" "length (idt d5) = 256"
    "gate_ok (isr e) d5 0xEE 128" "\<forall>k < 256. k \<noteq> 128 \<longrightarrow> idt d5 ! k = idt d4 ! k"
    using gate_set[OF d4(3), of 128 "isr e 128" "0x08" "0xEE"] by (auto simp: gate_ok_def)
  have io5: "io d5 = io (pic_remap d1)" using arg_cong[OF d5(2), of io] arg_cong[OF d4(2), of io] arg_cong[OF d3(2), of io] by simp
  obtain d6 where d6: "init_timer 100 (enable_interrupts d5) = Inr d6" "idt d6 = idt d5" "interrupts_on d6"
    "io d6 = io d5 @ [(0x43, 0x36), (0x40, 0x9B), (0x40, 0x2E)]"
    by (simp add: init_timer_def enable_interrupts_def Let_def outb_def)
  have idt6: "idt d6 ! n = (if n = 128 then idt d5 ! n else if n = 33 then idt d4 ! n else if n = 32 then idt d3 ! n else idt d1 ! n)" if "n < 256" for n
    using that d3(5) d4(5) d5(5) d6(2) by simp
  have "gate_ok (isr e) d6 0x8E n" if "n < 34" for n
  proof -
    have "n < 32 \<or> n = 32 \<or> n = 33" using that by linarith
    then consider "n < 32" | "n = 32" | "n = 33" by blast
    then show ?thesis using idt6[of n] d1_gates[of n] d3(4) d4(4) by cases (simp_all add: gate_ok_def)
  qed
  moreover have "gate_ok (isr e) d6 0xEE 128" using idt6[of 128] d5(4) by (simp add: gate_ok_def)
  moreover have "master (io d6) m = master_ready" "slave (io d6) m = slave_ready" for m
    using pic_remap_state[of d1 m] by (simp_all add: d6(4) io5 master_def slave_def pic_at_def)
  moreover obtain t where "init_interrupts e s = Inr (s\<lparr>scr := t, dev := d6\<rparr>)"
    using d1(1) d3(1) d4(1) d5(1) d6(1) by (simp add: init_interrupts_def Let_def kprints_scr)
  ultimately show ?thesis using d6(2,3) d5(3) by (intro exI[of _ t] exI[of _ d6]) (simp add: gates_ok_def)
qed

section \<open>Memory\<close>

lemma init_memory_ok:
  assumes "magic = MULTIBOOT_MAGIC" "flags mbd AND push_bit 6 1 \<noteq> 0"
    and "mmap_entries n (mc s) (mmap_addr mbd + mmap_length mbd) (mmap_addr mbd) = Inr es"
    and "tot = total_memory (pm s) + sum_list (map length_low (filter (\<lambda>e. me_type e = 1) es))"
  shows "\<exists>t. init_memory n mbd magic s = Inr (s\<lparr>
    pm := (pm s)\<lparr>free_mem_addr := free_mem_addr (pm s) + 12, allocated_memory := allocated_memory (pm s) + 12, total_memory := tot\<rparr>, scr := t\<rparr>)"
  using assms(2) init_memory_loop_entries[OF assms(3), of "total_memory (pm s)"]
  by (simp add: assms(1,4) init_memory_def kmalloc_def Let_def kprint_def kprint_hex_def) blast

text \<open>The memory map reads the same after paging is on, when it lies below the page tables.\<close>

lemma read_mmap_cong:
  assumes "\<And>k. unat k < 24 \<Longrightarrow> ld8 m' (a + k) = ld8 m (a + k)"
  shows "read_mmap_entry m' a = read_mmap_entry m a"
proof -
  have "ld32 m' (a + k) = ld32 m (a + k)" if "unat k < 21" for k
  proof -
    have "unat (k + j) < 24" if "unat j < 4" for j using that \<open>unat k < 21\<close> by (subst unat_add_small) simp_all
    then show ?thesis using assms[of k] assms[of "k + 1"] assms[of "k + 2"] assms[of "k + 3"] \<open>unat k < 21\<close>
      by (simp add: ld32_def add.assoc)
  qed
  from this[of 0] this[of 4] this[of 8] this[of 12] this[of 16] this[of 20] show ?thesis by (simp add: read_mmap_entry_def)
qed

lemma mmap_entries_cong:
  "(\<And>a. a < stop \<Longrightarrow> read_mmap_entry m' a = read_mmap_entry m a) \<Longrightarrow> mmap_entries n m' stop a = mmap_entries n m stop a"
  by (induction n arbitrary: a) (auto cong: bindE_cong)

text \<open>The window that init\_paging opens shows memory as it was, up to the page tables themselves.\<close>

lemma boot_window:
  assumes "boot_tables 513 n s s2" "\<not> paging_on (mc s)" "513 + n + 1 < NFRAMES" "513 + n < n * 1024"
  defines "s' \<equiv> s2\<lparr>mc := (mc s2)\<lparr>cr3 := boot_frame 513, cr0 := cr0 (mc s) OR 0x80000000\<rparr>\<rparr>"
  shows "ptes s' x = (if unat x < n * 0x400000 then page_base x OR 7 else 0)"
    "unat (frame x) \<notin> {513..513 + n} \<Longrightarrow> phys (mc s') x = phys (mc s) x"
    "unat x < 0x201000 \<Longrightarrow> ld8 (mc s') x = ld8 (mc s) x"
proof -
  have "unat (pd_index x) < n \<longleftrightarrow> unat x < n * 0x400000" for x
    by (simp add: pd_index_nat div_mult2_eq[symmetric] div_less_iff_less_mult)
  then show view: "ptes s' x = (if unat x < n * 0x400000 then page_base x OR 7 else 0)" for x
    using boot_tables_view[OF assms(1), of x] assms(3) by (simp add: ptes_def s'_def)
  show same: "phys (mc s') x = phys (mc s) x" if "unat (frame x) \<notin> {513..513 + n}" for x
    using assms(1) that by (simp add: boot_tables_def s'_def)
  have "page_direc s' = boot_frame 513" using assms(1) by (simp add: boot_tables_def s'_def)
  then have tr: "translate (mc s') x = Inr x" if "unat x < n * 0x400000" for x
    using translate_ptes[of s' x] view[of x] page_split[of x] pg_bit that by (simp add: paging_on_def page_base_or7 s'_def)
  show "ld8 (mc s') x = ld8 (mc s) x" if "unat x < 0x201000"
  proof -
    have "unat x < n * 0x400000" using that assms(4) by simp
    moreover have "unat (frame x) \<notin> {513..513 + n}" using that by (simp add: frame_nat div_less_iff_less_mult)
    ultimately show ?thesis using tr[of x] same[of x] assms(2) by (simp add: ld8_def flat_translate)
  qed
qed

lemma mmap_entries_low:
  assumes "\<And>x. unat x < 0x201000 \<Longrightarrow> ld8 m' x = ld8 m x" "unat stop + 24 \<le> 0x201000"
  shows "mmap_entries k m' stop a = mmap_entries k m stop a"
proof (rule mmap_entries_cong, rule read_mmap_cong, rule assms(1))
  fix a j :: u32 assume "a < stop" "unat j < 24"
  then have "unat a + unat j < 0x201000" using assms(2) by (simp add: word_less_nat_alt)
  then show "unat (a + j) < 0x201000" by (subst unat_add_small) simp_all
qed

lemma init_memory_system_ok:
  assumes boot: "\<not> paging_on (mc s)" "pm s = pmm_boot" "magic = MULTIBOOT_MAGIC" "flags mbd AND push_bit 6 1 \<noteq> 0"
    and map: "mmap_entries k (mc s) (mmap_addr mbd + mmap_length mbd) (mmap_addr mbd) = Inr es"
    and low: "unat (mmap_addr mbd + mmap_length mbd) + 24 \<le> 0x201000"
    and n: "n = unat (required_pdes (sum_list (map length_low (filter (\<lambda>e. me_type e = 1) es))))"
    and room: "513 + n + 1 < NFRAMES" "513 + n < n * 1024"
    and regions: "\<forall>e \<in> set es. region e \<subseteq> {..<NFRAMES} \<and> region_end e \<le> n * 1024"
  shows "\<exists>s'. init_memory_system k mbd magic s = Inr s' \<and> space_ok (n * 1024) s' \<and> vm.more s' = vm.more s \<and>
    (\<forall>x. ptes s' x = (if unat x < n * 0x400000 then page_base x OR 7 else 0)) \<and>
    (\<forall>x. unat (frame x) \<notin> {513..513 + n} \<longrightarrow> phys (mc s') x = phys (mc s) x) \<and>
    free_frames (pm s') = (\<Union>e \<in> set es. region e) - {..513 + n} \<and> bump_addr (pm s') = boot_frame (514 + n) \<and>
    (\<forall>e \<in> set es. region_end e \<le> unat (max_frames (pm s')))"
proof -
  let ?tot = "sum_list (map length_low (filter (\<lambda>e. me_type e = 1) es))"
  let ?p = "pmm_boot\<lparr>free_mem_addr := 0x20000C, allocated_memory := 12, total_memory := ?tot\<rparr>"
  have "?tot = total_memory (pm s) + ?tot" by (simp add: boot(2) pmm_boot_def)
  from init_memory_ok[OF boot(3,4) map this] obtain t where
    mem: "init_memory k mbd magic s = Inr (s\<lparr>pm := ?p, scr := t\<rparr>)" by (auto simp: boot(2) pmm_boot_def)
  let ?s1 = "s\<lparr>pm := ?p, scr := t\<rparr>"
  have s1: "\<not> paging_on (mc ?s1)" "pmm_ok (pm ?s1)" "bump_addr (pm ?s1) = boot_frame 513"
    "513 + unat (required_pdes (total_memory (pm ?s1))) + 1 < NFRAMES" "n = unat (required_pdes (total_memory (pm ?s1)))"
    using boot(1) room(1) n by (simp_all add: pmm_ok_def pmm_boot_def bump_addr_def boot_frame_def)
  from init_paging_spec[OF s1(1-4), folded s1(5)]
  obtain s2 where s2: "boot_tables 513 n ?s1 s2"
    "init_paging ?s1 = Inr (s2\<lparr>mc := (mc s2)\<lparr>cr3 := boot_frame 513, cr0 := cr0 (mc s) OR 0x80000000\<rparr>\<rparr>)" by auto
  let ?s2 = "s2\<lparr>mc := (mc s2)\<lparr>cr3 := boot_frame 513, cr0 := cr0 (mc s) OR 0x80000000\<rparr>\<rparr>"
  have win: "ptes ?s2 x = (if unat x < n * 0x400000 then page_base x OR 7 else 0)"
    "unat (frame x) \<notin> {513..513 + n} \<Longrightarrow> phys (mc ?s2) x = phys (mc s) x"
    "unat x < 0x201000 \<Longrightarrow> ld8 (mc ?s2) x = ld8 (mc s) x" for x
    using boot_window[OF s2(1) s1(1) room, of x] by simp_all
  have walk: "mmap_entries k (mc ?s2) (mmap_addr mbd + mmap_length mbd) (mmap_addr mbd) = Inr es"
    using mmap_entries_low[OF win(3) low] map by simp
  have p2: "free_mem_addr (pm ?s2) = boot_frame (514 + n)" "max_frames (pm ?s2) = 0"
    using s2(1) by (simp_all add: boot_tables_def pmm_boot_def)
  have "unat (free_mem_addr (pm ?s2)) = (514 + n) * 4096" using boot_frame_nat[of "514 + n"] room(1) p2(1) by simp
  then have kf: "kernel_frames (pm ?s2) = 514 + n" "unat (free_mem_addr (pm ?s2)) \<le> NFRAMES * 4096"
    using room(1) by (simp_all add: kernel_frames_def)
  have "\<forall>e \<in> set es. region e \<subseteq> {..<NFRAMES}" using regions by blast
  from init_pmm_ok[OF boot(4) walk this kf(2), unfolded kf(1) p2(2)] obtain p' where
    p': "init_pmm k mbd (mc ?s2) (pm ?s2) = Inr p'" "pmm_ok p'"
      "unat (max_frames p') = Max (insert 0 (region_end ` set es))"
      "free_frames p' = (\<Union>e \<in> set es. region e) - {0} - {..<514 + n}" "free_mem_addr p' = free_mem_addr (pm ?s2)"
    by auto
  let ?s3 = "?s2\<lparr>pm := p'\<rparr>"
  have used: "insert 0 {513..513 + n} \<subseteq> used_frames (pm ?s3)"
  proof
    fix f assume f: "f \<in> insert 0 {513..513 + n}"
    then have "f \<in> {..<514 + n}" by auto
    then have "f < NFRAMES" "f \<notin> free_frames p'" using room(1) unfolding p'(4) by simp_all
    then show "f \<in> used_frames (pm ?s3)" by (simp add: free_frames_def)
  qed
  have "unat (max_frames (pm ?s3)) \<le> n * 1024" using p'(3) regions by simp
  then have pok: "paging_ok (n * 1024) ?s3"
    using window_boot[OF s2(1) _ _ _ _ _ used] p'(2) room required_pdes_bound n by simp
  have view3: "ptes ?s3 x = (if unat x < n * 0x400000 then page_base x OR 7 else 0)" for x using win(1)[of x] by (simp add: ptes_def)
  have "\<not> present ?s3 x" if "n * 1024 \<le> unat (frame x)" for x
    using that by (simp add: view3 frame_nat less_eq_div_iff_mult_less_eq)
  then have "space_ok (n * 1024) ?s3" using pok by (auto simp: space_ok_def)
  moreover have "init_memory_system k mbd magic s = Inr ?s3" using mem s2(2) p'(1) by (simp add: init_memory_system_def)
  moreover have "vm.more ?s3 = vm.more s" using s2(1) by (simp add: boot_tables_def)
  moreover have "(\<Union>e \<in> set es. region e) - {0} - {..<514 + n} = (\<Union>e \<in> set es. region e) - {..513 + n}" by auto
  moreover have "boot_frame (514 + n) AND 0xFFF = 0"
    using boot_frame_nat[of "514 + n"] room(1) by (simp add: word_unat_eq_iff page_mask_nat)
  then have "bump_addr (pm ?s3) = boot_frame (514 + n)" using p'(5) p2(1) by (simp add: bump_addr_def)
  ultimately show ?thesis using view3 win(2) p'(3,4) by (intro exI[of _ ?s3]) simp
qed

section \<open>The file system at boot\<close>

text \<open>What the disk driver and the listing leave alone.\<close>

definition keeps :: "'a fatsys_scheme \<Rightarrow> 'a fatsys_scheme \<Rightarrow> bool" where
  "keeps s s' \<longleftrightarrow> pm s' = pm s \<and> mc s' = mc s \<and> page_direc s' = page_direc s \<and> fatsys.more s' = fatsys.more s"

lemma keeps_print [simp]:
  "keeps s (kprint s x)" "keeps s (kprint_int s i)" "keeps s (s\<lparr>vol := v\<rparr>)" "keeps s s"
  by (simp_all add: keeps_def kprint_def kprint_int_def)

lemma keeps_trans: "keeps s t \<Longrightarrow> keeps t u \<Longrightarrow> keeps s u"
  by (simp add: keeps_def)

lemma ls_entries_keeps: "keeps s (snd (snd (ls_entries es buf f s)))"
proof (induction es buf f s rule: ls_entries.induct)
  case (2 e es buf f s)
  then show ?case by (auto simp: Let_def keeps_def kprint_def kprint_int_def)
qed simp

lemma ls_sectors_keeps: "keeps s (snd (ls_sectors is f s))"
proof (induction "is" arbitrary: f s)
  case (Cons i "is")
  obtain buf v where rd: "rd_sector (root_dir_start (vol s) + of_nat i) (vol s) = (buf, v)" by fastforce
  obtain fin g s1 where ls: "ls_entries [0..<16] buf f (s\<lparr>vol := v\<rparr>) = (fin, g, s1)" by (metis prod_cases3)
  have "keeps s s1" using ls_entries_keeps[of "s\<lparr>vol := v\<rparr>" "[0..<16]" buf f] keeps_print(3)[of s v] keeps_trans ls by fastforce
  then show ?case using Cons[of s1 g] keeps_trans[of s s1] by (simp add: rd ls)
qed simp

lemma fat16_ls_keeps: "keeps s (fat16_ls s)"
proof -
  let ?s2 = "kprint (kprint s (bytes ''FAT16 Files:\<newline>'')) (bytes ''------------\<newline>'')"
  obtain g s3 where ls: "ls_sectors [0..<unat (root_dir_sectors (vol ?s2))] False ?s2 = (g, s3)" by fastforce
  have "keeps s ?s2" by (simp add: keeps_def kprint_def)
  moreover have "keeps ?s2 s3" using ls_sectors_keeps[of ?s2 "[0..<unat (root_dir_sectors (vol ?s2))]" False] ls by simp
  ultimately have "keeps s s3" by (rule keeps_trans)
  then show ?thesis using ls keeps_trans[of s s3] by (simp add: fat16_ls_def)
qed

lemma fat16_init_keeps:
  assumes "fat16_init s = Inr s'"
  shows "keeps s s'"
proof -
  obtain s9 where "s' = fat16_ls s9" "keeps s s9"
    using assms by (auto simp: fat16_init_def Let_def keeps_def kprint_def kprint_int_def split: prod.splits if_splits)
  then show ?thesis using fat16_ls_keeps keeps_trans by blast
qed

section \<open>Booting\<close>

text \<open>
  What the boot loader hands over: the Multiboot magic and a memory map below the page tables
  whose usable regions lie in the identity window of \<open>n\<close> tables and below 1 GiB; paging off,
  the variables of the kernel with their static values, and a formatted disk.
\<close>

definition boot_info_ok :: "boot_env \<Rightarrow> u32 \<Rightarrow> multiboot_info \<Rightarrow> machine \<Rightarrow> multiboot_mmap_entry list \<Rightarrow> nat \<Rightarrow> bool" where
  "boot_info_ok e magic mbd m es n \<longleftrightarrow>
     magic = MULTIBOOT_MAGIC \<and> flags mbd AND push_bit 6 1 \<noteq> 0 \<and>
     mmap_entries (b_fuel e) m (mmap_addr mbd + mmap_length mbd) (mmap_addr mbd) = Inr es \<and>
     unat (mmap_addr mbd + mmap_length mbd) + 24 \<le> 0x201000 \<and>
     n = unat (required_pdes (sum_list (map length_low (filter (\<lambda>e. me_type e = 1) es)))) \<and>
     513 + n + 1 < NFRAMES \<and> 513 + n < n * 1024 \<and>
     (\<forall>e \<in> set es. region e \<subseteq> {..<NFRAMES} \<and> region_end e \<le> n * 1024) \<and>
     (mods_count mbd = 0 \<or> unat (mods_addr mbd) + 4 \<le> n * 0x400000)"

definition power_on :: "'a kernel_scheme \<Rightarrow> bool" where
  "power_on s \<longleftrightarrow> \<not> paging_on (mc s) \<and> pm s = pmm_boot \<and> length (idt (dev s)) = 256 \<and>
     disk_ok (disk (vol s)) \<and> bpb_fits (bpb_of (sec (vol s) 0))"

lemma boot_memory:
  assumes "boot_info_ok e magic mbd (mc s) es n" "\<not> paging_on (mc s)" "pm s = pmm_boot"
  shows "\<exists>s'. init_memory_system (b_fuel e) mbd magic s = Inr s' \<and> space_ok (n * 1024) s' \<and> vm.more s' = vm.more s \<and>
    (\<forall>x. ptes s' x = (if unat x < n * 0x400000 then page_base x OR 7 else 0)) \<and>
    (\<forall>x. unat (frame x) \<notin> {513..513 + n} \<longrightarrow> phys (mc s') x = phys (mc s) x) \<and>
    free_frames (pm s') = (\<Union>e \<in> set es. region e) - {..513 + n} \<and> bump_addr (pm s') = boot_frame (514 + n) \<and>
    (\<forall>e \<in> set es. region_end e \<le> unat (max_frames (pm s')))"
  using assms(1) unfolding boot_info_ok_def by (elim conjE) (rule init_memory_system_ok[OF assms(2,3)]; assumption)

lemma window_load:
  assumes "paging_ok L s" "\<forall>x. ptes s x = (if unat x < n * 0x400000 then page_base x OR 7 else 0)"
    and "unat a + 4 \<le> n * 0x400000" "n \<le> 1024"
  shows "\<exists>v. load32 a s = Inr v"
proof -
  have "ld8 (mc s) (a + k) = Inr (phys (mc s) (a + k))" if "unat k < 4" for k
  proof -
    have "unat (a + k) = unat a + unat k" using that assms(3,4) by (subst unat_add_small) simp_all
    then have "ptes s (a + k) = page_base (a + k) OR 7" using assms(2,3) that by simp
    then show ?thesis using paging_translate[OF assms(1), of "a + k"] page_split[of "a + k"] by (simp add: ld8_def page_base_or7)
  qed
  from this[of 0] this[of 1] this[of 2] this[of 3] show ?thesis by (simp add: load32_def ld32_def)
qed

text \<open>init_modules only sets the address of the archive and prints.\<close>

lemma init_modules_ok:
  assumes "mods_count mbd = 0 \<or> (\<exists>v. load32 (mods_addr mbd) s = Inr v)"
  shows "\<exists>t a. init_modules mbd s = Inr (s\<lparr>initrd_address := a, scr := t\<rparr>)"
proof (cases "mods_count mbd = 0")
  case True
  then have "init_modules mbd s = Inr (s\<lparr>initrd_address := initrd_address s, scr := print (scr s) (bytes ''Warning: No initrd module loaded by GRUB!\<newline>'')\<rparr>)"
    by (simp add: init_modules_def kprint_def)
  then show ?thesis by blast
next
  case False
  then obtain v where "load32 (mods_addr mbd) s = Inr v" "mods_count mbd > 0" using assms by (auto simp: word_neq_0_conv)
  then show ?thesis by (simp add: init_modules_def init_fs_def Let_def kprint_def kprint_hex_def) blast
qed

lemma greet_scr: "\<exists>t. greet s = s\<lparr>scr := t\<rparr>"
  by (simp add: greet_def Let_def kprints_scr kprint_def kprint_int_def kprint_hex_def) blast

text \<open>
  The state in which the kernel waits for interrupts: the address space and the file system
  satisfy their invariants, every gate leads to its stub, the interrupt controllers let the timer
  and the keyboard through, a trap from user mode switches to the kernel stack, and no process
  is running or ready.
\<close>

definition kernel_ready :: "boot_env \<Rightarrow> nat \<Rightarrow> 'a kernel_scheme \<Rightarrow> bool" where
  "kernel_ready e L s \<longleftrightarrow>
     space_ok L s \<and> vol_ok (vol s) \<and> gates_ok (isr e) (dev s) \<and> interrupts_on (dev s) \<and>
     (\<forall>m m'. master (io (dev s)) m = master_ready \<and> slave (io (dev s)) m' = slave_ready) \<and>
     tss_esp0 (tss (dev s)) = stack_top e \<and> tss_ss0 (tss (dev s)) = KERNEL_DATA_SEG \<and> task_register (dev s) = TSS_SEG \<and>
     queue_is (ps s) [] \<and> curr_proc (ps s) = 0"

lemma gdt_init_tss_keeps:
  "idt (gdt_init_tss a b d) = idt d" "io (gdt_init_tss a b d) = io d" "interrupts_on (gdt_init_tss a b d) = interrupts_on d"
  "task_register (gdt_init_tss a b d) = TSS_SEG" "tss_esp0 (tss (gdt_init_tss a b d)) = b" "tss_ss0 (tss (gdt_init_tss a b d)) = KERNEL_DATA_SEG"
  by (simp_all add: gdt_init_tss_def memset_tss_def write_tss_descriptor_def Let_def)

lemma vm_more_fields:
  "vm.more s' = vm.more s \<Longrightarrow> dev s' = dev s \<and> vol s' = vol s \<and> ps s' = ps s \<and> kernel.more s' = kernel.more s"
  for s s' :: "'a kernel_scheme"
  by (cases s; cases s'; simp)

lemma fatsys_more_fields:
  "fatsys.more s' = fatsys.more s \<Longrightarrow> dev s' = dev s \<and> ps s' = ps s \<and> kernel.more s' = kernel.more s"
  for s s' :: "'a kernel_scheme"
  by (cases s; cases s'; simp)

lemma process_init_queue: "queue_is (process_init p) []" "curr_proc (process_init p) = 0"
  by (simp_all add: process_init_def queue_is_def)

lemma kernel_main_ok:
  assumes "power_on s" "boot_info_ok e magic mbd (mc s) es n"
  shows "\<exists>s'. kernel_main e magic mbd s = Inr s' \<and> kernel_ready e (n * 1024) s' \<and> kernel.more s' = kernel.more s \<and>
    (\<forall>x. ptes s' x = (if unat x < n * 0x400000 then page_base x OR 7 else 0)) \<and>
    free_frames (pm s') = (\<Union>e \<in> set es. region e) - {..513 + n} \<and> bump_addr (pm s') = boot_frame (514 + n) \<and>
    (\<forall>e \<in> set es. region_end e \<le> unat (max_frames (pm s')))"
proof -
  let ?s0 = "s\<lparr>dev := init_serial (dev s)\<rparr>"
  obtain t1 where s1: "greet ?s0 = ?s0\<lparr>scr := t1\<rparr>" using greet_scr by blast
  have "length (idt (dev (?s0\<lparr>scr := t1\<rparr>))) = 256" using assms(1) by (simp add: power_on_def init_serial_def outb_def)
  from init_interrupts_ok[OF this, of e] obtain t2 d2 where
    s2: "init_interrupts e (?s0\<lparr>scr := t1\<rparr>) = Inr (s\<lparr>scr := t2, dev := d2\<rparr>)" and
    d2: "gates_ok (isr e) d2" "interrupts_on d2" "\<forall>m m'. master (io d2) m = master_ready \<and> slave (io d2) m' = slave_ready"
    by auto
  let ?s2 = "s\<lparr>scr := t2, dev := d2\<rparr>"
  from boot_memory[of e magic mbd ?s2 es n] assms obtain s3 where
    s3: "init_memory_system (b_fuel e) mbd magic ?s2 = Inr s3" "space_ok (n * 1024) s3" "vm.more s3 = vm.more ?s2"
      "\<forall>x. ptes s3 x = (if unat x < n * 0x400000 then page_base x OR 7 else 0)"
      "free_frames (pm s3) = (\<Union>e \<in> set es. region e) - {..513 + n}" "bump_addr (pm s3) = boot_frame (514 + n)"
      "\<forall>e \<in> set es. region_end e \<le> unat (max_frames (pm s3))"
    by (auto simp: power_on_def)
  note f3 = vm_more_fields[OF s3(3)]
  let ?s4 = "s3\<lparr>dev := gdt_init_tss (tss_object e) (stack_top e) (dev s3)\<rparr>"
  have n: "n \<le> 1024" using assms(2) required_pdes_bound by (simp add: boot_info_ok_def)
  have "mods_count mbd = 0 \<or> (\<exists>v. load32 (mods_addr mbd) ?s4 = Inr v)"
    using window_load[OF space_paging[OF s3(2)] s3(4) _ n] assms(2) by (auto simp: boot_info_ok_def load32_def)
  from init_modules_ok[OF this] obtain t5 a5 where s5: "init_modules mbd ?s4 = Inr (?s4\<lparr>initrd_address := a5, scr := t5\<rparr>)" by blast
  let ?s5 = "?s4\<lparr>initrd_address := a5, scr := t5\<rparr>"
  have "disk_ok (disk (vol ?s5))" "bpb_fits (bpb_of (sec (vol ?s5) 0))" using assms(1) f3 by (simp_all add: power_on_def)
  from fat16_init_vol[OF this(1) refl this(2)] obtain s6 where s6: "fat16_init ?s5 = Inr s6" "vol_ok (vol s6)" by blast
  have k6: "keeps ?s5 s6" using fat16_init_keeps[OF s6(1)] .
  then have f6: "pm s6 = pm s3" "mc s6 = mc s3" "page_direc s6 = page_direc s3" "dev s6 = gdt_init_tss (tss_object e) (stack_top e) d2"
    "kernel.more s6 = kernel.more s"
    using fatsys_more_fields[of s6 ?s5] f3 by (auto simp: keeps_def)
  obtain t7 where s7: "kernel_main e magic mbd s = Inr (s6\<lparr>ps := process_init (ps s6), scr := t7\<rparr>)"
    using s1 s2 s3(1) s5 s6(1) by (simp add: kernel_main_def Let_def start_init_proc_def kprints_scr kprint_def)
  let ?s7 = "s6\<lparr>ps := process_init (ps s6), scr := t7\<rparr>"
  have v: "ptes ?s7 = ptes s3" "space_ok (n * 1024) ?s7 = space_ok (n * 1024) s3"
    using view_cong[of ?s7 s3] f6(1-3) by simp_all
  have "kernel_ready e (n * 1024) ?s7"
    using v s3(2) s6(2) d2 f6(4) process_init_queue[of "ps s6"]
    by (simp add: kernel_ready_def gdt_init_tss_keeps gates_ok_def gate_ok_def)
  then show ?thesis using s7 v(1) s3(4-7) f6(1,5) by (intro exI[of _ ?s7]) simp
qed

section \<open>Properties\<close>

text \<open>
  C1: The kernel boots. From the state the boot loader leaves (\<open>power_on\<close>, \<open>boot_info_ok\<close>),
  kernel\_main reaches its idle loop without a fault, and in that state the address space, the
  volume, the interrupt gates, the task state segment and the ready queue are as the rest of
  the kernel needs them; the identity mapping covers \<open>n\<close> times 4 MiB, and the free frames are
  those of the usable memory above the kernel and its page tables.\<close>

theorem kernel_boots:
  assumes "power_on s" "boot_info_ok e magic mbd (mc s) es n"
  shows "\<exists>s'. kernel_main e magic mbd s = Inr s' \<and> kernel_ready e (n * 1024) s' \<and> kernel.more s' = kernel.more s \<and>
    (\<forall>x. ptes s' x = (if unat x < n * 0x400000 then page_base x OR 7 else 0)) \<and>
    free_frames (pm s') = (\<Union>e \<in> set es. region e) - {..513 + n}"
  using kernel_main_ok[OF assms] by blast

text \<open>
  After the boot, every interrupt line that the controllers let through is delivered on a
  vector whose gate is present with privilege level 0 and leads to the stub of that vector.\<close>

theorem enabled_irqs_have_gates:
  assumes "power_on s" "boot_info_ok e magic mbd (mc s) es n" "kernel_main e magic mbd s = Inr s'"
    and "irq_enabled (master (io (dev s')) m) (slave (io (dev s')) m') irq"
  shows "\<exists>v. irq_vector (master (io (dev s')) m) (slave (io (dev s')) m') irq = Some v \<and>
    gate_ok (isr e) (dev s') 0x8E (unat v)"
proof -
  have "kernel_ready e (n * 1024) s'" using kernel_main_ok[OF assms(1,2)] assms(3) by auto
  then have r: "gates_ok (isr e) (dev s')" "master (io (dev s')) m = master_ready" "slave (io (dev s')) m' = slave_ready"
    by (simp_all add: kernel_ready_def)
  have "irq = 0 \<or> irq = 1" using assms(4) pic_programmed[of irq] unfolding r(2,3) by simp
  then have "irq_vector master_ready slave_ready irq = Some (32 + of_nat irq)" "unat (32 + of_nat irq :: u8) < 34"
    using pic_programmed[of irq] by auto
  then show ?thesis using r by (auto simp: gates_ok_def)
qed

lemma user_bit: "(x OR 7) AND 4 \<noteq> (0 :: u32)"
proof -
  have "bit (x OR 7 :: u32) 2" by (simp add: bit_or_iff)
  then show ?thesis using test_bit_zero[of "x OR 7" 2] by simp
qed

text \<open>
  C26: The identity mapping carries the user bit, so the check of user pointers does not tell
  user memory from kernel memory: after the boot every region between 1 MiB and the end of the
  mapped memory, the kernel image, its page tables and its heap included, passes
  validate\_user\_region.\<close>

theorem kernel_memory_validates_as_user:
  assumes "power_on s" "boot_info_ok e magic mbd (mc s) es n" "kernel_main e magic mbd s = Inr s'"
    and "0x100000 \<le> unat a" "unat a + unat len \<le> n * 0x400000" "unat a + unat len \<le> 0xC0000000"
  shows "validate_user_region a len s' = Inr 1"
proof -
  have r: "space_ok (n * 1024) s'" "\<forall>x. ptes s' x = (if unat x < n * 0x400000 then page_base x OR 7 else 0)"
    using kernel_main_ok[OF assms(1,2)] assms(3) by (auto simp: kernel_ready_def)
  have up: "user_page s' (a + of_nat k)" if "k < unat len" for k
  proof -
    have "unat (a + of_nat k) = unat a + k" using that assms(6) by (simp add: unat_word_ariths unsigned_of_nat take_bit_eq_mod)
    then have "ptes s' (a + of_nat k) = page_base (a + of_nat k) OR 7" using r(2) that assms(5) by simp
    then show ?thesis using user_bit[of "page_base (a + of_nat k)"] by (simp add: user_page_def)
  qed
  have "user_page s' (a + 4096 * of_nat k)" if "4096 * k < unat len" for k using up[OF that] by simp
  then show ?thesis using assms(4,6) by (simp add: validate_user_region_iff[OF space_paging[OF r(1)]])
qed

section \<open>A sample machine\<close>

text \<open>A machine with 128 MiB of memory in one region and a formatted disk.\<close>

definition sample_power_on :: kernel where
  "sample_power_on = sample_kernel\<lparr>mc := sample_map 0x8000000, pm := pmm_boot, vol := sample_vol\<lparr>disk := formatted_disk\<rparr>\<rparr>"

definition sample_boot_env :: boot_env where
  "sample_boot_env = \<lparr>b_fuel = 2, isr = (\<lambda>n. 0x100000 + 16 * of_nat n), idt_table = 0x110000, tss_object = 0x111000, stack_top = 0x118000\<rparr>"

lemma sample_power_on_ok: "power_on sample_power_on"
proof -
  have "disk_ok (disk (vol sample_power_on))" "bpb_of (sec (vol sample_power_on) 0) = bpb_of boot_sector"
    by (simp_all add: sample_power_on_def disk_ok_def formatted_disk_def boot_sector_fields(8) sec_def)
  moreover have "bpb_fits (bpb_of boot_sector)"
    by (simp add: bpb_fits_def bpb_data_start_def bpb_sectors_def bpb_clusters_def boot_sector_fields)
  moreover have "dev sample_power_on = sample_devices" by (simp add: sample_power_on_def sample_kernel_def fssys.defs)
  ultimately show ?thesis
    by (simp add: power_on_def) (simp add: sample_power_on_def sample_map_def paging_on_def sample_devices_def)
qed

lemma sample_boot_info: "boot_info_ok sample_boot_env MULTIBOOT_MAGIC sample_mbd (mc sample_power_on) [sample_entry 0x8000000] 32"
proof -
  have two: "b_fuel sample_boot_env = Suc (Suc 0)" by (simp add: sample_boot_env_def)
  have "unat (required_pdes (sum_list (map length_low (filter (\<lambda>e. me_type e = 1) [sample_entry 0x8000000])))) = 32"
    by (simp add: sample_entry_def required_pdes_def)
  moreover have "region_end (sample_entry 0x8000000) = 32768" by (simp add: region_end_def sample_entry_def)
  moreover have "mc sample_power_on = sample_map 0x8000000" by (simp add: sample_power_on_def)
  ultimately show ?thesis
    using sample_boot_facts(1) sample_boot_facts(2,3)[of "0x8000000"] unfolding boot_info_ok_def two by (simp add: NFRAMES_def) (simp add: sample_mbd_def)
qed

lemma sample_booted: obtains s' where "kernel_main sample_boot_env MULTIBOOT_MAGIC sample_mbd sample_power_on = Inr s'"
  using kernel_main_ok[OF sample_power_on_ok sample_boot_info] by blast

theorem kernel_boots_witness:
  "\<exists>s'. kernel_main sample_boot_env MULTIBOOT_MAGIC sample_mbd sample_power_on = Inr s' \<and> kernel_ready sample_boot_env (32 * 1024) s'"
  using kernel_boots[OF sample_power_on_ok sample_boot_info] by blast

theorem enabled_irqs_have_gates_witness:
  "\<exists>s' v. kernel_main sample_boot_env MULTIBOOT_MAGIC sample_mbd sample_power_on = Inr s' \<and>
    irq_vector (master (io (dev s')) m0) (slave (io (dev s')) m0) 1 = Some v \<and> gate_ok (isr sample_boot_env) (dev s') 0x8E (unat v)"
proof -
  obtain s' where s': "kernel_main sample_boot_env MULTIBOOT_MAGIC sample_mbd sample_power_on = Inr s'"
    "kernel_ready sample_boot_env (32 * 1024) s'"
    using kernel_main_ok[OF sample_power_on_ok sample_boot_info] by blast
  have "irq_enabled (master (io (dev s')) m0) (slave (io (dev s')) m0) 1"
    using s'(2) pic_programmed[of 1] by (simp add: kernel_ready_def)
  from enabled_irqs_have_gates[OF sample_power_on_ok sample_boot_info s'(1) this] show ?thesis using s'(1) by blast
qed

theorem kernel_memory_validates_as_user_witness:
  "\<exists>s'. kernel_main sample_boot_env MULTIBOOT_MAGIC sample_mbd sample_power_on = Inr s' \<and>
    validate_user_region 0x100000 0x2000 s' = Inr 1"
proof (rule sample_booted)
  fix s' assume s': "kernel_main sample_boot_env MULTIBOOT_MAGIC sample_mbd sample_power_on = Inr s'"
  show ?thesis
    using kernel_memory_validates_as_user[OF sample_power_on_ok sample_boot_info s', of "0x100000" "0x2000"] s' by simp
qed

end
