(* ===== verification/Events.thy ===== *)
theory Events
  imports Boot
begin

text \<open>
  The kernel after the boot: it idles in \<open>hlt\<close>, and its state changes by the handlers of the
  two interrupts the controllers let through, timer\_handler and keyboard\_handler. The typed
  line is refined to an abstract line editor.
\<close>

section \<open>Events\<close>

datatype event = Tick | Key u8

inductive event_step :: "shell_env \<Rightarrow> 'a shell_scheme \<Rightarrow> event \<Rightarrow> 'a shell_scheme \<Rightarrow> bool" for e where
  tick: "event_step e s Tick (s\<lparr>dev := timer_handler (dev s)\<rparr>)"
| key: "keyboard_handler e sc s = Inr s' \<Longrightarrow> event_step e s (Key sc) s'"

inductive_cases TickE: "event_step e s Tick s'"
inductive_cases KeyE: "event_step e s (Key sc) s'"
inductive_simps event_step_simps: "event_step e s Tick s'" "event_step e s (Key sc) s'"

inductive events :: "shell_env \<Rightarrow> 'a shell_scheme \<Rightarrow> event list \<Rightarrow> 'a shell_scheme \<Rightarrow> bool" for e where
  idle: "events e s [] s"
| event: "event_step e s ev s1 \<Longrightarrow> events e s1 evs s' \<Longrightarrow> events e s (ev # evs) s'"

lemma events_invariant:
  assumes "events e s evs s'" "I s" "\<And>s ev s'. event_step e s ev s' \<Longrightarrow> I s \<Longrightarrow> I s'"
  shows "I s'"
  using assms(1,2) by (induction rule: events.induct) (auto intro: assms(3))

lemma event_deterministic: "event_step e s ev s1 \<Longrightarrow> event_step e s ev s2 \<Longrightarrow> s1 = s2"
  by (cases ev) (auto simp: event_step_simps)

section \<open>The line editor as a whole\<close>

text \<open>The abstract editor: shift, caps lock, and the line.\<close>

record editor =
  ed_shift :: bool
  ed_caps :: bool
  ed_line :: "u8 list"

definition editor_of :: "'a shell_scheme \<Rightarrow> editor" where
  "editor_of s = \<lparr>ed_shift = (shift_pressed s \<noteq> 0), ed_caps = (caps s \<noteq> 0), ed_line = line s\<rparr>"

definition edit_event :: "event \<Rightarrow> editor \<Rightarrow> editor" where
  "edit_event ev d =
     (case ev of
        Tick \<Rightarrow> d
      | Key sc \<Rightarrow>
          if sc = 0x2A \<or> sc = 0x36 then d\<lparr>ed_shift := True\<rparr>
          else if sc = 0xAA \<or> sc = 0xB6 then d\<lparr>ed_shift := False\<rparr>
          else if sc = 0x3A then d\<lparr>ed_caps := \<not> ed_caps d\<rparr>
          else if sc \<ge> 128 then d
          else d\<lparr>ed_line := edit_line (typed (ed_shift d) (ed_caps d) (unat sc)) (ed_line d)\<rparr>)"

definition shell_ok :: "'a shell_scheme \<Rightarrow> bool" where
  "shell_ok s \<longleftrightarrow> line_ok s \<and> (caps s = 0 \<or> caps s = 1)"

lemma key_event: "keyboard_handler e sc s = Inr s' \<longleftrightarrow> (\<exists>s1. handle_keyboard_interrupt e sc s = Inr s1 \<and> s' = s1\<lparr>dev := outb 0x20 0x20 (dev s1)\<rparr>)"
  by (auto simp: keyboard_handler_def bindE_eq_Inr)

lemma dev_update_views [simp]:
  "shell_ok (s\<lparr>dev := d\<rparr>) = shell_ok s" "editor_of (s\<lparr>dev := d\<rparr>) = editor_of s" "line_ok (s\<lparr>dev := d\<rparr>) = line_ok s"
  by (simp_all add: shell_ok_def editor_of_def line_ok_def line_def)

lemma caps_toggle: "c = 0 \<or> c = 1 \<Longrightarrow> (c + 1) mod 2 = (if c = 0 then 1 else 0 :: u8)"
  by auto

text \<open>Modifier and release codes never reach the line.\<close>

lemma modifier_key:
  assumes "shell_ok s" "sc \<noteq> 0x1C" "\<not> edit_key sc"
  shows "\<exists>s'. handle_keyboard_interrupt e sc s = Inr s' \<and> shell_ok s' \<and> editor_of s' = edit_event (Key sc) (editor_of s)"
proof -
  have rel: "sc \<ge> 128 \<longleftrightarrow> sc AND 0x80 \<noteq> 0" using release_code[of sc] by (simp add: not_less)
  have c: "caps s = 0 \<or> caps s = 1" using assms(1) by (simp add: shell_ok_def)
  consider "sc = 0x2A \<or> sc = 0x36" | "sc = 0xAA \<or> sc = 0xB6" | "sc = 0x3A" | "sc \<ge> 128" "sc \<notin> {0x2A, 0x36, 0xAA, 0xB6, 0x3A}"
    using assms(2,3) by (auto simp: edit_key_def not_less)
  then show ?thesis
  proof cases
    case 3
    then show ?thesis using assms(1) c caps_toggle[OF c]
      by (auto simp: handle_keyboard_interrupt_def edit_event_def editor_of_def shell_ok_def line_ok_def line_def)
  next
    case 4
    then show ?thesis using assms(1) rel by (auto simp: handle_keyboard_interrupt_def edit_event_def)
  qed (use assms(1) in \<open>auto simp: handle_keyboard_interrupt_def edit_event_def editor_of_def shell_ok_def line_ok_def line_def\<close>)
qed

lemma edit_key_event:
  assumes "shell_ok s" "edit_key sc"
  shows "\<exists>s'. handle_keyboard_interrupt e sc s = Inr s' \<and> shell_ok s' \<and> editor_of s' = edit_event (Key sc) (editor_of s)"
proof -
  obtain s' where s': "handle_keyboard_interrupt e sc s = Inr s'" "line_ok s'"
    "line s' = edit_line (typed (shift_pressed s \<noteq> 0) (caps s \<noteq> 0) (unat sc)) (line s)"
    "s'\<lparr>scr := scr s, input_buffer := input_buffer s, buffer_index := buffer_index s\<rparr> = s"
    using key_edits[OF _ assms(2)] assms(1) unfolding shell_ok_def by blast
  have "shift_pressed s' = shift_pressed s" "caps s' = caps s"
    using arg_cong[OF s'(4), of shift_pressed] arg_cong[OF s'(4), of caps] by simp_all
  then show ?thesis
    using s'(1-3) assms by (auto simp: shell_ok_def editor_of_def edit_event_def edit_key_def)
qed

lemma typing_step:
  assumes "shell_ok s" "ev \<noteq> Key 0x1C"
  shows "\<exists>s'. event_step e s ev s' \<and> shell_ok s' \<and> editor_of s' = edit_event ev (editor_of s)"
proof (cases ev)
  case Tick
  then show ?thesis using assms(1) by (auto simp: event_step_simps edit_event_def)
next
  case (Key sc)
  have "\<exists>s'. handle_keyboard_interrupt e sc s = Inr s' \<and> shell_ok s' \<and> editor_of s' = edit_event (Key sc) (editor_of s)"
    using assms Key modifier_key[of s sc e] edit_key_event[of s sc e] by (cases "edit_key sc") auto
  then show ?thesis by (auto simp: Key event_step_simps key_event)
qed

lemma typing:
  assumes "shell_ok s" "\<forall>ev \<in> set evs. ev \<noteq> Key 0x1C"
  shows "\<exists>s'. events e s evs s' \<and> shell_ok s' \<and> editor_of s' = fold edit_event evs (editor_of s)"
  using assms
proof (induction evs arbitrary: s)
  case (Cons ev evs)
  obtain s1 where s1: "event_step e s ev s1" "shell_ok s1" "editor_of s1 = edit_event ev (editor_of s)"
    using typing_step[of s ev e] Cons.prems by auto
  then show ?case using Cons.IH[OF s1(2)] Cons.prems(2) by (auto intro: events.event)
qed (auto intro: events.idle)

text \<open>No key types a NUL.\<close>

lemma edit_event_nul: "0 \<notin> set (ed_line d) \<Longrightarrow> 0 \<notin> set (ed_line (edit_event ev d))"
  by (cases ev) (auto simp: edit_event_def edit_line_def dest: in_set_butlastD)

lemma edit_events_nul: "0 \<notin> set (ed_line d) \<Longrightarrow> 0 \<notin> set (ed_line (fold edit_event evs d))"
  by (induction evs arbitrary: d) (simp_all add: edit_event_nul)

section \<open>From power-on to the first command\<close>

text \<open>The variables of src/src/keyboard.c with their static values.\<close>

definition shell_start :: "'a shell_scheme \<Rightarrow> bool" where
  "shell_start s \<longleftrightarrow> shift_pressed s = 0 \<and> caps s = 0 \<and> buffer_index s = 0 \<and> input_buffer s = replicate 256 0"

definition new_editor :: editor where
  "new_editor = \<lparr>ed_shift = False, ed_caps = False, ed_line = []\<rparr>"

lemma shell_start_more: "kernel.more s' = kernel.more s \<Longrightarrow> shell_start s' = shell_start s" for s s' :: "'a shell_scheme"
  by (cases s; cases s'; simp add: shell_start_def)

lemma shell_start_ok: "shell_start s \<Longrightarrow> shell_ok s \<and> editor_of s = new_editor"
  by (simp add: shell_start_def shell_ok_def line_ok_iff line_def editor_of_def new_editor_def)

lemma booted_shell:
  assumes "power_on s" "boot_info_ok b magic mbd (mc s) es n" "shell_start s" "kernel_main b magic mbd s = Inr s0"
  shows "shell_ok s0 \<and> editor_of s0 = new_editor"
proof -
  have "kernel.more s0 = kernel.more s" using kernel_main_ok[OF assms(1,2)] assms(4) by auto
  then show ?thesis using shell_start_more assms(3) shell_start_ok by blast
qed

section \<open>Properties\<close>

text \<open>
  C12: Typing refines the abstract line editor. For every sequence of timer ticks and key events
  without Enter the handlers run to completion, whatever is typed and however long, and the
  shift state, the caps state and the line are those the editor computes.\<close>

theorem typing_refines_editor:
  assumes "shell_ok s" "\<forall>ev \<in> set evs. ev \<noteq> Key 0x1C"
  shows "\<exists>s'. events e s evs s' \<and> shell_ok s' \<and> editor_of s' = fold edit_event evs (editor_of s)"
  using typing[OF assms] .

text \<open>
  C2: From power-on to a command: after the boot, typing any text and then Enter runs the
  command named by the first word of exactly the text the editor shows, with the following
  words, at most fifteen, as its arguments.\<close>

theorem typed_command_runs:
  assumes "power_on s" "boot_info_ok b magic mbd (mc s) es n" "shell_start s" "\<forall>ev \<in> set evs. ev \<noteq> Key 0x1C"
  shows "\<exists>s0 s1 argv buf. kernel_main b magic mbd s = Inr s0 \<and> events e s0 evs s1 \<and>
    map cstr argv = take 16 (line_words (ed_line (fold edit_event evs new_editor))) \<and>
    handle_keyboard_interrupt e 0x1C s1 =
      (let s2 = (kprint s1 (bytes ''\<newline>''))\<lparr>input_buffer := buf\<rparr>
       in case argv of
            [] \<Rightarrow> Inr (prompt s2)
          | w # ws \<Rightarrow> bindE (run_command e w ws s2) (\<lambda>(early, s3). Inr (if early then s3 else prompt s3)))"
proof -
  obtain s0 where s0: "kernel_main b magic mbd s = Inr s0" using kernel_main_ok[OF assms(1,2)] by blast
  note ok = booted_shell[OF assms(1-3) s0]
  obtain s1 where s1: "events e s0 evs s1" "shell_ok s1" "editor_of s1 = fold edit_event evs new_editor"
    using typing[OF _ assms(4), of s0 e] ok by auto
  have "line s1 = ed_line (fold edit_event evs new_editor)" using s1(3) by (simp add: editor_of_def flip: s1(3))
  moreover have "cstr (ed_line (fold edit_event evs new_editor)) = ed_line (fold edit_event evs new_editor)"
    by (rule cstr_id[OF edit_events_nul]) (simp add: new_editor_def)
  ultimately show ?thesis using enter_words[of s1 e] s0 s1(1,2) by (auto simp: shell_ok_def)
qed

section \<open>A sample session\<close>

definition sample_machine :: shell where
  "sample_machine = kernel.extend sample_power_on \<lparr>shift_pressed = 0, caps = 0, input_buffer = replicate 256 0, buffer_index = 0\<rparr>"

lemma extend_fields:
  "mc (kernel.extend s x) = mc s" "pm (kernel.extend s x) = pm s" "dev (kernel.extend s x) = dev s" "vol (kernel.extend s x) = vol s"
  "kernel.more (kernel.extend s x) = x"
  by (simp_all add: kernel.defs)

lemma sample_machine_ok:
  "power_on sample_machine" "shell_start sample_machine"
  "boot_info_ok sample_boot_env MULTIBOOT_MAGIC sample_mbd (mc sample_machine) [sample_entry 0x8000000] 32"
proof -
  show "power_on sample_machine" using sample_power_on_ok by (simp add: power_on_def sample_machine_def extend_fields)
  show "shell_start sample_machine" by (simp add: shell_start_def sample_machine_def kernel.defs)
  show "boot_info_ok sample_boot_env MULTIBOOT_MAGIC sample_mbd (mc sample_machine) [sample_entry 0x8000000] 32"
    using sample_boot_info by (simp add: sample_machine_def extend_fields)
qed

text \<open>Shift, \<open>p\<close>, shift released, \<open>x\<close>, backspace, \<open>w\<close>, a tick, \<open>d\<close>.\<close>

definition sample_keys :: "event list" where
  "sample_keys = [Key 0x2A, Key 0x19, Key 0xAA, Key 0x2D, Key 0x0E, Key 0x11, Tick, Key 0x20]"

lemma sample_typed: "ed_line (fold edit_event sample_keys new_editor) = bytes ''Pwd''"
  by (simp add: sample_keys_def edit_event_def new_editor_def edit_line_def typed_def letter_def kbd_us_def bytes_def)

theorem typing_refines_editor_witness:
  "\<exists>s'. events sample_shell_env (sample_shell []) sample_keys s' \<and> line s' = bytes ''Pwd''"
proof -
  have ok: "shell_ok (sample_shell [])" "editor_of (sample_shell []) = new_editor"
    by (simp_all add: shell_ok_def sample_line sample_shell_fields editor_of_def new_editor_def)
  have "\<forall>ev \<in> set sample_keys. ev \<noteq> Key 0x1C" by (simp add: sample_keys_def)
  from typing_refines_editor[OF ok(1) this, of sample_shell_env] show ?thesis
    using sample_typed by (auto simp: ok(2)) (metis editor.select_convs(3) editor_of_def)
qed

theorem typed_command_runs_witness:
  "\<exists>s0 s1 argv buf. kernel_main sample_boot_env MULTIBOOT_MAGIC sample_mbd sample_machine = Inr s0 \<and>
    events sample_shell_env s0 sample_keys s1 \<and> map cstr argv = [bytes ''Pwd''] \<and>
    handle_keyboard_interrupt sample_shell_env 0x1C s1 =
      (let s2 = (kprint s1 (bytes ''\<newline>''))\<lparr>input_buffer := buf\<rparr>
       in case argv of
            [] \<Rightarrow> Inr (prompt s2)
          | w # ws \<Rightarrow> bindE (run_command sample_shell_env w ws s2) (\<lambda>(early, s3). Inr (if early then s3 else prompt s3)))"
proof -
  have "line_words (bytes ''Pwd'') = [bytes ''Pwd'']" by (simp add: bytes_def line_words.simps)
  moreover have "\<forall>ev \<in> set sample_keys. ev \<noteq> Key 0x1C" by (simp add: sample_keys_def)
  ultimately show ?thesis
    using typed_command_runs[OF sample_machine_ok(1,3,2), of sample_keys sample_shell_env] unfolding sample_typed by simp
qed

end
