(* ===== verification/Session.thy ===== *)
theory Session
  imports Events
begin

text \<open>
  Sessions at the console: lines that are typed and run one after the other. The words of a line
  are put together again by the commands that take text, and what \<open>fat-write\<close> stores on the disk
  is what \<open>fat-cat\<close> prints, from the scan codes of the keys to the bytes on the serial line.
\<close>

section \<open>Text of several words\<close>

fun unwords :: "u8 list list \<Rightarrow> u8 list" where
  "unwords [] = []"
| "unwords [w] = w"
| "unwords (w # v # ws) = w @ 32 # unwords (v # ws)"

lemma push_word_eq: "length acc \<le> lim \<Longrightarrow> push_word lim w acc = take lim (acc @ cstr w)"
  by (induction lim w acc rule: push_word.induct) (auto simp: cstr_def take_Cons')

text \<open>The joining loops of write-test and fat-write give the words separated by blanks, cut at the limit.\<close>

lemma join_words_eq: "length acc \<le> lim \<Longrightarrow> join_words lim ws acc = take lim (acc @ unwords (map cstr ws))"
proof (induction lim ws acc rule: join_words.induct)
  case (3 lim w v ws acc)
  let ?a = "push_word lim w acc"
  let ?b = "if length ?a < lim then ?a @ [32] else ?a"
  have p: "?a = take lim (acc @ cstr w)" using "3.prems" by (rule push_word_eq)
  have "length ?b \<le> lim" using push_word_length[OF "3.prems", of w] by simp
  from "3.IH"[OF refl this] have "join_words lim (w # v # ws) acc = take lim (?b @ unwords (map cstr (v # ws)))"
    by (simp add: Let_def)
  also have "\<dots> = take lim (acc @ unwords (map cstr (w # v # ws)))" by (auto simp: p take_Cons' min_def not_less)
  finally show ?case .
qed (simp_all add: push_word_eq)

lemma unwords_length: "length (unwords (line_words xs)) \<le> length xs"
proof (induction xs rule: length_induct)
  case (1 xs)
  let ?ys = "dropWhile (\<lambda>c. c = 32) xs"
  let ?w = "takeWhile (\<lambda>c. c \<noteq> 32) ?ys" and ?r = "dropWhile (\<lambda>c. c \<noteq> 32) ?ys"
  have l: "length ?ys \<le> length xs" by (rule length_dropWhile_le)
  have wr: "length ?w + length ?r = length ?ys" by (metis length_append takeWhile_dropWhile_id)
  show ?case
  proof (cases "line_words xs")
    case (Cons w ws)
    then have e: "w = ?w" "ws = line_words ?r" using line_words.simps[of xs] by (auto simp only: Let_def list.inject split: if_splits)
    show ?thesis
    proof (cases ?r)
      case Nil
      have "line_words [] = []" by (subst line_words.simps) simp
      then have "line_words xs = [?w]" using Cons e Nil by (simp only:)
      then show ?thesis using l wr by simp
    next
      case r: (Cons c r)
      then have "c = 32" using hd_dropWhile[of "\<lambda>c. c \<noteq> 32" ?ys] by auto
      then have "ws = line_words r" using e(2) r line_words_cons by simp
      moreover have "length r < length xs" using r wr l by simp
      ultimately have "length (unwords ws) \<le> length r" using "1.IH" by blast
      then show ?thesis using Cons e(1) r wr l by (cases ws) simp_all
    qed
  qed simp
qed

section \<open>Files and commands\<close>

text \<open>Names and texts are C strings: what follows the NUL does not matter.\<close>

lemma format_83_cstr: "cstr w = cstr w' \<Longrightarrow> fat16_format_83 w = fat16_format_83 w'"
  by (simp add: fat16_format_83_eq stem_def suffix_of_def)

lemma format_83_name:
  assumes "fat16_format_83 w = (name8, ext3)"
  shows "length name8 = 8" "length ext3 = 3" "name8 ! 0 \<noteq> 0" "0xE5 \<notin> set (cstr w) \<Longrightarrow> name8 ! 0 \<noteq> 0xE5"
proof -
  have e: "name8 = pad 8 (map to_upper (stem w))" "ext3 = pad 3 (map to_upper (suffix_of w))"
    using assms by (simp_all add: fat16_format_83_eq)
  show "length name8 = 8" "length ext3 = 3" by (simp_all add: e)
  have n: "name8 ! 0 = (case stem w of [] \<Rightarrow> 32 | c # _ \<Rightarrow> to_upper c)"
    by (cases "stem w") (simp_all add: e pad_def nth_append)
  have st: "set (stem w) \<subseteq> set (cstr w)" by (auto simp: stem_def dest: set_takeWhileD)
  have up: "to_upper c = 0 \<longleftrightarrow> c = 0" "to_upper c = 0xE5 \<longleftrightarrow> c = 0xE5" for c
    by (auto simp: to_upper_def word_le_nat_alt word_unat_eq_iff unat_sub_if_size word_size)
  show "name8 ! 0 \<noteq> 0" using st cstr_no_nul[of 0 w] by (auto simp: n up split: list.split)
  show "0xE5 \<notin> set (cstr w) \<Longrightarrow> name8 ! 0 \<noteq> 0xE5" using st by (auto simp: n up split: list.split)
qed

text \<open>A volume that can take one more small file under a name, and one that has the file.\<close>

definition room_for :: "fat16_vol \<Rightarrow> u8 list \<Rightarrow> bool" where
  "room_for v w \<longleftrightarrow> vol_ok v \<and> (case fat16_format_83 w of (name8, ext3) \<Rightarrow> lookup name8 ext3 (root_list v) = None) \<and>
     first_free (root_list v) \<noteq> None \<and> free_clusters v \<noteq> {} \<and> 0xE5 \<notin> set (cstr w)"

definition holds_file :: "fat16_vol \<Rightarrow> u8 list \<Rightarrow> u8 list \<Rightarrow> bool" where
  "holds_file v w bs \<longleftrightarrow> vol_ok v \<and>
     (\<exists>en c. (case fat16_format_83 w of (name8, ext3) \<Rightarrow> lookup name8 ext3 (root_list v) = Some en) \<and>
        stored v [c] bs \<and> c = low_first_cluster en \<and> length bs = unat (file_size en))"

lemma one_cluster: "vol_ok v \<Longrightarrow> 0 < sz \<Longrightarrow> unat sz \<le> 512 \<Longrightarrow> clusters_needed v sz = 1"
proof -
  assume a: "vol_ok v" "0 < sz" "unat sz \<le> 512"
  then have "512 \<le> spc v * 512" "0 < unat sz" by (auto simp: vol_ok_def unat_gt_0)
  then show ?thesis using a(3) by (simp add: clusters_needed_def div_nat_eqI)
qed

lemma fat_write_stores:
  fixes ws defines "bs \<equiv> unwords (map cstr ws)"
  assumes "room_for (vol s) w" "ws \<noteq> []" "bs \<noteq> []" "length bs \<le> 254" "2 \<le> fuel e"
  shows "\<exists>v. cmd_fat_write e (w # ws) s = Inr (kprint (s\<lparr>vol := v\<rparr>) (bytes ''fat16_write: file written!\<newline>'')) \<and>
    holds_file v w bs"
proof -
  obtain name8 ext3 where f: "fat16_format_83 w = (name8, ext3)" by fastforce
  note nm = format_83_name[OF f]
  obtain j where r: "vol_ok (vol s)" "lookup name8 ext3 (root_list (vol s)) = None" "first_free (root_list (vol s)) = Some j"
      "free_clusters (vol s) \<noteq> {}" "0xE5 \<notin> set (cstr w)"
    using assms(2) f by (auto simp: room_for_def)
  let ?sz = "of_nat (length bs) :: u32"
  have sz: "unat ?sz = length bs" using assms(5) by (simp add: unsigned_of_nat take_bit_eq_mod)
  have pos: "0 < ?sz" using sz assms(4) by (simp add: word_less_nat_alt)
  have one: "clusters_needed (vol s) ?sz = 1" using one_cluster[OF r(1) pos] sz assms(5) by simp
  have "1 \<le> card (free_clusters (vol s))" using r(4) by (simp add: Suc_le_eq card_gt_0_iff)
  then obtain v cs where v: "fat16_write_file (fuel e) name8 ext3 bs ?sz s =
      Inr (0, kprint (s\<lparr>vol := v\<rparr>) (bytes ''fat16_write: file written!\<newline>''))" "vol_ok v" "length cs = 1"
      "stored v cs bs" "root_list v = (root_list (vol s))[j := new_dir_entry name8 ext3 (hd cs) ?sz]"
    using write_file_spec[OF r(1) nm(1,2) pos, of bs j "fuel e"] sz assms(5,6) r(3) one by auto
  note np = new_entry_props[OF nm(1,2), of "hd cs" ?sz]
  let ?en = "new_dir_entry name8 ext3 (hd cs) ?sz"
  have "\<not> is_free ?en" using np(2) nm(3) nm(4)[OF r(5)] by (simp add: is_free_def)
  then have "lookup name8 ext3 (root_list v) = Some (dir_entry_at ?en 0)"
    unfolding v(5) using lookup_new[OF r(3,2)] names_new[OF nm(1,2)] by blast
  moreover obtain c where "cs = [c]" using v(3) by (auto simp: length_Suc_conv)
  ultimately have "holds_file v w bs" using v(2,4) np(6,7) sz f by (auto simp: holds_file_def)
  moreover have "join_words 254 ws [] = bs" using assms(5) by (simp add: join_words_eq bs_def)
  ultimately show ?thesis using v(1) f assms(3) by (cases ws) (auto simp: cmd_fat_write_def)
qed

lemma read_file_frame:
  "fat16_read_file n name8 ext3 m s = Inr (r, bs, s') \<Longrightarrow> r \<noteq> -1 \<Longrightarrow> \<exists>v. s' = s\<lparr>vol := v\<rparr>"
  by (auto simp: fat16_read_file_def bindE_eq_Inr Let_def split: prod.splits option.splits)

lemma fat_cat_prints:
  assumes "holds_file (vol s) w bs" "bs \<noteq> []" "length bs \<le> 254" "2 \<le> fuel e"
  shows "\<exists>v x. cmd_fat_cat e (w # ws) s = Inr (kprint (kprint (s\<lparr>vol := v\<rparr>) (bs @ 0 # x)) (bytes ''\<newline>''))"
proof -
  obtain name8 ext3 where f: "fat16_format_83 w = (name8, ext3)" by fastforce
  obtain en c where en: "vol_ok (vol s)" "lookup name8 ext3 (root_list (vol s)) = Some en" "stored (vol s) [c] bs"
      "c = low_first_cluster en" "length bs = unat (file_size en)"
    using assms(1) f by (auto simp: holds_file_def)
  have le: "file_size en \<le> 4096" using en(5) assms(3) by (simp add: word_le_nat_alt)
  have n: "sint (file_size en) = int (length bs)"
    using sint_small[of "file_size en"] en(5) assms(3) by simp
  obtain s' where s': "fat16_read_file (fuel e) name8 ext3 4096 s = Inr (int (length bs), bs, s')"
    using read_file_stored[OF en(1-3) _ _ en(5) le, of "fuel e"] en(4) assms(4) n by auto
  obtain v where v: "s' = s\<lparr>vol := v\<rparr>" using read_file_frame[OF s'] by auto
  have "[length bs..<4096] = length bs # [Suc (length bs)..<4096]" by (rule upt_conv_Cons) (use assms(3) in linarith)
  then have "(bs @ map (stack_bytes e) [length bs..<4096])[length bs := 0] = bs @ 0 # map (stack_bytes e) [Suc (length bs)..<4096]"
    by (simp only: list.map list_update_length)
  then show ?thesis using f s' v assms(2,3) by (auto simp: cmd_fat_cat_def Let_def)
qed

section \<open>Lines\<close>

lemma line_words_sub: "w \<in> set (line_words xs) \<Longrightarrow> w \<noteq> [] \<and> set w \<subseteq> set xs"
proof (induction xs rule: line_words.induct)
  case (1 xs)
  let ?ys = "dropWhile (\<lambda>c. c = 32) xs"
  let ?w = "takeWhile (\<lambda>c. c \<noteq> 32) ?ys" and ?r = "dropWhile (\<lambda>c. c \<noteq> 32) ?ys"
  have ne: "?ys \<noteq> []" and m: "w = ?w \<or> w \<in> set (line_words ?r)"
    using "1.prems" line_words.simps[of xs] by (auto simp only: Let_def set_simps insert_iff empty_iff split: if_splits)
  have "hd ?ys \<noteq> 32" using ne hd_dropWhile[of "\<lambda>c. c = 32" xs] by simp
  then have "?w \<noteq> []" using ne by (cases ?ys) simp_all
  moreover have "set ?w \<subseteq> set xs" "set ?r \<subseteq> set xs"
    by (auto dest!: set_takeWhileD set_dropWhileD dest: set_dropWhileD)
  ultimately show ?case using m "1.IH"[OF refl ne] by (cases "w = ?w") (simp, meson order_trans)
qed

lemma unwords_sub: "set (unwords ws) \<subseteq> insert 32 (\<Union>w \<in> set ws. set w)"
  by (induction ws rule: unwords.induct) auto

lemma unwords_nonempty: "ws \<noteq> [] \<Longrightarrow> [] \<notin> set ws \<Longrightarrow> unwords ws \<noteq> []"
  by (cases ws rule: unwords.cases) auto

text \<open>A key never puts a backspace into the line either.\<close>

lemma edit_event_bs: "8 \<notin> set (ed_line d) \<Longrightarrow> 8 \<notin> set (ed_line (edit_event ev d))"
  by (cases ev) (auto simp: edit_event_def edit_line_def dest: in_set_butlastD)

lemma edit_events_bs: "8 \<notin> set (ed_line d) \<Longrightarrow> 8 \<notin> set (ed_line (fold edit_event evs d))"
  by (induction evs arbitrary: d) (simp_all add: edit_event_bs)

lemma events_append: "events e s xs s1 \<Longrightarrow> events e s1 ys s' \<Longrightarrow> events e s (xs @ ys) s'"
  by (induction rule: events.induct) (auto intro: events.event)

text \<open>Typing leaves the disk alone.\<close>

lemma typing_vol:
  assumes "event_step e s ev s'" "shell_ok s" "ev \<noteq> Key 0x1C"
  shows "vol s' = vol s"
proof (cases ev)
  case Tick
  then show ?thesis using assms(1) by (auto simp: event_step_simps)
next
  case (Key sc)
  then obtain s1 where s1: "handle_keyboard_interrupt e sc s = Inr s1" "vol s' = vol s1"
    using assms(1) by (auto simp: event_step_simps key_event)
  have "vol s1 = vol s"
  proof (cases "edit_key sc")
    case True
    then obtain s2 where s2: "handle_keyboard_interrupt e sc s = Inr s2"
        "s2\<lparr>scr := scr s, input_buffer := input_buffer s, buffer_index := buffer_index s\<rparr> = s"
      using key_edits[of s sc e] assms(2) by (auto simp: shell_ok_def)
    have "vol (s2\<lparr>scr := scr s, input_buffer := input_buffer s, buffer_index := buffer_index s\<rparr>) = vol s" by (simp only: s2(2))
    then show ?thesis using s1(1) s2(1) by simp
  next
    case False
    then consider "sc = 0x2A \<or> sc = 0x36" | "sc = 0xAA \<or> sc = 0xB6" | "sc = 0x3A"
      | "sc AND 0x80 \<noteq> 0" "sc \<notin> {0x2A, 0x36, 0xAA, 0xB6, 0x3A}"
      using assms(3) Key release_code[of sc] by (auto simp: edit_key_def)
    then show ?thesis
      using s1(1) by cases (auto simp: handle_keyboard_interrupt_def)
  qed
  then show ?thesis using s1(2) by simp
qed

lemma typing_session:
  assumes "shell_ok s" "\<forall>ev \<in> set evs. ev \<noteq> Key 0x1C"
  shows "\<exists>s'. events e s evs s' \<and> shell_ok s' \<and> editor_of s' = fold edit_event evs (editor_of s) \<and> vol s' = vol s"
  using assms
proof (induction evs arbitrary: s)
  case (Cons ev evs)
  obtain s1 where s1: "event_step e s ev s1" "shell_ok s1" "editor_of s1 = edit_event ev (editor_of s)"
    using typing_step[of s ev e] Cons.prems by auto
  moreover have "vol s1 = vol s" using typing_vol[OF s1(1)] Cons.prems by simp
  ultimately show ?case using Cons.IH[OF s1(2)] Cons.prems(2) by (auto intro: events.event)
qed (auto intro: events.idle)

section \<open>Running a line\<close>

lemma line_editor: "line s = ed_line (editor_of s)"
  by (simp add: editor_of_def)

lemma prompt_fields [simp]: "vol (prompt s) = vol s" "caps (prompt s) = caps s" "shift_pressed (prompt s) = shift_pressed s"
  by (simp_all add: prompt_def Let_def kprint_def)

lemma serial_prompt: "serial (scr (prompt s)) = serial (scr s) @ [10]"
proof -
  have "serial (print_colored_loop t color m) = serial t" for t color m
    by (induction t color m rule: print_colored_loop.induct) (auto simp: print_colored_char_def Let_def)
  then have "serial (print_colored t m color) = serial t" for t color m by (simp add: print_colored_def)
  then show ?thesis by (simp add: prompt_def Let_def kprint_def serial_print) (simp add: bytes_def)
qed

lemma prompt_editor:
  "shell_ok s \<Longrightarrow> caps t = caps s \<Longrightarrow> shift_pressed t = shift_pressed s \<Longrightarrow>
   shell_ok (prompt t) \<and> editor_of (prompt t) = (editor_of s)\<lparr>ed_line := []\<rparr>"
  by (simp add: shell_ok_def editor_of_def prompt_line)

text \<open>Enter on a line of at most sixteen words, for a command that does not return early.\<close>

lemma enter_command:
  assumes "shell_ok s" "0 \<notin> set (line s)" "line_words (line s) = w # ws" "length ws \<le> 15"
    and cmd: "\<And>w' ws' buf. cstr w' = w \<Longrightarrow> map cstr ws' = ws \<Longrightarrow>
      \<exists>t. run_command e w' ws' ((kprint s (bytes ''\<newline>''))\<lparr>input_buffer := buf\<rparr>) = Inr (False, t) \<and>
        caps t = caps s \<and> shift_pressed t = shift_pressed s \<and> P t"
  shows "\<exists>t s'. event_step e s (Key 0x1C) s' \<and> P t \<and> vol s' = vol t \<and> serial (scr s') = serial (scr t) @ [10] \<and>
    shell_ok s' \<and> editor_of s' = (editor_of s)\<lparr>ed_line := []\<rparr>"
proof -
  have ok: "line_ok s" using assms(1) by (simp add: shell_ok_def)
  obtain argv buf where a: "map cstr argv = w # ws"
    and h: "handle_keyboard_interrupt e 0x1C s =
      (let s1 = (kprint s (bytes ''\<newline>''))\<lparr>input_buffer := buf\<rparr>
       in case argv of [] \<Rightarrow> Inr (prompt s1)
          | w # ws \<Rightarrow> bindE (run_command e w ws s1) (\<lambda>(early, s2). Inr (if early then s2 else prompt s2)))"
    using enter_words[OF ok, of e] unfolding cstr_id[OF assms(2)] assms(3) using assms(4)
    by (elim exE conjE) (simp only: take_all list.size)
  obtain w' ws' where w': "argv = w' # ws'" "cstr w' = w" "map cstr ws' = ws" using a by auto
  obtain t where t: "run_command e w' ws' ((kprint s (bytes ''\<newline>''))\<lparr>input_buffer := buf\<rparr>) = Inr (False, t)"
      "caps t = caps s" "shift_pressed t = shift_pressed s" "P t"
    using cmd[OF w'(2,3)] by blast
  have "handle_keyboard_interrupt e 0x1C s = Inr (prompt t)" using h w'(1) t(1) by (simp add: Let_def)
  then have "event_step e s (Key 0x1C) ((prompt t)\<lparr>dev := outb 0x20 0x20 (dev (prompt t))\<rparr>)"
    by (auto simp: event_step_simps key_event)
  then show ?thesis using prompt_editor[OF assms(1) t(2,3)] t(4) serial_prompt[of t] by force
qed

lemma run_fat_write:
  "cstr w = bytes ''fat-write'' \<Longrightarrow> run_command e w ws s = ret (cmd_fat_write (env.truncate e) ws s)"
  by (simp add: run_command_def is_cmd_iff bytes_def cstr_def)

lemma run_fat_cat: "cstr w = bytes ''fat-cat'' \<Longrightarrow> run_command e w ws s = ret (cmd_fat_cat e ws s)"
  by (simp add: run_command_def is_cmd_iff bytes_def cstr_def)

lemma room_for_cstr: "cstr w = cstr w' \<Longrightarrow> room_for v w = room_for v w'"
  by (simp add: room_for_def format_83_cstr[of w w'])

lemma holds_file_cstr: "cstr w = cstr w' \<Longrightarrow> holds_file v w = holds_file v w'"
  by (simp add: holds_file_def fun_eq_iff format_83_cstr[of w w'])

lemma enter_fat_write:
  fixes s :: "'a shell_scheme"
  assumes "shell_ok s" "0 \<notin> set (line s)" "line_words (line s) = bytes ''fat-write'' # name # ws" "ws \<noteq> []" "length ws \<le> 14"
    and "room_for (vol s) name" "2 \<le> fuel e"
  shows "\<exists>s'. event_step e s (Key 0x1C) s' \<and> holds_file (vol s') name (unwords ws) \<and>
    shell_ok s' \<and> editor_of s' = (editor_of s)\<lparr>ed_line := []\<rparr>"
proof -
  have sub: "w \<noteq> [] \<and> 0 \<notin> set w" if "w \<in> set (name # ws)" for w
    using line_words_sub[of w "line s"] that assms(2,3) by auto
  have len: "length (unwords ws) \<le> 254"
    using unwords_length[of "line s"] assms(1,3,4) by (cases ws) (auto simp: shell_ok_def line_ok_iff)
  have ne: "unwords ws \<noteq> []" using unwords_nonempty[OF assms(4)] sub by force
  have "\<exists>(t :: 'a shell_scheme) s'. event_step e s (Key 0x1C) s' \<and> holds_file (vol t) name (unwords ws) \<and> vol s' = vol t \<and>
      serial (scr s') = serial (scr t) @ [10] \<and> shell_ok s' \<and> editor_of s' = (editor_of s)\<lparr>ed_line := []\<rparr>"
  proof (rule enter_command[OF assms(1-3), where P = "\<lambda>t. holds_file (vol t) name (unwords ws)"])
    show "length (name # ws) \<le> 15" using assms(5) by simp
    fix w' ws' buf
    assume w': "cstr w' = bytes ''fat-write''" "map cstr ws' = name # ws"
    let ?s = "(kprint s (bytes ''\<newline>''))\<lparr>input_buffer := buf\<rparr>"
    obtain n us where u: "ws' = n # us" "cstr n = name" "map cstr us = ws" using w'(2) by auto
    have c: "cstr n = cstr name" using u(2) sub[of name] by (simp add: cstr_id)
    obtain v where "cmd_fat_write (env.truncate e) (n # us) ?s =
        Inr (kprint (?s\<lparr>vol := v\<rparr>) (bytes ''fat16_write: file written!\<newline>''))" "holds_file v n (unwords ws)"
      using fat_write_stores[of ?s n us "env.truncate e"] u(3) assms(4,6,7) len ne room_for_cstr[OF c]
      by (auto simp: kprint_def env.defs)
    then show "\<exists>t. run_command e w' ws' ?s = Inr (False, t) \<and> caps t = caps s \<and> shift_pressed t = shift_pressed s \<and>
        holds_file (vol t) name (unwords ws)"
      using holds_file_cstr[OF c, of v] by (simp add: run_fat_write[OF w'(1)] u(1) ret_def kprint_def)
  qed
  then show ?thesis by metis
qed

lemma enter_fat_cat:
  fixes s :: "'a shell_scheme"
  assumes "shell_ok s" "0 \<notin> set (line s)" "line_words (line s) = [bytes ''fat-cat'', name]"
    and "holds_file (vol s) name bs" "bs \<noteq> []" "length bs \<le> 254" "0 \<notin> set bs" "8 \<notin> set bs" "2 \<le> fuel e"
  shows "\<exists>s'. event_step e s (Key 0x1C) s' \<and> serial (scr s') = serial (scr s) @ [10] @ bs @ [10] @ [10]"
proof -
  have nm: "0 \<notin> set name" using line_words_sub[of name "line s"] assms(2,3) by auto
  let ?P = "\<lambda>t :: 'a shell_scheme. serial (scr t) = serial (scr s) @ [10] @ bs @ [10]"
  have "\<exists>(t :: 'a shell_scheme) s'. event_step e s (Key 0x1C) s' \<and> ?P t \<and> vol s' = vol t \<and>
      serial (scr s') = serial (scr t) @ [10] \<and> shell_ok s' \<and> editor_of s' = (editor_of s)\<lparr>ed_line := []\<rparr>"
  proof (rule enter_command[OF assms(1-3), where P = ?P])
    fix w' ws' buf
    assume w': "cstr w' = bytes ''fat-cat''" "map cstr ws' = [name]"
    let ?s = "(kprint s (bytes ''\<newline>''))\<lparr>input_buffer := buf\<rparr>"
    obtain n where u: "ws' = [n]" "cstr n = name" using w'(2) by auto
    have c: "cstr n = cstr name" using u(2) nm by (simp add: cstr_id)
    obtain v x where r: "cmd_fat_cat e [n] ?s = Inr (kprint (kprint (?s\<lparr>vol := v\<rparr>) (bs @ 0 # x)) (bytes ''\<newline>''))"
      using fat_cat_prints[of ?s n bs e "[]"] assms(4-6,9) holds_file_cstr[OF c] by (auto simp: kprint_def)
    have k: "cstr (bs @ 0 # x) = bs" using assms(7) by (auto simp: cstr_def takeWhile_tail takeWhile_eq_all_conv)
    have f: "filter (\<lambda>c. c \<noteq> 8) bs = bs" using assms(8) by (auto simp: filter_id_conv)
    have nl: "cstr (bytes ''\<newline>'') = [10]" by (simp add: bytes_def)
    show "\<exists>t. run_command e w' ws' ?s = Inr (False, t) \<and> caps t = caps s \<and> shift_pressed t = shift_pressed s \<and> ?P t"
      using r by (simp add: run_fat_cat[OF w'(1)] u(1) ret_def kprint_def serial_print k f nl)
  qed simp
  then show ?thesis by auto
qed

section \<open>Property\<close>

text \<open>
  C3: What fat-write stores, fat-cat prints. On a volume with room, typing a line of the form
  \<open>fat-write name words\<close> and Enter, and then a line \<open>fat-cat name\<close> and Enter, with whatever corrections,
  modifier keys and timer ticks in between, runs without a fault, and the second command sends
  exactly the words of the first line, separated by blanks, to the console.
\<close>

theorem fat_write_cat_session:
  assumes "shell_ok s" "line s = []" "\<forall>ev \<in> set (evs1 @ evs2). ev \<noteq> Key 0x1C"
    and "line_words (ed_line (fold edit_event evs1 (editor_of s))) = bytes ''fat-write'' # name # ws"
    and "line_words (ed_line (fold edit_event evs2 ((fold edit_event evs1 (editor_of s))\<lparr>ed_line := []\<rparr>))) = [bytes ''fat-cat'', name]"
    and "ws \<noteq> []" "length ws \<le> 14" "room_for (vol s) name" "2 \<le> fuel e"
  shows "\<exists>s1 s2. events e s (evs1 @ [Key 0x1C] @ evs2) s1 \<and> events e s1 [Key 0x1C] s2 \<and>
    serial (scr s2) = serial (scr s1) @ [10] @ unwords ws @ [10] @ [10]"
proof -
  let ?d = "fold edit_event evs1 (editor_of s)" let ?d2 = "fold edit_event evs2 (?d\<lparr>ed_line := []\<rparr>)"
  have clean: "0 \<notin> set (ed_line ?d)" "8 \<notin> set (ed_line ?d)" "0 \<notin> set (ed_line ?d2)"
    using assms(2) by (auto intro!: edit_events_nul edit_events_bs simp: line_editor[symmetric])
  obtain a where a: "events e s evs1 a" "shell_ok a" "editor_of a = ?d" "vol a = vol s"
    using typing_session[OF assms(1), of evs1 e] assms(3) by auto
  have la: "line a = ed_line ?d" using a(3) by (simp add: line_editor)
  obtain b where b: "event_step e a (Key 0x1C) b" "holds_file (vol b) name (unwords ws)" "shell_ok b" "editor_of b = ?d\<lparr>ed_line := []\<rparr>"
    using enter_fat_write[OF a(2), of name ws e] la assms(4,6-9) clean(1) a(3,4) by auto
  obtain c where c: "events e b evs2 c" "shell_ok c" "editor_of c = ?d2" "vol c = vol b"
    using typing_session[OF b(3), of evs2 e] assms(3) b(4) by auto
  have lc: "line c = ed_line ?d2" using c(3) by (simp add: line_editor)
  have sub: "w \<noteq> [] \<and> 0 \<notin> set w \<and> 8 \<notin> set w" if "w \<in> set ws" for w
    using line_words_sub[of w "ed_line ?d"] that assms(4) clean(1,2) by auto
  have mem: "c = 32 \<or> (\<exists>w \<in> set ws. c \<in> set w)" if "c \<in> set (unwords ws)" for c
    using unwords_sub[of ws] that by blast
  have wd: "unwords ws \<noteq> []" "0 \<notin> set (unwords ws)" "8 \<notin> set (unwords ws)"
    using unwords_nonempty[OF assms(6)] sub mem[of 0] mem[of 8] by auto
  have "length (unwords ws) \<le> 254"
    using unwords_length[of "line a"] la a(2) assms(4,6) by (cases ws) (auto simp: shell_ok_def line_ok_iff)
  then obtain d where d: "event_step e c (Key 0x1C) d" "serial (scr d) = serial (scr c) @ [10] @ unwords ws @ [10] @ [10]"
    using enter_fat_cat[OF c(2), of name "unwords ws" e] lc clean(3) assms(5,9) b(2) c(4) wd by auto
  have "events e s (evs1 @ [Key 0x1C] @ evs2) c"
    using events_append[OF a(1) events_append[OF events.event[OF b(1) events.idle] c(1)]] .
  then show ?thesis using d events.event[OF d(1) events.idle] by blast
qed

text \<open>The keys of \<open>fat-write a.b hi\<close>, with a letter taken back, and of \<open>fat-cat a.b\<close>.\<close>

definition write_keys :: "event list" where
  "write_keys = map Key [0x21, 0x1E, 0x14, 0x0C, 0x11, 0x13, 0x17, 0x14, 0x12, 0x39, 0x1E, 0x34, 0x30, 0x39, 0x23, 0x2D, 0x0E, 0x17]"

definition cat_keys :: "event list" where
  "cat_keys = map Key [0x21, 0x1E, 0x14, 0x0C, 0x2E, 0x1E, 0x14, 0x39, 0x1E, 0x34, 0x30]"

lemma sample_lines:
  "ed_line (fold edit_event write_keys new_editor) = bytes ''fat-write a.b hi''"
  "ed_line (fold edit_event cat_keys new_editor) = bytes ''fat-cat a.b''"
  "(fold edit_event write_keys new_editor)\<lparr>ed_line := []\<rparr> = new_editor"
  by (simp_all add: write_keys_def cat_keys_def edit_event_def new_editor_def edit_line_def typed_def letter_def kbd_us_def bytes_def)

lemma sample_line_words:
  "line_words (bytes ''fat-write a.b hi'') = [bytes ''fat-write'', bytes ''a.b'', bytes ''hi'']"
  "line_words (bytes ''fat-cat a.b'') = [bytes ''fat-cat'', bytes ''a.b'']"
  by (simp_all add: bytes_def line_words.simps)

theorem fat_write_cat_session_witness:
  "\<exists>s1 s2. events sample_shell_env ((sample_shell [])\<lparr>vol := sample_vol\<rparr>) (write_keys @ [Key 0x1C] @ cat_keys) s1 \<and>
    events sample_shell_env s1 [Key 0x1C] s2 \<and> serial (scr s2) = serial (scr s1) @ [10] @ bytes ''hi'' @ [10] @ [10]"
proof -
  let ?s = "(sample_shell [])\<lparr>vol := sample_vol\<rparr>"
  have ed: "shell_ok ?s" "line ?s = []" "editor_of ?s = new_editor"
    using sample_line[of "[]"] by (simp_all add: shell_ok_def line_ok_iff line_def sample_shell_fields editor_of_def new_editor_def)
  have "room_for sample_vol (bytes ''a.b'')"
    using sample_vol_ok(1) sample_lookup(1,2) sample_free(1) by (auto simp: room_for_def bytes_def cstr_def split: prod.split)
  moreover have "\<forall>ev \<in> set (write_keys @ cat_keys). ev \<noteq> Key 0x1C" by (simp add: write_keys_def cat_keys_def)
  ultimately show ?thesis
    using fat_write_cat_session[of ?s write_keys cat_keys "bytes ''a.b''" "[bytes ''hi'']" sample_shell_env] ed
    by (simp add: sample_lines sample_line_words sample_shell_env_def)
qed

end
