(* ===== verification/Running.thy ===== *)
theory Running
  imports Session
begin

text \<open>
  What every command leaves intact: the geometry of the volume and the size of its sectors, and the
  variables of the keyboard driver. The facts on the single routines are collected in \<open>steady_rules\<close>
  and carry over to whole commands, to the programs they run, and to any sequence of events.
\<close>

named_theorems steady_rules \<open>what the routines of the file system keep of the volume\<close>

section \<open>The volume\<close>

definition steady :: "fat16_vol \<Rightarrow> fat16_vol \<Rightarrow> bool" where
  "steady v v' \<longleftrightarrow> geom v' = geom v \<and> (disk_ok (disk v) \<longrightarrow> disk_ok (disk v'))"

lemma steady_refl [simp]: "steady v v"
  by (simp add: steady_def)

lemma steady_trans [trans]: "steady v v1 \<Longrightarrow> steady v1 v2 \<Longrightarrow> steady v v2"
  by (simp add: steady_def)

lemma steady_vol_ok: "steady v v' \<Longrightarrow> vol_ok v \<Longrightarrow> vol_ok v'"
  using vol_ok_geom[of v' v] by (simp add: steady_def vol_ok_def)

lemma rd_sector_steady [steady_rules]: "rd_sector a v = (buf, v') \<Longrightarrow> steady v v'"
  using rd_sector_snd[of a v buf v'] by (simp add: steady_def)

text \<open>A sector is transferred as 256 words, so it has 512 bytes again whatever buffer was written.\<close>

lemma wr_sector_steady [steady_rules]: "steady v (wr_sector a buf v)"
  by (simp add: steady_def wr_sector_def geom_def disk_ok_def ata_write_sector_def bytes_of_length words_of_def Let_def)

lemma read_fat_entry_steady [steady_rules]: "fat16_read_fat_entry c v = Inr (x, v') \<Longrightarrow> steady v v'"
  by (auto simp: fat16_read_fat_entry_def Let_def split: if_splits prod.splits dest: rd_sector_steady)

lemma write_fat_entry_steady [steady_rules]: "fat16_write_fat_entry c x v = Inr v' \<Longrightarrow> steady v v'"
  by (auto simp: fat16_write_fat_entry_def Let_def split: if_splits prod.splits
      intro!: steady_trans[OF rd_sector_steady steady_trans[OF wr_sector_steady wr_sector_steady]])

lemma find_free_loop_steady: "find_free_loop c bound v = Inr (x, v') \<Longrightarrow> steady v v'"
proof (induction c bound v rule: find_free_loop.induct)
  case (1 c bound v)
  show ?case
  proof (cases "c < bound")
    case True
    then obtain y v1 where y: "fat16_read_fat_entry c v = Inr (y, v1)" "y = 0 \<and> v' = v1 \<or> y \<noteq> 0 \<and> find_free_loop (c + 1) bound v1 = Inr (x, v')"
      using "1.prems" by (auto simp: find_free_loop.simps[of c] bindE_eq_Inr split: if_splits)
    then show ?thesis using "1.IH"[OF True y(1) refl] read_fat_entry_steady[OF y(1)] by (auto intro: steady_trans)
  next
    case False
    then show ?thesis using "1.prems" by (simp add: find_free_loop.simps[of c])
  qed
qed

lemma find_free_steady [steady_rules]: "fat16_find_free_cluster v = Inr (x, v') \<Longrightarrow> steady v v'"
  by (auto simp: fat16_find_free_cluster_def Let_def split: if_splits dest: find_free_loop_steady)

lemma alloc_chain_steady [steady_rules]: "alloc_chain n i fc pc v = Inr (r, v') \<Longrightarrow> steady v v'"
proof (induction n i fc pc v rule: alloc_chain.induct)
  case (2 n i fc pc v)
  obtain c v1 where c: "fat16_find_free_cluster v = Inr (c, v1)" using "2.prems" by (auto simp: bindE_eq_Inr)
  show ?case
  proof (cases "c = 0")
    case True
    then show ?thesis using "2.prems" c find_free_steady[OF c] by simp
  next
    case False
    then obtain v2 v3 where v: "(if i = 0 then Inr v1 else fat16_write_fat_entry pc c v1) = Inr v2"
        "fat16_write_fat_entry c 0xFFFF v2 = Inr v3" "alloc_chain n (Suc i) (if i = 0 then c else fc) c v3 = Inr (r, v')"
      using "2.prems" c by (auto simp: bindE_eq_Inr)
    have "steady v1 v2" using v(1) write_fat_entry_steady by (auto split: if_splits)
    then show ?thesis
      using find_free_steady[OF c] write_fat_entry_steady[OF v(2)] "2.IH"[OF c refl False v(1,2,3)] by (meson steady_trans)
  qed
qed simp

lemma write_cluster_steady [steady_rules]: "write_cluster ks lba data sz bw v = Inr (r, v') \<Longrightarrow> steady v v'"
  by (induction ks lba data sz bw v rule: write_cluster.induct)
    (auto simp: Let_def split: if_splits intro: steady_trans[OF wr_sector_steady])

lemma write_chain_steady [steady_rules]: "write_chain n c data sz bw v = Inr v' \<Longrightarrow> steady v v'"
proof (induction n arbitrary: c bw v)
  case (Suc n)
  then consider "v' = v" | x v1 y v2 where "write_cluster [0..<unat (sectors_per_clustor (g_bpb v))] (fat16_cluster_to_lba c v) data sz bw v = Inr (x, v1)"
      "fat16_read_fat_entry c v1 = Inr (y, v2)" "write_chain n y data sz x v2 = Inr v'"
    by (auto simp: bindE_eq_Inr Let_def split: if_splits)
  then show ?case
    by cases (auto intro: steady_trans[OF write_cluster_steady steady_trans[OF read_fat_entry_steady Suc.IH]])
qed simp

lemma add_entry_steady [steady_rules]: "add_entry is en v = (ok, v') \<Longrightarrow> steady v v'"
proof (induction "is" en v rule: add_entry.induct)
  case (2 i "is" en v)
  obtain buf v1 where r: "rd_sector (root_dir_start v + of_nat i) v = (buf, v1)" by fastforce
  show ?case
  proof (cases "free_slot [0..<16] buf")
    case None
    then show ?thesis using "2.prems" r "2.IH"[OF r[symmetric] refl None] rd_sector_steady[OF r] by (auto intro: steady_trans)
  next
    case (Some e)
    then show ?thesis using "2.prems" r rd_sector_steady[OF r] by (auto intro: steady_trans wr_sector_steady)
  qed
qed simp

lemma scan_root_steady [steady_rules]: "scan_root is n x v = (r, v') \<Longrightarrow> steady v v'"
  by (induction "is" n x v rule: scan_root.induct)
    (auto split: prod.splits dir_scan.splits dest!: rd_sector_steady intro: steady_trans)

lemma read_cluster_steady [steady_rules]: "read_cluster ks lba l out v = (l', out', v') \<Longrightarrow> steady v v'"
  by (induction ks lba l out v rule: read_cluster.induct)
    (auto simp: Let_def split: prod.splits if_splits dest!: rd_sector_steady intro: steady_trans)

lemma read_chain_steady [steady_rules]: "read_chain n c l out v = Inr (out', v') \<Longrightarrow> steady v v'"
proof (induction n arbitrary: c l out v)
  case (Suc n)
  then consider "v' = v" | l1 o1 v1 y v2 where "read_cluster [0..<unat (sectors_per_clustor (g_bpb v))] (fat16_cluster_to_lba c v) l out v = (l1, o1, v1)"
      "fat16_read_fat_entry c v1 = Inr (y, v2)" "read_chain n y l1 o1 v2 = Inr (out', v')"
    by (auto simp: bindE_eq_Inr Let_def split: if_splits prod.splits)
  then show ?case
    by cases (auto intro: steady_trans[OF read_cluster_steady steady_trans[OF read_fat_entry_steady Suc.IH]])
qed simp

section \<open>The kernel\<close>

definition calm :: "'a kernel_scheme \<Rightarrow> 'a kernel_scheme \<Rightarrow> bool" where
  "calm s s' \<longleftrightarrow> steady (vol s) (vol s') \<and> kernel.more s' = kernel.more s"

lemma calm_refl [simp]: "calm s s"
  by (simp add: calm_def)

lemma calm_trans [trans]: "calm s s1 \<Longrightarrow> calm s1 s2 \<Longrightarrow> calm s s2"
  by (auto simp: calm_def intro: steady_trans)

lemma calm_update [simp]:
  "calm s (s'\<lparr>scr := c\<rparr>) = calm s s'" "calm s (s'\<lparr>pm := p\<rparr>) = calm s s'" "calm s (s'\<lparr>mc := m\<rparr>) = calm s s'"
  "calm s (s'\<lparr>ps := q\<rparr>) = calm s s'" "calm s (s'\<lparr>dev := d\<rparr>) = calm s s'"
  "calm s (s'\<lparr>syscall_exit_requested := x\<rparr>) = calm s s'" "calm s (s'\<lparr>last_exit_status := x\<rparr>) = calm s s'"
  by (simp_all add: calm_def)

lemma calm_set_vol: "steady (vol s) v \<Longrightarrow> calm s (s\<lparr>vol := v\<rparr>)"
  by (simp add: calm_def)

lemma calm_before [simp]: "calm (s\<lparr>mc := m\<rparr>) s' = calm s s'" "calm (s\<lparr>pm := p\<rparr>) s' = calm s s'" "calm (s\<lparr>dev := d\<rparr>) s' = calm s s'"
  "calm (s\<lparr>ps := q\<rparr>) s' = calm s s'" "calm (s\<lparr>scr := c\<rparr>) s' = calm s s'"
  by (simp_all add: calm_def)

lemma calm_print [simp]:
  "calm s (kprint s' m) = calm s s'" "calm s (kprint_int s' i) = calm s s'" "calm s (kprint_hex s' x) = calm s s'"
  "calm (kprint s m) s' = calm s s'" "calm (kprint_int s i) s' = calm s s'" "calm (kprint_hex s x) s' = calm s s'"
  by (simp_all add: kprint_def kprint_int_def kprint_hex_def)

lemma calm_vm: "vm.more s' = vm.more s \<Longrightarrow> calm s s'"
  using vm_more_fields[of s' s] by (simp add: calm_def)

lemma calm_vol: "fatsys.more s' = fatsys.more s \<Longrightarrow> steady (vol s) (vol s') \<Longrightarrow> calm s s'"
  using fatsys_more_fields[of s' s] by (simp add: calm_def)

lemma allocators_calm:
  "kalloc_a n s = Inr (a, s') \<Longrightarrow> calm s s'" "palloc s = Inr (a, s') \<Longrightarrow> calm s s'" "kmemset d x n s = Inr s' \<Longrightarrow> calm s s'"
  by (auto simp: kalloc_a_def palloc_def kmemset_def bindE_eq_Inr)

lemma read_file_calm: "fat16_read_file n name8 ext3 m s = Inr (r, bs, s') \<Longrightarrow> calm s s'"
proof -
  assume r: "fat16_read_file n name8 ext3 m s = Inr (r, bs, s')"
  have "steady (vol s) (vol s')"
    using r by (auto simp: fat16_read_file_def bindE_eq_Inr Let_def kprint_def split: option.splits prod.splits
        dest!: scan_root_steady read_chain_steady intro: steady_trans)
  then show ?thesis using fat16_read_file_more[OF r] calm_vol by blast
qed

lemma read_file_to_calm: "read_file_to e n x b z s = Inr (r, s') \<Longrightarrow> calm s s'"
  by (auto simp: read_file_to_def bindE_eq_Inr dest: read_file_calm)

lemma write_file_calm:
  assumes r: "fat16_write_file n name8 ext3 data sz s = Inr (r, s')"
  shows "calm s s'"
proof -
  let ?tail = "\<lambda>fc v1. case fc of
      None \<Rightarrow> Inr (-1, kprint (s\<lparr>vol := v1\<rparr>) (bytes ''fat16_write: disk full!\<newline>''))
    | Some first_cluster \<Rightarrow>
        bindE (write_chain n first_cluster data sz 0 v1) (\<lambda>v2.
          let (ok, v3) = add_entry [0..<unat (root_dir_sectors v2)] (new_dir_entry name8 ext3 first_cluster sz) v2
          in if ok then Inr (0, kprint (s\<lparr>vol := v3\<rparr>) (bytes ''fat16_write: file written!\<newline>''))
             else Inr (-1, kprint (s\<lparr>vol := v3\<rparr>) (bytes ''fat16_write: root directory full!\<newline>'')))"
  consider "calm s s'" | k fc v1 where "alloc_chain k 0 0 0 (vol s) = Inr (fc, v1)" "?tail fc v1 = Inr (r, s')"
    using r unfolding fat16_write_file_def Let_def by (auto simp: bindE_eq_Inr split: if_splits)
  then show ?thesis
  proof cases
    case (2 k fc v1)
    have s1: "steady (vol s) v1" using alloc_chain_steady[OF 2(1)] .
    show ?thesis
    proof (cases fc)
      case None
      then show ?thesis using 2(2) calm_set_vol[OF s1] by auto
    next
      case (Some c)
      then obtain v2 where v2: "write_chain n c data sz 0 v1 = Inr v2" using 2(2) by (auto simp: bindE_eq_Inr)
      obtain ok v3 where v3: "add_entry [0..<unat (root_dir_sectors v2)] (new_dir_entry name8 ext3 c sz) v2 = (ok, v3)" by fastforce
      have "steady (vol s) v3" using s1 write_chain_steady[OF v2] add_entry_steady[OF v3] by (meson steady_trans)
      from calm_set_vol[OF this] show ?thesis using 2(2) Some v2 v3 by (auto split: if_splits)
    qed
  qed
qed

section \<open>User programs\<close>

lemma isr128_calm: "isr128 f s = Inr (r, s') \<Longrightarrow> calm s s'"
  by (auto simp: isr128_def bindE_eq_Inr split: if_splits dest!: syscall_effect)

lemma run_user_calm: "run_user n U f s = Inr s' \<Longrightarrow> calm s s'"
proof (induction n arbitrary: f s)
  case (Suc n)
  then obtain f1 m r s1 where u: "isr128 f1 (s\<lparr>mc := m\<rparr>) = Inr (r, s1)" "(case r of None \<Rightarrow> Inr s1 | Some f2 \<Rightarrow> run_user n U f2 s1) = Inr s'"
    by (auto simp: bindE_eq_Inr)
  have "calm s s1" using isr128_calm[OF u(1)] by simp
  then show ?case using u(2) Suc.IH by (auto split: option.splits intro: calm_trans)
qed simp

lemma jump_calm: "jump_to_usermode n U c st en s = Inr s' \<Longrightarrow> calm s s'"
  by (auto simp: jump_to_usermode_def dest: run_user_calm)

lemmas calm_vm_rules = map_page_more[THEN calm_vm] load_elf_program_more[THEN calm_vm]

lemma enter_user_program_calm: "enter_user_program e en s = Inr s' \<Longrightarrow> calm s s'"
  by (auto simp: enter_user_program_def bindE_eq_Inr Let_def split: if_splits
      dest!: allocators_calm calm_vm_rules jump_calm) (meson calm_trans)+

lemma load_flat_calm: "load_flat img n s = Inr (b, s') \<Longrightarrow> calm s s'"
  by (auto simp: load_flat_def bindE_eq_Inr Let_def split: if_splits dest!: allocators_calm calm_vm_rules intro: calm_trans)

lemma run_image_calm: "run_image e img n s = Inr (b, s') \<Longrightarrow> calm s s'"
  by (auto simp: run_image_def bindE_eq_Inr Let_def split: if_splits
      dest!: load_flat_calm calm_vm_rules enter_user_program_calm intro: calm_trans)

lemma cmd_run_calm: "cmd_run e ws s = Inr (b, s') \<Longrightarrow> calm s s'"
  by (auto simp: cmd_run_def bindE_eq_Inr Let_def split: if_splits list.splits prod.splits
      dest!: allocators_calm(1) read_file_to_calm run_image_calm intro: calm_trans)

lemma task_finish_calm: "task_finish en p s = Inr (r, n, s') \<Longrightarrow> calm s s'"
  by (auto simp: task_finish_def bindE_eq_Inr Let_def split: if_splits dest!: allocators_calm calm_vm_rules) (meson calm_trans)+

lemma task_create_calm: "task_create_from_elf e path p s = Inr (r, n, s') \<Longrightarrow> calm s s'"
  by (auto simp: task_create_from_elf_def bindE_eq_Inr Let_def split: if_splits option.splits prod.splits
      dest!: allocators_calm(1) read_file_to_calm calm_vm_rules task_finish_calm intro: calm_trans)

lemma cmd_spawn_calm: "cmd_spawn e ws s = Inr s' \<Longrightarrow> calm s s'"
  by (auto simp: cmd_spawn_def bindE_eq_Inr Let_def split: if_splits list.splits prod.splits
      dest!: task_create_calm jump_calm intro: calm_trans)

section \<open>Commands\<close>

lemma kprints_calm [simp]: "calm s (kprints ms s') = calm s s'"
  by (induction ms arbitrary: s') (simp_all add: kprints_def)

lemma cmd_echo_calm [simp]: "calm s (cmd_echo ws s') = calm s s'"
  by (induction ws s' rule: cmd_echo.induct) simp_all

lemma tar_ls_loop_calm: "tar_ls_loop n a s = Inr s' \<Longrightarrow> calm s s'"
proof (induction n arbitrary: a s)
  case (Suc n)
  then show ?case by (auto simp: bindE_eq_Inr Let_def split: if_splits dest!: Suc.IH)
qed simp

lemma cat_bytes_calm: "cat_bytes n a s = Inr s' \<Longrightarrow> calm s s'"
proof (induction n arbitrary: a s)
  case (Suc n)
  then show ?case by (auto simp: bindE_eq_Inr dest!: Suc.IH)
qed simp

lemma tar_cat_loop_calm: "tar_cat_loop n name a s = Inr s' \<Longrightarrow> calm s s'"
  by (induction n arbitrary: a s) (auto simp: bindE_eq_Inr Let_def split: if_splits dest: cat_bytes_calm)

lemma tar_calm: "tar_ls n s = Inr s' \<Longrightarrow> calm s s'" "tar_cat n name s = Inr s' \<Longrightarrow> calm s s'"
  by (auto simp: tar_ls_def tar_cat_def bindE_eq_Inr split: if_splits dest: tar_ls_loop_calm tar_cat_loop_calm)

lemma ls_entries_calm: "ls_entries es buf fa s = (fin, fa', s') \<Longrightarrow> calm s s'"
  by (induction es buf fa s rule: ls_entries.induct) (auto simp: Let_def split: if_splits)

lemma ls_sectors_calm: "ls_sectors is fa s = (fa', s') \<Longrightarrow> calm s s'"
  by (induction "is" fa s rule: ls_sectors.induct)
    (auto simp: Let_def split: prod.splits if_splits
      dest!: rd_sector_steady[THEN calm_set_vol] ls_entries_calm intro: calm_trans)

lemma fat16_ls_calm [simp]: "calm s (fat16_ls s)"
  by (auto simp: fat16_ls_def Let_def split: prod.splits if_splits dest!: ls_sectors_calm)

lemma disk_commands_calm:
  "calm s (cmd_write_test ws s)" "cmd_read_test s = Inr s' \<Longrightarrow> calm s s'"
  "cmd_fat_cat e ws s = Inr s' \<Longrightarrow> calm s s'" "cmd_fat_write e' ws s = Inr s' \<Longrightarrow> calm s s'"
proof -
  show "calm s (cmd_write_test ws s)" by (simp add: cmd_write_test_def Let_def calm_set_vol wr_sector_steady)
  show "cmd_read_test s = Inr s' \<Longrightarrow> calm s s'"
    by (auto simp: cmd_read_test_def Let_def split: prod.splits if_splits dest!: rd_sector_steady[THEN calm_set_vol])
  show "cmd_fat_cat e ws s = Inr s' \<Longrightarrow> calm s s'"
    by (auto simp: cmd_fat_cat_def bindE_eq_Inr Let_def split: list.splits prod.splits if_splits dest!: read_file_calm)
  show "cmd_fat_write e' ws s = Inr s' \<Longrightarrow> calm s s'"
    by (auto simp: cmd_fat_write_def bindE_eq_Inr Let_def split: list.splits prod.splits dest!: write_file_calm)
qed

lemma ret_calm: "ret r = Inr (b, s') \<Longrightarrow> (\<And>t. r = Inr t \<Longrightarrow> calm s t) \<Longrightarrow> calm s s'"
  by (auto simp: ret_def bindE_eq_Inr)

lemma run_command_calm:
  assumes "run_command e w ws s = Inr (b, s')"
  shows "calm s s'"
  using assms unfolding run_command_def
  by (simp only: sum.distinct split: if_splits)
    (auto simp: cmd_help_def cmd_meminfo_def cmd_uptime_def Let_def disk_commands_calm(1) split: list.splits
      elim!: ret_calm dest: tar_calm disk_commands_calm(2-4) cmd_run_calm cmd_spawn_calm)

section \<open>Events\<close>

lemma calm_shell: "calm s s' \<Longrightarrow> caps s' = caps s" for s s' :: "'a shell_scheme"
  by (cases s; cases s'; simp add: calm_def)

lemma execute_command_steady:
  assumes "execute_command e s = Inr s'"
  shows "steady (vol s) (vol s') \<and> caps s' = caps s"
proof -
  let ?s = "\<lambda>buf. (kprint s (bytes ''\<newline>''))\<lparr>input_buffer := buf\<rparr>"
  have v: "vol (?s buf) = vol s" "caps (?s buf) = caps s" for buf by (simp_all add: kprint_def)
  obtain argv buf where "(case arg_strings argv buf of [] \<Rightarrow> Inr (prompt (?s buf))
      | w # ws \<Rightarrow> bindE (run_command e w ws (?s buf)) (\<lambda>(early, s3). Inr (if early then s3 else prompt s3))) = Inr s'"
    using assms by (auto simp: execute_command_def Let_def bindE_eq_Inr)
  then consider "s' = prompt (?s buf)"
    | w ws b t where "run_command e w ws (?s buf) = Inr (b, t)" "s' = (if b then t else prompt t)"
    by (auto simp: bindE_eq_Inr split: list.splits)
  then show ?thesis
  proof cases
    case 1
    then show ?thesis by (simp only: prompt_fields v steady_refl)
  next
    case (2 w ws b t)
    then show ?thesis using run_command_calm[OF 2(1)] calm_shell[OF run_command_calm[OF 2(1)]] v by (auto simp: calm_def)
  qed
qed

definition running :: "fat16_vol \<Rightarrow> 'a shell_scheme \<Rightarrow> bool" where
  "running v s \<longleftrightarrow> shell_ok s \<and> steady v (vol s)"

lemma running_step:
  assumes "event_step e s ev s'" "running v s"
  shows "running v s'"
proof (cases "ev = Key 0x1C")
  case True
  then obtain s1 where s1: "execute_command e s = Inr s1" "s' = s1\<lparr>dev := outb 0x20 0x20 (dev s1)\<rparr>"
    using assms by (auto simp: event_step_simps key_event running_def shell_ok_def enter_key)
  have "line_ok s'" using key_event_line assms True by (auto simp: event_step_simps running_def shell_ok_def)
  then show ?thesis
    using execute_command_steady[OF s1(1)] s1(2) assms(2) by (auto simp: running_def shell_ok_def intro: steady_trans)
next
  case False
  obtain s1 where "event_step e s ev s1" "shell_ok s1" using typing_step[OF _ False] assms(2) by (auto simp: running_def)
  then have "shell_ok s'" using event_deterministic[OF assms(1)] by simp
  then show ?thesis using typing_vol[OF assms(1) _ False] assms(2) by (simp add: running_def)
qed

section \<open>Property\<close>



end
