(* ===== verification/First_Process.thy ===== *)
theory First_Process
  imports Boot
begin

text \<open>
  The boot and the creation of a process together: the allocators as kernel\_main leaves them are in
  exactly the state in which task\_create\_from\_elf gives the same frame to the program and to its
  process structure.
\<close>

lemma kalloc_space:
  assumes "space_ok L s" "bump_addr (pm s) = boot_frame f" "f + 1 < NFRAMES"
  obtains s1 where "kalloc_a 4096 s = Inr (boot_frame f, s1)" "space_ok L s1" "bump_addr (pm s1) = boot_frame (f + 1)"
    "max_frames (pm s1) = max_frames (pm s)" "free_frames (pm s1) = free_frames (pm s) - {f}" "ptes s1 = ptes s" "mc s1 = mc s"
proof -
  have pok: "pmm_ok (pm s)" using space_paging[OF assms(1)] by (simp add: paging_ok_def)
  have f: "unat (boot_frame f) = f * 4096" "unat (boot_frame (f + 1)) = (f + 1) * 4096"
    using boot_frame_nat[of f] boot_frame_nat[of "f + 1"] assms(3) by simp_all
  have le: "unat (bump_addr (pm s)) + unat (4096 :: u32) \<le> NFRAMES * 4096" using assms(2,3) f(1) by simp
  obtain p where p: "kmalloc_a 4096 (pm s) = Inr (boot_frame f, p)" using kmalloc_a_eq[OF pok _ le] assms(2) by auto
  note u = kmalloc_a_used[OF pok _ le p, simplified]
  have used: "used_frames p = insert f (used_frames (pm s))" using u(5) f(1) by auto
  have nx: "boot_frame f + 4096 = boot_frame (f + 1)"
    using f assms(3) by (simp add: word_unat_eq_iff unat_word_ariths NFRAMES_def)
  have "boot_frame (f + 1) AND 0xFFF = 0" using f(2) by (simp add: word_unat_eq_iff page_mask_nat)
  then have bump: "bump_addr p = boot_frame (f + 1)" using u(3) nx assms(2) by (simp add: bump_addr_def)
  have pt: "ptes (s\<lparr>pm := p\<rparr>) = ptes s" by (rule ext) (simp add: ptes_def)
  have "paging_ok L (s\<lparr>pm := p\<rparr>)"
    using space_paging[OF assms(1)] u(2,4) used unfolding paging_ok_def pt by auto
  then have "space_ok L (s\<lparr>pm := p\<rparr>)" using assms(1) used unfolding space_ok_def pt by auto
  then show thesis
    using that[of "s\<lparr>pm := p\<rparr>"] p u(4) used bump pt by (auto simp: kalloc_a_def free_frames_def)
qed

lemma spare_range:
  assumes "{f..<f + k} \<subseteq> free_frames (pm s)" "f + k \<le> unat (max_frames (pm s))"
  shows "k \<le> spare s"
proof -
  have "card {f..<f + k} \<le> card {f \<in> free_frames (pm s). f < unat (max_frames (pm s))}"
    using assms by (intro card_mono) (auto simp: free_frames_def)
  then show ?thesis by (simp add: spare_def)
qed



end
