(* ===== verification/Ports.thy ===== *)
theory Ports
  imports Prelude "HOL-Library.Monad_Syntax"
begin

text \<open>
  Busy waits on a status port. The drivers read a status register with inb of src/src/ports.c
  until a bit of it comes or goes; nothing bounds such a loop, so it is a partial function whose
  value is None when it never ends. \<open>status_port\<close> is what a device promises to a driver that
  polls it: each read brings it one step closer to a state in which the register no longer changes.
\<close>

section \<open>The polling loop\<close>

text \<open>Reading the status register gives its value and lets time pass on the device.\<close>

definition read_status :: "('s \<Rightarrow> u8) \<Rightarrow> ('s \<Rightarrow> 's) \<Rightarrow> 's \<Rightarrow> u8 \<times> 's" where
  "read_status status tick s = (status s, tick s)"

partial_function (option) poll_until :: "('s \<Rightarrow> u8 \<times> 's) \<Rightarrow> (u8 \<Rightarrow> bool) \<Rightarrow> 's \<Rightarrow> 's option" where
  "poll_until inb P s = (case inb s of (v, s') \<Rightarrow> if P v then Some s' else poll_until inb P s')"

lemma poll_until_stop: "P (status s) \<Longrightarrow> poll_until (read_status status tick) P s = Some (tick s)"
  by (subst poll_until.simps) (simp add: read_status_def)

lemma poll_until_step:
  "\<not> P (status s) \<Longrightarrow> poll_until (read_status status tick) P s = poll_until (read_status status tick) P (tick s)"
  by (subst poll_until.simps) (simp add: read_status_def)

text \<open>A loop whose condition never comes true does not return.\<close>

lemma poll_until_result:
  assumes "poll_until (read_status status tick) P s = Some s'"
  shows "\<exists>k. P (status ((tick ^^ k) s)) \<and> s' = (tick ^^ Suc k) s"
proof -
  define claim where "claim = (\<lambda>((inb, P), s) s'. inb = read_status status tick \<longrightarrow>
    (\<exists>k. P (status ((tick ^^ k) s)) \<and> s' = (tick ^^ Suc k) s))"
  have "claim ((read_status status tick, P), s) s'"
  proof (rule poll_until.raw_induct[OF _ assms])
    fix poll and inb :: "'a \<Rightarrow> u8 \<times> 'a" and P :: "u8 \<Rightarrow> bool" and s s'
    assume IH: "\<And>inb P s s'. poll inb P s = Some s' \<Longrightarrow> claim ((inb, P), s) s'"
      and res: "(case inb s of (v, t) \<Rightarrow> if P v then Some t else poll inb P t) = Some s'"
    show "claim ((inb, P), s) s'"
    proof (cases "inb = read_status status tick \<and> \<not> P (status s)")
      case True
      then have "claim ((inb, P), tick s) s'" using res by (intro IH) (simp add: read_status_def)
      then obtain k where "P (status ((tick ^^ k) (tick s)))" "s' = (tick ^^ Suc k) (tick s)"
        using True by (auto simp: claim_def)
      then show ?thesis unfolding claim_def by (auto simp: funpow_swap1 intro!: exI[of _ "Suc k"])
    next
      case False
      then show ?thesis using res unfolding claim_def by (auto simp: read_status_def intro!: exI[of _ 0])
    qed
  qed
  then show ?thesis by (simp add: claim_def)
qed

lemma poll_until_hangs:
  assumes "\<And>k. \<not> P (status ((tick ^^ k) s))"
  shows "poll_until (read_status status tick) P s = None"
  using poll_until_result[of status tick P s] assms by (cases "poll_until (read_status status tick) P s") auto

section \<open>Devices that settle\<close>

locale status_port =
  fixes status :: "'s \<Rightarrow> u8"
    and tick :: "'s \<Rightarrow> 's"
    and wait :: "'s \<Rightarrow> nat"
    and settled :: "'s \<Rightarrow> 's"
  assumes wait_tick: "wait (tick s) = wait s - 1"
    and settled_tick: "settled (tick s) = settled s"
    and settled_wait: "wait s = 0 \<Longrightarrow> tick s = s \<and> settled s = s"
begin

lemma settles: "(tick ^^ wait s) s = settled s"
proof (induction "wait s" arbitrary: s)
  case 0
  then show ?case using settled_wait by simp
next
  case (Suc n)
  then have "wait (tick s) = n" using wait_tick[of s] by simp
  then have "(tick ^^ n) (tick s) = settled (tick s)" using Suc.hyps(1) by metis
  then show ?case using Suc.hyps(2)[symmetric] settled_tick by (simp add: funpow_swap1)
qed

text \<open>A loop whose condition holds once the device has settled returns, at some earlier moment perhaps.\<close>

lemma poll_returns:
  assumes "P (status (settled s))"
  shows "\<exists>s'. poll_until (read_status status tick) P s = Some s' \<and> settled s' = settled s"
  using assms
proof (induction "wait s" arbitrary: s)
  case 0
  then have "P (status s)" using settled_wait by simp
  then show ?case using poll_until_stop[of P status s tick] settled_tick by blast
next
  case (Suc n)
  show ?case
  proof (cases "P (status s)")
    case True
    then show ?thesis using poll_until_stop[of P status s tick] settled_tick by blast
  next
    case False
    have "wait (tick s) = n" using Suc.hyps(2) wait_tick[of s] by simp
    then show ?thesis
      using Suc.hyps(1)[of "tick s"] Suc.prems settled_tick poll_until_step[of P status s tick] False by (metis (no_types))
  qed
qed

text \<open>When the condition can hold in the settled state only, the loop returns exactly there.\<close>

lemma poll_settles:
  assumes "P (status (settled s))" "\<And>t. 0 < wait t \<Longrightarrow> \<not> P (status t)"
  shows "poll_until (read_status status tick) P s = Some (settled s)"
  using assms(1)
proof (induction "wait s" arbitrary: s)
  case 0
  then show ?case using settled_wait[of s] poll_until_stop[of P status s tick] by simp
next
  case (Suc n)
  have "wait (tick s) = n" using Suc.hyps(2) wait_tick[of s] by simp
  moreover have "\<not> P (status s)" using Suc.hyps(2) assms(2) by simp
  ultimately show ?case
    using Suc.hyps(1)[of "tick s"] Suc.prems settled_tick poll_until_step[of P status s tick] by metis
qed

text \<open>A loop whose condition holds neither on the way nor in the settled state never returns.\<close>

lemma poll_hangs:
  assumes "\<not> P (status (settled s))" "\<And>t. 0 < wait t \<Longrightarrow> \<not> P (status t)"
  shows "poll_until (read_status status tick) P s = None"
proof (rule poll_until_hangs)
  fix k
  have e: "settled ((tick ^^ k) s) = settled s" by (induction k) (simp_all add: settled_tick)
  show "\<not> P (status ((tick ^^ k) s))"
  proof (cases "wait ((tick ^^ k) s)")
    case 0
    then show ?thesis using assms(1) settled_wait[OF 0] e by metis
  next
    case (Suc n)
    then show ?thesis using assms(2) by simp
  qed
qed

end

end
