(* ===== verification/Ata_Port.thy ===== *)
theory Ata_Port
  imports Ata Ports
begin

text \<open>
  src/src/ata.c at the level of its port accesses. The drive behind the ports is a state machine
  with the behaviour the ATA standard documents for programmed I/O: after it is selected, given a
  command or given the last word of a sector it may be busy for any finite time; while it is busy
  it ignores writes to its registers; a command that names a sector it does not have ends in an
  error without any data. The driver is the sequence of port accesses of the source, its four
  busy waits included. \<open>Ata\<close> is the view of it the file system has, without the waiting.
\<close>

section \<open>The drive\<close>

datatype transfer = Idle | Reading "u16 list" | Writing u32 nat "u16 list" | Failed

text \<open>
  \<open>bsy\<close> is the number of reads of the status that still show BSY, \<open>gap\<close> that of reads which then
  show neither BSY nor DRDY or DRQ; \<open>waits\<close> has these two for the times the drive will be busy.
\<close>

record drive =
  dev_regs :: ata_dev
  xfer :: transfer
  bsy :: nat
  gap :: nat
  waits :: "(nat \<times> nat) list"
  capacity :: nat

definition start_wait :: "drive \<Rightarrow> drive" where
  "start_wait d =
     (case waits d of [] \<Rightarrow> d\<lparr>bsy := 0, gap := 0\<rparr> | (b, g) # ws \<Rightarrow> d\<lparr>bsy := b, gap := g, waits := ws\<rparr>)"

definition drive_status :: "drive \<Rightarrow> u8" where
  "drive_status d =
     (if 0 < bsy d then 0x80 else if 0 < gap d then 0
      else case xfer d of Idle \<Rightarrow> 0x50 | Failed \<Rightarrow> 0x51 | _ \<Rightarrow> 0x58)"

definition drive_tick :: "drive \<Rightarrow> drive" where
  "drive_tick d = (if 0 < bsy d then d\<lparr>bsy := bsy d - 1\<rparr> else d\<lparr>gap := gap d - 1\<rparr>)"

definition drive_wait :: "drive \<Rightarrow> nat" where
  "drive_wait d = bsy d + gap d"

definition drive_settled :: "drive \<Rightarrow> drive" where
  "drive_settled d = d\<lparr>bsy := 0, gap := 0\<rparr>"

text \<open>A sector count of 0 stands for 256 sectors.\<close>

definition drive_count :: "drive \<Rightarrow> nat" where
  "drive_count d = (if sector_count (dev_regs d) = 0 then 256 else unat (sector_count (dev_regs d)))"

definition drive_has :: "drive \<Rightarrow> bool" where
  "drive_has d \<longleftrightarrow> unat (ata_address (dev_regs d)) + drive_count d \<le> capacity d"

definition drive_command :: "u8 \<Rightarrow> drive \<Rightarrow> drive" where
  "drive_command c d =
     (let a = ata_address (dev_regs d); n = drive_count d
      in (start_wait d)\<lparr>xfer :=
           (if c = 0x20 \<and> drive_has d then Reading (concat (map (\<lambda>i. words_of (sectors (dev_regs d) (a + of_nat i))) [0..<n]))
            else if c = 0x30 \<and> drive_has d then Writing a n []
            else if c = 0xE7 then Idle
            else Failed)\<rparr>)"

definition drive_outb :: "u16 \<Rightarrow> u8 \<Rightarrow> drive \<Rightarrow> drive" where
  "drive_outb port v d =
     (if 0 < bsy d then d
      else if port = 0x1F7 then drive_command v d
      else if port = 0x1F6 then start_wait (d\<lparr>dev_regs := ata_outb port v (dev_regs d)\<rparr>)
      else d\<lparr>dev_regs := ata_outb port v (dev_regs d)\<rparr>)"

text \<open>The data port is read and written in words; the other accesses find no device.\<close>

definition drive_inw :: "u16 \<Rightarrow> drive \<Rightarrow> u16 \<times> drive" where
  "drive_inw port d =
     (case xfer d of
        Reading (w # ws) \<Rightarrow>
          if port = 0x1F0 then (w, d\<lparr>xfer := (if ws = [] then Idle else Reading ws)\<rparr>) else (0xFFFF, d)
      | _ \<Rightarrow> (0xFFFF, d))"

definition drive_outw :: "u16 \<Rightarrow> u16 \<Rightarrow> drive \<Rightarrow> drive" where
  "drive_outw port w d =
     (case xfer d of
        Writing a n ws \<Rightarrow>
          (if port \<noteq> 0x1F0 then d
           else if length ws + 1 < 256 then d\<lparr>xfer := Writing a n (ws @ [w])\<rparr>
           else (start_wait d)\<lparr>
             dev_regs := (dev_regs d)\<lparr>sectors := (sectors (dev_regs d))(a := bytes_of (ws @ [w]))\<rparr>,
             xfer := (if n \<le> 1 then Idle else Writing (a + 1) (n - 1) [])\<rparr>)
      | _ \<Rightarrow> d)"

text \<open>Status and alternate status; a port without a device behind it reads as ones.\<close>

definition drive_inb :: "u16 \<Rightarrow> drive \<Rightarrow> u8 \<times> drive" where
  "drive_inb port d = (if port = 0x1F7 \<or> port = 0x3F6 then read_status drive_status drive_tick d else (0xFF, d))"

section \<open>The driver\<close>

definition wait_not_busy :: "drive \<Rightarrow> drive option" where
  "wait_not_busy d = poll_until (drive_inb 0x1F7) (\<lambda>s. s AND 0x80 = 0) d"

definition wait_flag :: "u8 \<Rightarrow> drive \<Rightarrow> drive option" where
  "wait_flag b d = poll_until (drive_inb 0x1F7) (\<lambda>s. s AND b \<noteq> 0) d"

definition ata_wait_ready :: "drive \<Rightarrow> drive option" where
  "ata_wait_ready d = do { d \<leftarrow> wait_not_busy d; wait_flag 0x40 d }"

definition ata_setup_io :: "u32 \<Rightarrow> drive \<Rightarrow> drive option" where
  "ata_setup_io lba d =
     do { d \<leftarrow> ata_wait_ready (drive_outb 0x1F6 (ucast (0xE0 OR (drop_bit 24 lba AND 0x0F))) d);
          let d = drive_outb 0x1F2 1 d;
          let d = drive_outb 0x1F3 (ucast lba) d;
          let d = drive_outb 0x1F4 (ucast (drop_bit 8 lba)) d;
          Some (drive_outb 0x1F5 (ucast (drop_bit 16 lba)) d) }"

text \<open>The command, the four reads of the alternate status and the waits for the drive.\<close>

definition ata_command_io :: "u8 \<Rightarrow> drive \<Rightarrow> drive option" where
  "ata_command_io c d =
     do { let d = ((snd \<circ> drive_inb 0x3F6) ^^ 4) (drive_outb 0x1F7 c d);
          d \<leftarrow> wait_not_busy d;
          wait_flag 0x08 d }"

primrec inw_loop :: "nat \<Rightarrow> drive \<Rightarrow> u16 list \<times> drive" where
  "inw_loop 0 d = ([], d)"
| "inw_loop (Suc n) d = (let (w, d) = drive_inw 0x1F0 d; (ws, d) = inw_loop n d in (w # ws, d))"

definition ata_read_sector_io :: "u32 \<Rightarrow> drive \<Rightarrow> (u8 list \<times> drive) option" where
  "ata_read_sector_io lba d =
     do { d \<leftarrow> ata_setup_io lba d;
          d \<leftarrow> ata_command_io 0x20 d;
          let (ws, d) = inw_loop 256 d;
          Some (bytes_of ws, snd (drive_inb 0x1F7 d)) }"

definition ata_write_sector_io :: "u32 \<Rightarrow> u8 list \<Rightarrow> drive \<Rightarrow> drive option" where
  "ata_write_sector_io lba buf d =
     do { d \<leftarrow> ata_setup_io lba d;
          d \<leftarrow> ata_command_io 0x30 d;
          let d = fold (drive_outw 0x1F0) (words_of buf) d;
          let d = drive_outb 0x1F7 0xE7 d;
          Some (snd (drive_inb 0x1F7 d)) }"

section \<open>Waiting\<close>

interpretation drv: status_port drive_status drive_tick drive_wait drive_settled
  by unfold_locales (auto simp: drive_tick_def drive_wait_def drive_settled_def)

lemma drive_settled_simps [simp]:
  "dev_regs (drive_settled d) = dev_regs d" "xfer (drive_settled d) = xfer d" "bsy (drive_settled d) = 0" "gap (drive_settled d) = 0"
  "capacity (drive_settled d) = capacity d" "drive_settled (drive_settled d) = drive_settled d"
  by (simp_all add: drive_settled_def)

lemma start_wait_simps [simp]:
  "dev_regs (start_wait d) = dev_regs d" "xfer (start_wait d) = xfer d" "capacity (start_wait d) = capacity d"
  by (simp_all add: start_wait_def split: list.split)

lemma drive_settled_status: "drive_status (drive_settled d) = (case xfer d of Idle \<Rightarrow> 0x50 | Failed \<Rightarrow> 0x51 | _ \<Rightarrow> 0x58)"
  by (simp add: drive_status_def)

lemma drive_waiting_status: "0 < drive_wait d \<Longrightarrow> drive_status d = 0x80 \<or> drive_status d = 0"
  by (auto simp: drive_status_def drive_wait_def)

lemma drive_inb_status: "drive_inb 0x1F7 = read_status drive_status drive_tick"
  by (simp add: fun_eq_iff drive_inb_def)

text \<open>BSY goes away in every case; the flags come exactly if the settled drive shows them.\<close>

lemma wait_not_busy_returns: "\<exists>d'. wait_not_busy d = Some d' \<and> drive_settled d' = drive_settled d"
  unfolding wait_not_busy_def drive_inb_status
  by (rule drv.poll_returns) (simp add: drive_settled_status split: transfer.split)

lemma wait_flag_settles:
  assumes "b = 0x40 \<or> b = 0x08"
  shows "wait_flag b d = (if drive_status (drive_settled d) AND b \<noteq> 0 then Some (drive_settled d) else None)"
proof -
  have "\<not> drive_status t AND b \<noteq> 0" if "0 < drive_wait t" for t
    using drive_waiting_status[OF that] assms by auto
  then show ?thesis
    using drv.poll_settles[of "\<lambda>s. s AND b \<noteq> 0" d] drv.poll_hangs[of "\<lambda>s. s AND b \<noteq> 0" d]
    by (simp add: wait_flag_def drive_inb_status)
qed

lemma ata_wait_ready_settles: "ata_wait_ready d = Some (drive_settled d)"
proof -
  obtain d' where "wait_not_busy d = Some d'" "drive_settled d' = drive_settled d" using wait_not_busy_returns by blast
  then show ?thesis
    by (simp add: ata_wait_ready_def wait_flag_settles drive_settled_status split: transfer.split)
qed

section \<open>Selecting a sector\<close>

text \<open>
  The first write, to the drive and head register, is made without waiting: a drive that is still
  busy ignores it and keeps the register as it was.
\<close>

definition head_byte :: "u32 \<Rightarrow> u8" where
  "head_byte lba = ucast (0xE0 OR (drop_bit 24 lba AND 0x0F))"

definition head_ready :: "u32 \<Rightarrow> drive \<Rightarrow> bool" where
  "head_ready lba d \<longleftrightarrow> bsy d = 0 \<or> drive_head (dev_regs d) = head_byte lba"

definition select_with_head :: "u8 \<Rightarrow> u32 \<Rightarrow> ata_dev \<Rightarrow> ata_dev" where
  "select_with_head h lba r = (ata_select lba r)\<lparr>drive_head := h\<rparr>"

lemma ata_setup_io_regs:
  "\<exists>d'. ata_setup_io lba d = Some d' \<and> bsy d' = 0 \<and> gap d' = 0 \<and> xfer d' = xfer d \<and> capacity d' = capacity d \<and>
     dev_regs d' = select_with_head (if bsy d = 0 then head_byte lba else drive_head (dev_regs d)) lba (dev_regs d)"
  by (simp add: ata_setup_io_def ata_wait_ready_settles drive_outb_def ata_outb_def select_with_head_def head_byte_def
      ata_select_def Let_def)

lemma select_with_head_byte: "select_with_head (head_byte lba) lba r = ata_select lba r"
  by (simp add: select_with_head_def head_byte_def ata_select_def ata_outb_def Let_def)

lemma select_with_head_simps [simp]:
  "sectors (select_with_head h lba r) = sectors r" "sector_count (select_with_head h lba r) = 1"
  "drive_head (select_with_head h lba r) = h"
  by (simp_all add: select_with_head_def ata_select_def ata_outb_def Let_def)

lemma ata_setup_io_select:
  assumes "head_ready lba d"
  shows "\<exists>d'. ata_setup_io lba d = Some d' \<and> bsy d' = 0 \<and> gap d' = 0 \<and> capacity d' = capacity d \<and>
    dev_regs d' = ata_select lba (dev_regs d)"
  using ata_setup_io_regs[of lba d] assms select_with_head_byte[of lba "dev_regs d"] by (auto simp: head_ready_def split: if_splits)

section \<open>Commands and data\<close>

lemma drive_settled_ticks: "drive_settled (((snd \<circ> drive_inb 0x3F6) ^^ k) d) = drive_settled d"
  by (induction k) (simp_all add: drive_inb_def read_status_def drv.settled_tick)

lemma ata_command_io_settles:
  assumes "bsy d = 0"
  shows "ata_command_io c d =
    (if xfer (drive_command c d) = Idle \<or> xfer (drive_command c d) = Failed then None
     else Some (drive_settled (drive_command c d)))"
proof -
  obtain d' where d': "wait_not_busy (((snd \<circ> drive_inb 0x3F6) ^^ 4) (drive_command c d)) = Some d'"
      "drive_settled d' = drive_settled (drive_command c d)"
    using wait_not_busy_returns[of "((snd \<circ> drive_inb 0x3F6) ^^ 4) (drive_command c d)"] drive_settled_ticks by metis
  have x: "xfer d' = xfer (drive_command c d)" using d'(2) drive_settled_simps(2) by metis
  show ?thesis
    using assms d' x by (simp add: ata_command_io_def drive_outb_def wait_flag_settles drive_settled_status split: transfer.split)
qed

lemma inw_loop_reads:
  "xfer d = Reading (ws @ vs) \<Longrightarrow> ws \<noteq> [] \<Longrightarrow>
   inw_loop (length ws) d = (ws, d\<lparr>xfer := (if vs = [] then Idle else Reading vs)\<rparr>)"
proof (induction ws arbitrary: d)
  case Nil
  then show ?case by simp
next
  case (Cons w ws)
  show ?case
  proof (cases "ws = []")
    case True
    then show ?thesis using Cons.prems by (simp add: drive_inw_def)
  next
    case False
    then show ?thesis using Cons.prems Cons.IH[of "d\<lparr>xfer := Reading (ws @ vs)\<rparr>"] by (simp add: drive_inw_def)
  qed
qed

lemma outw_loop_fills:
  "xfer d = Writing a n vs \<Longrightarrow> length vs + length ws < 256 \<Longrightarrow>
   fold (drive_outw 0x1F0) ws d = d\<lparr>xfer := Writing a n (vs @ ws)\<rparr>"
proof (induction ws arbitrary: d vs)
  case Nil
  then show ?case by simp
next
  case (Cons w ws)
  then show ?case using Cons.IH[of "d\<lparr>xfer := Writing a n (vs @ [w])\<rparr>" "vs @ [w]"] by (simp add: drive_outw_def)
qed

lemma outw_loop_writes:
  assumes "xfer d = Writing a 1 []" "length ws = 256"
  shows "fold (drive_outw 0x1F0) ws d =
    (start_wait d)\<lparr>dev_regs := (dev_regs d)\<lparr>sectors := (sectors (dev_regs d))(a := bytes_of ws)\<rparr>, xfer := Idle\<rparr>"
proof (cases ws rule: rev_exhaust)
  case Nil
  then show ?thesis using assms(2) by simp
next
  case (snoc us w)
  then have "fold (drive_outw 0x1F0) us d = d\<lparr>xfer := Writing a 1 us\<rparr>"
    using outw_loop_fills[OF assms(1), of us] assms(2) by simp
  then show ?thesis using snoc assms(2) by (simp add: drive_outw_def start_wait_def split: list.split)
qed

lemma words_of_length [simp]: "length (words_of bs) = 256"
  by (simp add: words_of_def)

section \<open>One sector\<close>

lemma drive_has_one: "sector_count (dev_regs d) = 1 \<Longrightarrow> drive_has d \<longleftrightarrow> unat (ata_address (dev_regs d)) < capacity d"
  by (auto simp: drive_has_def drive_count_def)

lemma drive_command_read:
  assumes "sector_count (dev_regs d) = 1" "unat (ata_address (dev_regs d)) < capacity d"
  shows "drive_command 0x20 d = (start_wait d)\<lparr>xfer := Reading (words_of (sectors (dev_regs d) (ata_address (dev_regs d))))\<rparr>"
  using assms by (simp add: drive_command_def drive_has_one drive_count_def)

lemma drive_command_write:
  assumes "sector_count (dev_regs d) = 1" "unat (ata_address (dev_regs d)) < capacity d"
  shows "drive_command 0x30 d = (start_wait d)\<lparr>xfer := Writing (ata_address (dev_regs d)) 1 []\<rparr>"
  using assms by (simp add: drive_command_def drive_has_one drive_count_def)

lemma drive_inb_keeps [simp]: "dev_regs (snd (drive_inb 0x1F7 d)) = dev_regs d" "capacity (snd (drive_inb 0x1F7 d)) = capacity d"
  "bsy d = 0 \<Longrightarrow> bsy (snd (drive_inb 0x1F7 d)) = 0"
  by (simp_all add: drive_inb_def read_status_def drive_tick_def)

lemma drive_flush_keeps [simp]:
  "dev_regs (drive_outb 0x1F7 0xE7 d) = dev_regs d" "capacity (drive_outb 0x1F7 0xE7 d) = capacity d"
  by (simp_all add: drive_outb_def drive_command_def Let_def)

lemma read_selected:
  assumes "bsy d = 0" "sector_count (dev_regs d) = 1" "unat (ata_address (dev_regs d)) < capacity d" "ata_setup_io lba d0 = Some d"
  shows "\<exists>d'. ata_read_sector_io lba d0 = Some (bytes_of (words_of (sectors (dev_regs d) (ata_address (dev_regs d)))), d') \<and>
    dev_regs d' = dev_regs d \<and> capacity d' = capacity d \<and> bsy d' = 0"
proof -
  let ?ws = "words_of (sectors (dev_regs d) (ata_address (dev_regs d)))"
  let ?d = "drive_settled (drive_command 0x20 d)"
  have c: "xfer ?d = Reading (?ws @ [])" "dev_regs ?d = dev_regs d" "capacity ?d = capacity d"
    using assms(2,3) by (simp_all add: drive_command_read)
  have ne: "?ws \<noteq> []" by (metis words_of_length list.size(3) zero_neq_numeral)
  have l: "inw_loop 256 ?d = (?ws, ?d\<lparr>xfer := Idle\<rparr>)" using inw_loop_reads[OF c(1) ne] by simp
  have x: "ata_command_io 0x20 d = Some ?d" using assms(1) c(1) by (simp add: ata_command_io_settles)
  show ?thesis
    using c(2,3) by (simp add: ata_read_sector_io_def assms(4) x l)
qed

lemma write_selected:
  assumes "bsy d = 0" "sector_count (dev_regs d) = 1" "unat (ata_address (dev_regs d)) < capacity d" "ata_setup_io lba d0 = Some d"
  shows "\<exists>d'. ata_write_sector_io lba buf d0 = Some d' \<and> capacity d' = capacity d \<and>
    dev_regs d' = (dev_regs d)\<lparr>sectors := (sectors (dev_regs d))(ata_address (dev_regs d) := bytes_of (words_of buf))\<rparr>"
proof -
  let ?d = "drive_settled (drive_command 0x30 d)"
  have c: "xfer ?d = Writing (ata_address (dev_regs d)) 1 []" "dev_regs ?d = dev_regs d" "capacity ?d = capacity d"
    using assms(2,3) by (simp_all add: drive_command_write)
  have x: "ata_command_io 0x30 d = Some ?d" using assms(1) c(1) by (simp add: ata_command_io_settles)
  show ?thesis
    using c(2,3) outw_loop_writes[OF c(1), of "words_of buf"] by (simp add: ata_write_sector_io_def assms(4) x)
qed

lemma select_count: "sector_count (ata_select lba r) = 1" "drive_head (ata_select lba r) = head_byte lba"
  by (simp_all add: ata_select_def ata_outb_def Let_def head_byte_def)

lemma ata_read_sector_io_ok:
  assumes "head_ready lba d" "unat (lba AND 0x0FFFFFFF) < capacity d"
  shows "\<exists>d'. ata_read_sector_io lba d = Some (fst (ata_read_sector lba (dev_regs d)), d') \<and>
    dev_regs d' = snd (ata_read_sector lba (dev_regs d)) \<and> capacity d' = capacity d \<and> bsy d' = 0"
proof -
  obtain s where s: "ata_setup_io lba d = Some s" "bsy s = 0" "capacity s = capacity d" "dev_regs s = ata_select lba (dev_regs d)"
    using ata_setup_io_select[OF assms(1)] by blast
  then show ?thesis
    using read_selected[of s lba d] assms(2) by (simp add: select_count ata_select_address ata_read_sector_def)
qed

lemma ata_write_sector_io_ok:
  assumes "head_ready lba d" "unat (lba AND 0x0FFFFFFF) < capacity d"
  shows "\<exists>d'. ata_write_sector_io lba buf d = Some d' \<and> dev_regs d' = ata_write_sector lba buf (dev_regs d) \<and> capacity d' = capacity d"
proof -
  obtain s where s: "ata_setup_io lba d = Some s" "bsy s = 0" "capacity s = capacity d" "dev_regs s = ata_select lba (dev_regs d)"
    using ata_setup_io_select[OF assms(1)] by blast
  then show ?thesis
    using write_selected[of s lba d buf] assms(2) by (auto simp: select_count ata_select_address ata_write_sector_def Let_def)
qed

section \<open>Properties\<close>

text \<open>The calls a client makes, on the driver and on its view in \<open>Ata\<close>.\<close>

datatype disk_op = ReadOp u32 | WriteOp u32 "u8 list"

fun run_ata :: "disk_op list \<Rightarrow> ata_dev \<Rightarrow> u8 list list \<times> ata_dev" where
  "run_ata [] r = ([], r)"
| "run_ata (ReadOp lba # ops) r =
     (let (bs, r) = ata_read_sector lba r; (bss, r) = run_ata ops r in (bs # bss, r))"
| "run_ata (WriteOp lba buf # ops) r = run_ata ops (ata_write_sector lba buf r)"

fun run_ata_io :: "disk_op list \<Rightarrow> drive \<Rightarrow> (u8 list list \<times> drive) option" where
  "run_ata_io [] d = Some ([], d)"
| "run_ata_io (ReadOp lba # ops) d =
     do { (bs, d) \<leftarrow> ata_read_sector_io lba d; (bss, d) \<leftarrow> run_ata_io ops d; Some (bs # bss, d) }"
| "run_ata_io (WriteOp lba buf # ops) d = do { d \<leftarrow> ata_write_sector_io lba buf d; run_ata_io ops d }"

fun op_lba :: "disk_op \<Rightarrow> u32" where
  "op_lba (ReadOp lba) = lba"
| "op_lba (WriteOp lba buf) = lba"

lemma low_lba: "unat lba < 16777216 \<Longrightarrow> head_byte lba = 0xE0 \<and> lba AND 0x0FFFFFFF = lba"
proof -
  assume l: "unat lba < 16777216"
  then have "drop_bit 24 lba = 0" by (simp add: word_unat_eq_iff drop_bit_eq_div unat_div)
  then show ?thesis using l lba28[of lba] by (simp add: head_byte_def)
qed

lemma ata_io_run:
  assumes "\<And>op. op \<in> set ops \<Longrightarrow> unat (op_lba op) < 16777216 \<and> unat (op_lba op) < capacity d"
    and "bsy d = 0 \<or> drive_head (dev_regs d) = 0xE0"
  shows "\<exists>d'. run_ata_io ops d = Some (fst (run_ata ops (dev_regs d)), d') \<and> dev_regs d' = snd (run_ata ops (dev_regs d))"
  using assms
proof (induction ops d rule: run_ata_io.induct)
  case (1 d)
  then show ?case by simp
next
  case (2 lba ops d)
  then have l: "unat lba < 16777216" "unat lba < capacity d" by force+
  obtain d' where d': "ata_read_sector_io lba d = Some (fst (ata_read_sector lba (dev_regs d)), d')"
      "dev_regs d' = snd (ata_read_sector lba (dev_regs d))" "capacity d' = capacity d" "bsy d' = 0"
    using ata_read_sector_io_ok[of lba d] low_lba[OF l(1)] l(2) "2.prems"(2) by (auto simp: head_ready_def)
  then show ?case
    using "2.IH"[OF d'(1) refl] "2.prems"(1) by (force simp: split_beta Let_def)
next
  case (3 lba buf ops d)
  then have l: "unat lba < 16777216" "unat lba < capacity d" by force+
  obtain d' where d': "ata_write_sector_io lba buf d = Some d'" "dev_regs d' = ata_write_sector lba buf (dev_regs d)" "capacity d' = capacity d"
    using ata_write_sector_io_ok[of lba d buf] low_lba[OF l(1)] l(2) "3.prems"(2) by (auto simp: head_ready_def)
  then have "drive_head (dev_regs d') = 0xE0" using low_lba[OF l(1)] by (simp add: ata_write_sector_def Let_def select_count)
  then show ?case
    using "3.IH"[OF d'(1)] "3.prems"(1) d' by force
qed



definition sample_drive :: drive where
  "sample_drive = \<lparr>dev_regs = sample_disk\<lparr>drive_head := 0xE0\<rparr>, xfer = Idle, bsy = 3, gap = 1, waits = [(2, 0), (0, 5), (7, 7)], capacity = 100\<rparr>"




text \<open>
  The write of the drive and head register comes before the wait for the drive. On a drive that is
  still busy it is lost, and the read delivers the sector with the high address bits of the call before.
\<close>

definition stale_lba :: "u8 \<Rightarrow> u32 \<Rightarrow> u32" where
  "stale_lba h lba = (lba AND 0x00FFFFFF) OR push_bit 24 (ucast (h AND 0x0F))"

lemma select_with_head_address: "ata_address (select_with_head h lba r) = stale_lba h lba"
proof (rule bit_word_eqI)
  fix n :: nat
  assume n: "n < LENGTH(32)"
  have m: "(0x00FFFFFF :: u32) = mask 24" "(0x0F :: u8) = mask 4" by (simp_all add: mask_eq_exp_minus_1)
  have r: "lba_low (select_with_head h lba r) = ucast lba" "lba_mid (select_with_head h lba r) = ucast (drop_bit 8 lba)"
      "lba_high (select_with_head h lba r) = ucast (drop_bit 16 lba)"
    by (simp_all add: select_with_head_def ata_select_regs)
  consider "n < 8" | "8 \<le> n" "n < 16" | "16 \<le> n" "n < 24" | "24 \<le> n" by linarith
  then show "bit (ata_address (select_with_head h lba r)) n = bit (stale_lba h lba) n"
    using n unfolding ata_address_def r stale_lba_def select_with_head_simps unfolding m by cases (auto simp: bit_simps)
qed

theorem ata_io_busy_reads_stale:
  assumes "0 < bsy d" "disk_ok (dev_regs d)" "unat (stale_lba (drive_head (dev_regs d)) lba) < capacity d"
  shows "\<exists>d'. ata_read_sector_io lba d = Some (sectors (dev_regs d) (stale_lba (drive_head (dev_regs d)) lba), d')"
proof -
  obtain s where s: "ata_setup_io lba d = Some s" "bsy s = 0" "capacity s = capacity d"
      "dev_regs s = select_with_head (drive_head (dev_regs d)) lba (dev_regs d)"
    using ata_setup_io_regs[of lba d] assms(1) by auto
  then show ?thesis
    using read_selected[of s lba d] assms(2,3) by (auto simp: select_with_head_address words_bytes disk_ok_def)
qed

theorem ata_io_busy_reads_stale_witness:
  "\<exists>d'. ata_read_sector_io 0x01000005 sample_drive =
     Some (sectors (dev_regs sample_drive) (stale_lba (drive_head (dev_regs sample_drive)) 0x01000005), d')"
  by (rule ata_io_busy_reads_stale) (simp_all add: sample_drive_def sample_disk_def disk_ok_def stale_lba_def)

end
