(* ===== verification/Serial.thy ===== *)
theory Serial
  imports Screen Ports
begin

text \<open>
  debug_putc of src/src/screen.c at the level of its port accesses: the byte goes to the debug port
  0xE9 and, once the line status register shows an empty transmit holding register, to COM1. The
  UART may take any finite time for a byte; a byte written while it is still busy would be lost.
  \<open>Screen\<close> keeps the transcript of the bytes sent, without the waiting.
\<close>

section \<open>The UART\<close>

record uart =
  sent :: "u8 list"
  debug_port :: "u8 list"
  thr_wait :: nat
  byte_times :: "nat list"

definition line_status :: "uart \<Rightarrow> u8" where
  "line_status u = (if 0 < thr_wait u then 0 else 0x60)"

definition uart_tick :: "uart \<Rightarrow> uart" where
  "uart_tick u = u\<lparr>thr_wait := thr_wait u - 1\<rparr>"

definition uart_settled :: "uart \<Rightarrow> uart" where
  "uart_settled u = u\<lparr>thr_wait := 0\<rparr>"

definition uart_outb :: "u8 \<Rightarrow> uart \<Rightarrow> uart" where
  "uart_outb c u =
     (if 0 < thr_wait u then u
      else u\<lparr>sent := sent u @ [c],
             thr_wait := (case byte_times u of [] \<Rightarrow> 0 | t # ts \<Rightarrow> t), byte_times := drop 1 (byte_times u)\<rparr>)"

section \<open>The driver\<close>

definition debug_putc_io :: "u8 \<Rightarrow> uart \<Rightarrow> uart option" where
  "debug_putc_io c u =
     do { let u = u\<lparr>debug_port := debug_port u @ [c]\<rparr>;
          u \<leftarrow> poll_until (read_status line_status uart_tick) (\<lambda>s. s AND 0x20 \<noteq> 0) u;
          Some (uart_outb c u) }"

fun debug_print_io :: "u8 list \<Rightarrow> uart \<Rightarrow> uart option" where
  "debug_print_io [] u = Some u"
| "debug_print_io (c # cs) u = (if c = 0 then Some u else do { u \<leftarrow> debug_putc_io c u; debug_print_io cs u })"

section \<open>Refinement\<close>

interpretation com1: status_port line_status uart_tick thr_wait uart_settled
  by unfold_locales (auto simp: uart_tick_def uart_settled_def)

lemma debug_putc_io_sends:
  "\<exists>u'. debug_putc_io c u = Some u' \<and> sent u' = sent u @ [c] \<and> debug_port u' = debug_port u @ [c]"
proof -
  let ?u = "u\<lparr>debug_port := debug_port u @ [c]\<rparr>"
  have "poll_until (read_status line_status uart_tick) (\<lambda>s. s AND 0x20 \<noteq> 0) ?u = Some (uart_settled ?u)"
    by (rule com1.poll_settles) (simp_all add: line_status_def uart_settled_def)
  then show ?thesis by (simp add: debug_putc_io_def uart_outb_def uart_settled_def)
qed

text \<open>
  The debug output returns however long the UART takes for each byte, loses no byte, and both ports
  carry the transcript that the console keeps.
\<close>

theorem debug_print_io_refines:
  assumes "sent u = serial s" "debug_port u = serial s"
  shows "\<exists>u'. debug_print_io msg u = Some u' \<and> sent u' = serial (debug_print s msg) \<and> debug_port u' = serial (debug_print s msg)"
  using assms
proof (induction msg arbitrary: u s)
  case Nil
  then show ?case by simp
next
  case (Cons c cs)
  obtain u' where u': "debug_putc_io c u = Some u'" "sent u' = sent u @ [c]" "debug_port u' = debug_port u @ [c]"
    using debug_putc_io_sends by blast
  then show ?case using Cons.IH[of u' "debug_putc s c"] Cons.prems by (simp add: debug_putc_def)
qed

end
